(* ===== verification/C_Base.thy ===== *)
theory C_Base
  imports Main "HOL-Library.Word"
begin

text \<open>
  The prelude: what every component of the model shares.  A C run either returns a value or
  commits an undefined or fatal action; the latter is a \<open>fault\<close>, so that every operation is a
  function into \<open>fault + 'a\<close>.  Bytes are 8-bit words, a C string is the list of its
  non-zero bytes, and C's truncating remainder is written out.
\<close>

section \<open>Faults and outcomes\<close>

text \<open>
  What a C program must not do, as values.  \<open>Process_Exit\<close> is a call of \<open>exit\<close>,
  \<open>Assert_Failed\<close> a failing \<open>assert\<close> (abort), \<open>Diverges\<close> a loop that never ends.
\<close>

datatype fault =
    Null_Deref
  | Use_After_Free
  | Out_Of_Bounds
  | Null_Call
  | Assert_Failed
  | Process_Exit int
  | Diverges

type_synonym 'a outcome = "fault + 'a"

named_theorems outcome_simps \<open>unfolding the sequencing of fallible C statements\<close>

definition obind :: "'a outcome \<Rightarrow> ('a \<Rightarrow> 'b outcome) \<Rightarrow> 'b outcome" where
  "obind m f = (case m of Inl e \<Rightarrow> Inl e | Inr x \<Rightarrow> f x)"

lemma obind_Inl [simp, outcome_simps]: "obind (Inl e) f = Inl e"
  by (simp add: obind_def)

lemma obind_Inr [simp, outcome_simps]: "obind (Inr x) f = f x"
  by (simp add: obind_def)

lemma obind_eq_Inr:
  "obind m f = Inr y \<longleftrightarrow> (\<exists>x. m = Inr x \<and> f x = Inr y)"
  by (cases m) auto

lemma obind_assoc: "obind (obind m f) g = obind m (\<lambda>x. obind (f x) g)"
  by (cases m) auto

lemma obind_cong [fundef_cong]:
  "m = m' \<Longrightarrow> (\<And>x. m' = Inr x \<Longrightarrow> f x = f' x) \<Longrightarrow> obind m f = obind m' f'"
  by (cases m') auto

definition faults :: "'a outcome \<Rightarrow> fault \<Rightarrow> bool" where
  "faults m e \<longleftrightarrow> m = Inl e"

definition returns :: "'a outcome \<Rightarrow> bool" where
  "returns m \<longleftrightarrow> (case m of Inl _ \<Rightarrow> False | Inr _ \<Rightarrow> True)"

lemma returns_simps [simp]: "returns (Inr x)" "\<not> returns (Inl e)"
  by (simp_all add: returns_def)

lemma returns_iff: "returns m \<longleftrightarrow> (\<exists>x. m = Inr x)"
  by (cases m) auto

section \<open>Bytes and C strings\<close>

type_synonym byte = "8 word"

text \<open>
  The bytes of a string literal.  \<open>cstr\<close> is used for literals of the source only, so the
  characters are ASCII.
\<close>

definition cstr :: "string \<Rightarrow> byte list" where
  "cstr s = map of_char s"

lemma cstr_Nil [simp]: "cstr [] = []"
  by (simp add: cstr_def)

lemma cstr_Cons [simp]: "cstr (c # cs) = of_char c # cstr cs"
  by (simp add: cstr_def)

lemma length_cstr [simp]: "length (cstr s) = length s"
  by (simp add: cstr_def)

text \<open>A list of bytes is the contents of a C string when no byte is the terminator.\<close>

definition is_cstr :: "byte list \<Rightarrow> bool" where
  "is_cstr bs \<longleftrightarrow> 0 \<notin> set bs"

lemma is_cstr_simps [simp]:
  "is_cstr []"
  "is_cstr (b # bs) \<longleftrightarrow> b \<noteq> 0 \<and> is_cstr bs"
  "is_cstr (xs @ ys) \<longleftrightarrow> is_cstr xs \<and> is_cstr ys"
  by (auto simp: is_cstr_def)

text \<open>
  Reading byte \<open>i\<close> of a NUL-terminated buffer whose contents are \<open>bs\<close>: the terminator sits
  right after the contents, and reading past it is a fault.
\<close>

definition cstr_at :: "byte list \<Rightarrow> nat \<Rightarrow> byte outcome" where
  "cstr_at bs i =
     (if i < length bs then Inr (bs ! i)
      else if i = length bs then Inr 0
      else Inl Out_Of_Bounds)"

section \<open>C's remainder\<close>

text \<open>\<open>%\<close> on \<open>int\<close> truncates towards zero; on non-negative operands it is \<open>mod\<close>.\<close>

definition c_rem :: "int \<Rightarrow> int \<Rightarrow> int" where
  "c_rem a b = sgn a * (\<bar>a\<bar> mod \<bar>b\<bar>)"

lemma c_rem_nonneg: "0 \<le> a \<Longrightarrow> 0 < b \<Longrightarrow> c_rem a b = a mod b"
  by (cases "a = 0") (simp_all add: c_rem_def)

section \<open>Words and maps\<close>

type_synonym size_t = "64 word"

lemma unat_lt_64: "unat x < 2 ^ 64" for x :: "64 word"
  by (rule order_less_le_trans[OF unsigned_less]) simp

lemma map_eqI:
  assumes "\<And>k x. f k = Some x \<longleftrightarrow> g k = Some x"
  shows "f = g"
proof
  show "f k = g k" for k using assms[of k] by (metis not_Some_eq)
qed

end
