(* ===== verification/Queue.thy ===== *)
theory Queue
  imports C_Base
begin

text \<open>
  \<open>src/src/queue.h\<close>: the bounded ring buffer behind both message queues.  The operations are
  modelled as they run under the queue's mutex (theory \<open>Queue_Threads\<close> takes the lock apart);
  the abstraction \<open>queue_contents\<close> reads the ring as the list of queued pointers, and the
  locale \<open>bounded_fifo\<close> is the contract the clients of a queue rely on.
\<close>

section \<open>The ring buffer\<close>

text \<open>
  A queued \<open>void *\<close> is an \<open>'a option\<close>, with \<open>None\<close> for the null pointer.  The mutex
  and the two condition variables (never used) are not part of the data.
\<close>

record 'a queue_t =
  buffer :: "'a option list"
  capacity :: int
  qsize :: int
  qin :: int
  qout :: int

text \<open>\<open>QUEUE_INITIALIZER\<close>: the capacity is the element count of the array.\<close>

definition QUEUE_INITIALIZER :: "'a option list \<Rightarrow> 'a queue_t" where
  "QUEUE_INITIALIZER buf =
     \<lparr>buffer = buf, capacity = int (length buf), qsize = 0, qin = 0, qout = 0\<rparr>"

definition in_buffer :: "'a queue_t \<Rightarrow> int \<Rightarrow> bool" where
  "in_buffer q i \<longleftrightarrow> 0 \<le> i \<and> i < int (length (buffer q))"

definition queue_enqueue :: "'a queue_t \<Rightarrow> 'a option \<Rightarrow> 'a queue_t outcome" where
  "queue_enqueue q value =
     (if qsize q = capacity q then Inr q
      else if \<not> in_buffer q (qin q) then Inl Out_Of_Bounds
      else
        (let q = q\<lparr>buffer := (buffer q)[nat (qin q) := value]\<rparr>;
             q = q\<lparr>qsize := qsize q + 1\<rparr>;
             q = q\<lparr>qin := qin q + 1\<rparr>;
             q = q\<lparr>qin := c_rem (qin q) (capacity q)\<rparr>
         in Inr q))"

definition queue_dequeue :: "'a queue_t \<Rightarrow> ('a option \<times> 'a queue_t) outcome" where
  "queue_dequeue q =
     (if qsize q = 0 then Inr (None, q)
      else if \<not> in_buffer q (qout q) then Inl Out_Of_Bounds
      else
        (let value = buffer q ! nat (qout q);
             q = q\<lparr>qsize := qsize q - 1\<rparr>;
             q = q\<lparr>qout := qout q + 1\<rparr>;
             q = q\<lparr>qout := c_rem (qout q) (capacity q)\<rparr>
         in Inr (value, q)))"

definition queue_size :: "'a queue_t \<Rightarrow> int" where
  "queue_size q = qsize q"

section \<open>Invariant and abstraction\<close>

text \<open>The write index runs \<open>qsize\<close> places ahead of the read index, modulo the capacity.\<close>

definition queue_inv :: "'a queue_t \<Rightarrow> bool" where
  "queue_inv q \<longleftrightarrow>
     capacity q = int (length (buffer q)) \<and> 0 < capacity q \<and>
     0 \<le> qsize q \<and> qsize q \<le> capacity q \<and>
     0 \<le> qout q \<and> qout q < capacity q \<and>
     qin q = (qout q + qsize q) mod capacity q"

definition queue_contents :: "'a queue_t \<Rightarrow> 'a option list" where
  "queue_contents q =
     map (\<lambda>i. buffer q ! nat ((qout q + int i) mod capacity q)) [0..<nat (qsize q)]"

lemma length_queue_contents: "length (queue_contents q) = nat (qsize q)"
  by (simp add: queue_contents_def)

lemma queue_inv_QUEUE_INITIALIZER: "buf \<noteq> [] \<Longrightarrow> queue_inv (QUEUE_INITIALIZER buf)"
  by (simp add: queue_inv_def QUEUE_INITIALIZER_def)

lemma queue_contents_QUEUE_INITIALIZER: "queue_contents (QUEUE_INITIALIZER buf) = []"
  by (simp add: queue_contents_def QUEUE_INITIALIZER_def)

text \<open>Two queued positions that are less than a lap apart never share a slot.\<close>

lemma ring_slot_distinct:
  fixes c a :: int
  assumes "0 \<le> i" "i < j" "j < c"
  shows "(a + i) mod c \<noteq> (a + j) mod c"
proof
  assume "(a + i) mod c = (a + j) mod c"
  then have "c dvd (a + j) - (a + i)"
    by (metis mod_eq_dvd_iff)
  with assms show False
    by (auto dest: zdvd_imp_le)
qed

section \<open>Every operation against the abstraction\<close>

lemma queue_invD:
  assumes "queue_inv q"
  shows "0 < capacity q" "0 \<le> qsize q" "qsize q \<le> capacity q"
    "0 \<le> qout q" "qout q < capacity q" "0 \<le> qin q" "qin q < capacity q"
    "length (buffer q) = nat (capacity q)"
  using assms by (auto simp: queue_inv_def)

lemma queue_inv_qin: "queue_inv q \<Longrightarrow> qin q = (qout q + qsize q) mod capacity q"
  by (simp add: queue_inv_def)

lemma queue_enqueue_full:
  "qsize q = capacity q \<Longrightarrow> queue_enqueue q v = Inr q"
  by (simp add: queue_enqueue_def)

lemma queue_inv_in_buffer:
  assumes "queue_inv q"
  shows "in_buffer q (qin q)" and "in_buffer q (qout q)"
  using assms by (auto simp: queue_inv_def in_buffer_def)

lemma queue_enqueue_room:
  assumes "queue_inv q" "qsize q \<noteq> capacity q"
  shows "queue_enqueue q v = Inr (q\<lparr>buffer := (buffer q)[nat (qin q) := v],
           qsize := qsize q + 1, qin := (qin q + 1) mod capacity q\<rparr>)"
  using assms(2) queue_inv_in_buffer(1)[OF assms(1)] queue_invD[OF assms(1)]
  by (simp add: queue_enqueue_def Let_def c_rem_nonneg)

lemma queue_dequeue_nonempty:
  assumes "queue_inv q" "qsize q \<noteq> 0"
  shows "queue_dequeue q = Inr (buffer q ! nat (qout q),
           q\<lparr>qsize := qsize q - 1, qout := (qout q + 1) mod capacity q\<rparr>)"
  using assms(2) queue_inv_in_buffer(2)[OF assms(1)] queue_invD[OF assms(1)]
  by (simp add: queue_dequeue_def Let_def c_rem_nonneg)

lemma queue_enqueue_spec:
  assumes "queue_inv q"
  shows "\<exists>q'. queue_enqueue q v = Inr q' \<and> queue_inv q' \<and> capacity q' = capacity q \<and>
     queue_contents q' =
       (if length (queue_contents q) < nat (capacity q) then queue_contents q @ [v]
        else queue_contents q)"
proof (cases "qsize q = capacity q")
  case True
  with assms show ?thesis
    by (simp add: queue_enqueue_full length_queue_contents)
next
  case False
  let ?c = "capacity q" and ?n = "nat (qsize q)"
  let ?q' = "q\<lparr>buffer := (buffer q)[nat (qin q) := v], qsize := qsize q + 1,
               qin := (qin q + 1) mod capacity q\<rparr>"
  note inv = assms[unfolded queue_inv_def]
  have inv': "queue_inv ?q'"
    using inv False by (auto simp: queue_inv_def mod_simps algebra_simps)
  have len: "nat (qin q) < length (buffer q)"
    using queue_invD[OF assms] by auto
  have old: "(buffer q)[nat (qin q) := v] ! nat ((qout q + int i) mod ?c)
      = buffer q ! nat ((qout q + int i) mod ?c)" if "i < ?n" for i
  proof -
    have "(qout q + int i) mod ?c \<noteq> (qout q + qsize q) mod ?c"
      using that inv False by (intro ring_slot_distinct) auto
    then have "nat ((qout q + int i) mod ?c) \<noteq> nat (qin q)"
      using inv by (auto simp: nat_eq_iff2)
    then show ?thesis by simp
  qed
  have new: "(buffer q)[nat (qin q) := v] ! nat ((qout q + qsize q) mod ?c) = v"
    using inv len by simp
  have "queue_contents ?q' = queue_contents q @ [v]"
    using inv old new by (auto simp: queue_contents_def nat_add_distrib)
  moreover have "length (queue_contents q) < nat ?c"
    using queue_invD[OF assms] False by (auto simp: length_queue_contents)
  ultimately show ?thesis
    using queue_enqueue_room[OF assms False, of v] inv' by simp
qed

lemma queue_dequeue_spec:
  assumes "queue_inv q"
  shows "\<exists>q'. queue_dequeue q =
       Inr (case queue_contents q of [] \<Rightarrow> None | v # _ \<Rightarrow> v, q') \<and>
     queue_inv q' \<and> capacity q' = capacity q \<and> queue_contents q' = tl (queue_contents q)"
proof (cases "qsize q = 0")
  case True
  with assms show ?thesis by (simp add: queue_dequeue_def queue_contents_def)
next
  case False
  let ?c = "capacity q" and ?n = "nat (qsize q - 1)"
  let ?q' = "q\<lparr>qsize := qsize q - 1, qout := (qout q + 1) mod capacity q\<rparr>"
  note inv = assms[unfolded queue_inv_def]
  have "(qout q + qsize q) mod ?c = ((qout q + 1) mod ?c + (qsize q - 1)) mod ?c"
    by (simp add: mod_simps)
  then have inv': "queue_inv ?q'"
    using inv False by (auto simp: queue_inv_def)
  have n: "nat (qsize q) = Suc ?n"
    using queue_invD[OF assms] False by linarith
  have "queue_contents q = buffer q ! nat (qout q) #
      map (\<lambda>i. buffer q ! nat ((qout q + 1 + int i) mod ?c)) [0..<?n]"
    using inv by (simp only: queue_contents_def n upt_conv_Cons map_Suc_upt[symmetric])
       (simp add: algebra_simps)
  moreover have "queue_contents ?q' = map (\<lambda>i. buffer q ! nat ((qout q + 1 + int i) mod ?c)) [0..<?n]"
    by (simp add: queue_contents_def mod_simps algebra_simps)
  ultimately show ?thesis
    using queue_dequeue_nonempty[OF assms False] inv' by simp
qed

section \<open>The contract of a bounded queue\<close>

datatype 'a queue_op = Enqueue "'a option" | Dequeue

fun queue_run :: "('q \<Rightarrow> 'a option \<Rightarrow> 'q outcome) \<Rightarrow> ('q \<Rightarrow> ('a option \<times> 'q) outcome) \<Rightarrow>
    'q \<Rightarrow> 'a queue_op list \<Rightarrow> ('a option list \<times> 'q) outcome" where
  "queue_run enq deq q [] = Inr ([], q)"
| "queue_run enq deq q (Enqueue v # ops) =
     obind (enq q v) (\<lambda>q. queue_run enq deq q ops)"
| "queue_run enq deq q (Dequeue # ops) =
     obind (deq q) (\<lambda>(v, q). obind (queue_run enq deq q ops) (\<lambda>(vs, q). Inr (v # vs, q)))"

text \<open>The same operations on a list of at most \<open>n\<close> elements, and the values they let in.\<close>

fun fifo_run :: "nat \<Rightarrow> 'a option list \<Rightarrow> 'a queue_op list \<Rightarrow> 'a option list \<times> 'a option list" where
  "fifo_run n xs [] = ([], xs)"
| "fifo_run n xs (Enqueue v # ops) =
     fifo_run n (if length xs < n then xs @ [v] else xs) ops"
| "fifo_run n xs (Dequeue # ops) =
     (let (vs, ys) = fifo_run n (tl xs) ops
      in ((case xs of [] \<Rightarrow> None | v # _ \<Rightarrow> v) # vs, ys))"

fun fifo_accepted :: "nat \<Rightarrow> 'a option list \<Rightarrow> 'a queue_op list \<Rightarrow> 'a option list" where
  "fifo_accepted n xs [] = []"
| "fifo_accepted n xs (Enqueue v # ops) =
     (if length xs < n then v # fifo_accepted n (xs @ [v]) ops else fifo_accepted n xs ops)"
| "fifo_accepted n xs (Dequeue # ops) = fifo_accepted n (tl xs) ops"

text \<open>The dequeued values other than the null that an empty queue answers with.\<close>

fun fifo_delivered :: "nat \<Rightarrow> 'a option list \<Rightarrow> 'a queue_op list \<Rightarrow> 'a option list" where
  "fifo_delivered n xs [] = []"
| "fifo_delivered n xs (Enqueue v # ops) =
     fifo_delivered n (if length xs < n then xs @ [v] else xs) ops"
| "fifo_delivered n xs (Dequeue # ops) =
     (case xs of [] \<Rightarrow> fifo_delivered n [] ops | v # vs \<Rightarrow> v # fifo_delivered n vs ops)"

lemma fifo_conservation:
  "xs @ fifo_accepted n xs ops = fifo_delivered n xs ops @ snd (fifo_run n xs ops)"
proof (induction ops arbitrary: xs)
  case (Cons op ops)
  show ?case
  proof (cases op)
    case (Enqueue v)
    then show ?thesis using Cons[of "xs @ [v]"] Cons[of xs] by auto
  next
    case Dequeue
    then show ?thesis using Cons[of "tl xs"] by (cases xs) (auto split: prod.splits)
  qed
qed simp

lemma fifo_delivered_nonnull:
  "None \<notin> set xs \<Longrightarrow> Enqueue None \<notin> set ops \<Longrightarrow>
     filter (\<lambda>v. v \<noteq> None) (fst (fifo_run n xs ops)) = fifo_delivered n xs ops"
proof (induction ops arbitrary: xs)
  case (Cons op ops)
  show ?case
  proof (cases op)
    case (Enqueue v)
    then show ?thesis using Cons.prems Cons.IH[of "xs @ [v]"] Cons.IH[of xs] by auto
  next
    case Dequeue
    have "None \<notin> set (tl xs)" using Cons.prems(1) by (cases xs) auto
    then show ?thesis using Dequeue Cons.prems Cons.IH[of "tl xs"]
      by (cases xs) (auto split: prod.splits)
  qed
qed simp

lemma fifo_run_bounded:
  "length xs \<le> n \<Longrightarrow> length (snd (fifo_run n xs ops)) \<le> n"
proof (induction ops arbitrary: xs)
  case (Cons op ops)
  show ?case
  proof (cases op)
    case Dequeue
    have "length (tl xs) \<le> n" using Cons.prems by simp
    then show ?thesis using Dequeue Cons.IH[of "tl xs"] by (auto split: prod.splits)
  qed (use Cons in auto)
qed simp

locale bounded_fifo =
  fixes enq :: "'q \<Rightarrow> 'a option \<Rightarrow> 'q outcome"
    and deq :: "'q \<Rightarrow> ('a option \<times> 'q) outcome"
    and contents :: "'q \<Rightarrow> 'a option list"
    and room :: "'q \<Rightarrow> nat"
    and inv :: "'q \<Rightarrow> bool"
  assumes within_room: "inv q \<Longrightarrow> length (contents q) \<le> room q"
    and enq_law: "inv q \<Longrightarrow> \<exists>q'. enq q v = Inr q' \<and> inv q' \<and> room q' = room q \<and>
      contents q' = (if length (contents q) < room q then contents q @ [v] else contents q)"
    and deq_law: "inv q \<Longrightarrow> \<exists>q'. deq q = Inr (case contents q of [] \<Rightarrow> None | v # _ \<Rightarrow> v, q') \<and>
      inv q' \<and> room q' = room q \<and> contents q' = tl (contents q)"
begin

lemma run_refines:
  "inv q \<Longrightarrow> \<exists>q'. queue_run enq deq q ops = Inr (fst (fifo_run (room q) (contents q) ops), q') \<and>
     inv q' \<and> room q' = room q \<and> contents q' = snd (fifo_run (room q) (contents q) ops)"
proof (induction ops arbitrary: q)
  case (Cons op ops)
  show ?case
  proof (cases op)
    case (Enqueue v)
    from enq_law[OF Cons.prems, of v] obtain q' where "enq q v = Inr q'" "inv q'" "room q' = room q"
      "contents q' = (if length (contents q) < room q then contents q @ [v] else contents q)"
      by blast
    with Cons.IH[of q'] Enqueue show ?thesis by auto
  next
    case Dequeue
    from deq_law[OF Cons.prems] obtain q' where "inv q'" "room q' = room q"
      "deq q = Inr (case contents q of [] \<Rightarrow> None | v # _ \<Rightarrow> v, q')" "contents q' = tl (contents q)"
      by blast
    with Cons.IH[of q'] Dequeue show ?thesis by (auto split: prod.splits)
  qed
qed simp

lemma run_never_faults: "inv q \<Longrightarrow> returns (queue_run enq deq q ops)"
  using run_refines[of q ops] by (auto simp: returns_iff)

lemma run_fifo_order:
  assumes "inv q" "None \<notin> set (contents q)" "Enqueue None \<notin> set ops"
  shows "\<exists>vs q'. queue_run enq deq q ops = Inr (vs, q') \<and> inv q' \<and>
    contents q @ fifo_accepted (room q) (contents q) ops =
      filter (\<lambda>v. v \<noteq> None) vs @ contents q'"
proof -
  from run_refines[OF assms(1), of ops] obtain q' where
    run: "queue_run enq deq q ops = Inr (fst (fifo_run (room q) (contents q) ops), q')" "inv q'"
      "contents q' = snd (fifo_run (room q) (contents q) ops)"
    by blast
  then show ?thesis
    using fifo_conservation[of "contents q" "room q" ops]
      fifo_delivered_nonnull[OF assms(2,3), of "room q"] by auto
qed

end

interpretation ring: bounded_fifo queue_enqueue queue_dequeue queue_contents
    "\<lambda>q. nat (capacity q)" queue_inv
proof unfold_locales
  show "length (queue_contents q) \<le> nat (capacity q)" if "queue_inv q" for q :: "'a queue_t"
    using queue_invD(3)[OF that] by (simp add: length_queue_contents nat_mono)
next
  show "\<exists>q'. queue_enqueue q v = Inr q' \<and> queue_inv q' \<and> nat (capacity q') = nat (capacity q) \<and>
      queue_contents q' = (if length (queue_contents q) < nat (capacity q)
        then queue_contents q @ [v] else queue_contents q)" if "queue_inv q"
    for q :: "'a queue_t" and v
    using queue_enqueue_spec[OF that, of v] by metis
next
  show "\<exists>q'. queue_dequeue q = Inr (case queue_contents q of [] \<Rightarrow> None | v # _ \<Rightarrow> v, q') \<and>
      queue_inv q' \<and> nat (capacity q') = nat (capacity q) \<and> queue_contents q' = tl (queue_contents q)"
    if "queue_inv q" for q :: "'a queue_t"
    using queue_dequeue_spec[OF that] by metis
qed

section \<open>Properties\<close>

text \<open>C1: \<open>queue_enqueue\<close> and \<open>queue_dequeue\<close> implement a FIFO list of at most
  \<open>capacity\<close> elements: an enqueue appends unless the ring is full, when it silently drops the
  value; a dequeue takes the oldest value, or answers null on an empty ring; neither ever leaves
  the buffer and both keep the invariant.\<close>

theorem queue_ops_refine_fifo:
  assumes "queue_inv q"
  shows "(\<exists>q'. queue_enqueue q v = Inr q' \<and> queue_inv q' \<and> capacity q' = capacity q \<and>
      queue_contents q' = (if length (queue_contents q) < nat (capacity q)
        then queue_contents q @ [v] else queue_contents q)) \<and>
    (\<exists>q'. queue_dequeue q = Inr (case queue_contents q of [] \<Rightarrow> None | w # _ \<Rightarrow> w, q') \<and>
      queue_inv q' \<and> capacity q' = capacity q \<and> queue_contents q' = tl (queue_contents q))"
  using queue_enqueue_spec[OF assms] queue_dequeue_spec[OF assms] by blast

theorem queue_ops_refine_fifo_witness:
  "\<exists>q'. queue_enqueue \<lparr>buffer = [Some 1, None, Some 0], capacity = 3, qsize = 2, qin = 1, qout = 2\<rparr>
       (Some (7::nat)) = Inr q' \<and> queue_contents q' = [Some 0, Some 1, Some 7]"
proof -
  let ?q = "\<lparr>buffer = [Some 1, None, Some (0::nat)], capacity = 3, qsize = 2, qin = 1, qout = 2\<rparr>"
  have inv: "queue_inv ?q" by (simp add: queue_inv_def)
  have "queue_contents ?q = [Some 0, Some 1]"
    by (simp add: queue_contents_def upt_rec numeral_2_eq_2)
  with queue_ops_refine_fifo[OF inv, of "Some 7"] show ?thesis by auto
qed

text \<open>Nothing is lost, duplicated or reordered.  Over any run of enqueues and dequeues of
  non-null values, what was in the ring followed by what was let in equals the non-null answers
  of the dequeues followed by what is left; and the run never faults.\<close>

theorem queue_fifo_order:
  assumes "queue_inv q" "None \<notin> set (queue_contents q)" "Enqueue None \<notin> set ops"
  shows "\<exists>vs q'. queue_run queue_enqueue queue_dequeue q ops = Inr (vs, q') \<and> queue_inv q' \<and>
    queue_contents q @ fifo_accepted (nat (capacity q)) (queue_contents q) ops =
      filter (\<lambda>v. v \<noteq> None) vs @ queue_contents q'"
  by (rule ring.run_fifo_order[OF assms])

theorem queue_fifo_order_witness:
  "\<exists>vs q'. queue_run queue_enqueue queue_dequeue (QUEUE_INITIALIZER [None, None])
       [Enqueue (Some (1::nat)), Enqueue (Some 2), Enqueue (Some 3), Dequeue] = Inr (vs, q') \<and>
     [Some 1, Some 2] = filter (\<lambda>v. v \<noteq> None) vs @ queue_contents q'"
proof -
  let ?q = "QUEUE_INITIALIZER [None, None :: nat option]"
  let ?ops = "[Enqueue (Some (1::nat)), Enqueue (Some 2), Enqueue (Some 3), Dequeue]"
  have "queue_inv ?q" "None \<notin> set (queue_contents ?q)" "Enqueue None \<notin> set ?ops"
    by (simp_all add: queue_inv_QUEUE_INITIALIZER queue_contents_QUEUE_INITIALIZER)
  note run = queue_fifo_order[OF this]
  have c: "queue_contents ?q = []" "capacity ?q = 2"
    by (simp_all only: queue_contents_QUEUE_INITIALIZER) (simp add: QUEUE_INITIALIZER_def)
  have "fifo_accepted (nat (capacity ?q)) (queue_contents ?q) ?ops = [Some 1, Some 2]"
    unfolding c by simp
  with run show ?thesis unfolding c(1) append_Nil by metis
qed

end
