(* ===== verification/Mqueue.thy ===== *)
theory Mqueue
  imports Queue
begin

text \<open>
  \<open>src/src/headcrab_mqueue.c\<close> and \<open>headcrab_mqueue.h\<close>: the two static message
  queues.  The identifier is a C enumeration passed by value, so any \<open>int\<close> can arrive; the
  source's last \<open>else\<close> branch answers the values other than \<open>MQ_IN\<close> and
  \<open>MQ_OUT\<close>.
\<close>

section \<open>The two queues\<close>

type_synonym MQ = int
definition MQ_IN :: MQ where "MQ_IN = 0"
definition MQ_OUT :: MQ where "MQ_OUT = 1"
definition MQ_LEN :: nat where "MQ_LEN = 100"

record 'a mqueues =
  mq_in :: "'a queue_t"
  mq_out :: "'a queue_t"

text \<open>The static initialisers: \<open>buffer_in\<close> and \<open>buffer_out\<close> are zeroed arrays.\<close>

definition mqueues_init :: "'a mqueues" where
  "mqueues_init =
     \<lparr>mq_in = QUEUE_INITIALIZER (replicate MQ_LEN None),
      mq_out = QUEUE_INITIALIZER (replicate MQ_LEN None)\<rparr>"

definition mq_push :: "MQ \<Rightarrow> 'a option \<Rightarrow> 'a mqueues \<Rightarrow> 'a mqueues outcome" where
  "mq_push queue value m =
     (if queue = MQ_IN then obind (queue_enqueue (mq_in m) value) (\<lambda>q. Inr (m\<lparr>mq_in := q\<rparr>))
      else if queue = MQ_OUT then obind (queue_enqueue (mq_out m) value) (\<lambda>q. Inr (m\<lparr>mq_out := q\<rparr>))
      else Inr m)"

definition mq_pop :: "MQ \<Rightarrow> 'a mqueues \<Rightarrow> ('a option \<times> 'a mqueues) outcome" where
  "mq_pop queue m =
     (if queue = MQ_IN then obind (queue_dequeue (mq_in m)) (\<lambda>(v, q). Inr (v, m\<lparr>mq_in := q\<rparr>))
      else if queue = MQ_OUT then obind (queue_dequeue (mq_out m)) (\<lambda>(v, q). Inr (v, m\<lparr>mq_out := q\<rparr>))
      else Inr (None, m))"

definition mqueues_inv :: "'a mqueues \<Rightarrow> bool" where
  "mqueues_inv m \<longleftrightarrow> queue_inv (mq_in m) \<and> queue_inv (mq_out m) \<and>
     capacity (mq_in m) = int MQ_LEN \<and> capacity (mq_out m) = int MQ_LEN"

definition in_msgs :: "'a mqueues \<Rightarrow> 'a option list" where
  "in_msgs m = queue_contents (mq_in m)"

definition out_msgs :: "'a mqueues \<Rightarrow> 'a option list" where
  "out_msgs m = queue_contents (mq_out m)"

lemma mqueues_inv_init: "mqueues_inv mqueues_init"
  by (auto simp: mqueues_inv_def mqueues_init_def MQ_LEN_def QUEUE_INITIALIZER_def queue_inv_def)

lemma msgs_init [simp]: "in_msgs mqueues_init = []" "out_msgs mqueues_init = []"
  by (simp_all add: in_msgs_def out_msgs_def mqueues_init_def queue_contents_QUEUE_INITIALIZER)

lemma mq_push_in:
  assumes "mqueues_inv m"
  shows "\<exists>m'. mq_push MQ_IN v m = Inr m' \<and> mqueues_inv m' \<and> out_msgs m' = out_msgs m \<and>
    in_msgs m' = (if length (in_msgs m) < MQ_LEN then in_msgs m @ [v] else in_msgs m)"
  using assms queue_enqueue_spec[of "mq_in m" v]
  by (auto simp: mqueues_inv_def mq_push_def in_msgs_def out_msgs_def MQ_LEN_def)

lemma mq_push_out:
  assumes "mqueues_inv m"
  shows "\<exists>m'. mq_push MQ_OUT v m = Inr m' \<and> mqueues_inv m' \<and> in_msgs m' = in_msgs m \<and>
    out_msgs m' = (if length (out_msgs m) < MQ_LEN then out_msgs m @ [v] else out_msgs m)"
  using assms queue_enqueue_spec[of "mq_out m" v]
  by (auto simp: mqueues_inv_def mq_push_def in_msgs_def out_msgs_def MQ_LEN_def MQ_IN_def MQ_OUT_def)

lemma mq_pop_in:
  assumes "mqueues_inv m"
  shows "\<exists>m'. mq_pop MQ_IN m = Inr (case in_msgs m of [] \<Rightarrow> None | v # _ \<Rightarrow> v, m') \<and>
    mqueues_inv m' \<and> out_msgs m' = out_msgs m \<and> in_msgs m' = tl (in_msgs m)"
  using assms queue_dequeue_spec[of "mq_in m"]
  by (auto simp: mqueues_inv_def mq_pop_def in_msgs_def out_msgs_def)

lemma mq_pop_out:
  assumes "mqueues_inv m"
  shows "\<exists>m'. mq_pop MQ_OUT m = Inr (case out_msgs m of [] \<Rightarrow> None | v # _ \<Rightarrow> v, m') \<and>
    mqueues_inv m' \<and> in_msgs m' = in_msgs m \<and> out_msgs m' = tl (out_msgs m)"
  using assms queue_dequeue_spec[of "mq_out m"]
  by (auto simp: mqueues_inv_def mq_pop_def in_msgs_def out_msgs_def MQ_IN_def MQ_OUT_def)

lemma mq_invalid_id:
  "queue \<noteq> MQ_IN \<Longrightarrow> queue \<noteq> MQ_OUT \<Longrightarrow> mq_push queue v m = Inr m \<and> mq_pop queue m = Inr (None, m)"
  by (simp add: mq_push_def mq_pop_def)

end
