(* ===== verification/Queue_Threads.thy ===== *)
theory Queue_Threads
  imports Queue
begin

text \<open>
  \<open>src/src/queue.h\<close> once more, with the mutex taken apart.  The websocket thread and the
  application thread (here: any number of threads) run \<open>queue_enqueue\<close> and
  \<open>queue_dequeue\<close> one C statement at a time, in any interleaving.  The invariant says that
  the lock makes every call atomic: whenever the mutex is free, the ring holds what the
  sequential run of the completed calls, in the order of their unlocks, would hold.
\<close>

section \<open>One C statement at a time\<close>

text \<open>
  Where a thread stands.  \<open>Enq_Lock\<close> and \<open>Deq_Lock\<close> wait in \<open>pthread_mutex_lock\<close>;
  the later ones are inside the critical section, each named after the statement it is about to
  execute.
\<close>

datatype 'a qpc =
    Idle
  | Enq_Lock "'a option" | Enq_Check "'a option" | Enq_Write "'a option" | Enq_Size "'a option"
  | Enq_In "'a option" | Enq_Wrap "'a option" | Enq_Unlock "'a option"
  | Deq_Lock | Deq_Check | Deq_Read | Deq_Size "'a option"
  | Deq_Out "'a option" | Deq_Wrap "'a option" | Deq_Unlock "'a option"

record 'a qconf =
  ring_q :: "'a queue_t"
  owner :: "nat option"
  pcs :: "nat \<Rightarrow> 'a qpc"
  calls :: "'a queue_op list"
  answers :: "'a option list"

abbreviation goto :: "'a qconf \<Rightarrow> nat \<Rightarrow> 'a qpc \<Rightarrow> 'a qconf" where
  "goto c t pc \<equiv> c\<lparr>pcs := (pcs c)(t := pc)\<rparr>"

abbreviation ring_to :: "'a qconf \<Rightarrow> 'a queue_t \<Rightarrow> 'a qconf" where
  "ring_to c q \<equiv> c\<lparr>ring_q := q\<rparr>"

definition qconf_init :: "'a queue_t \<Rightarrow> 'a qconf" where
  "qconf_init q = \<lparr>ring_q = q, owner = None, pcs = (\<lambda>_. Idle), calls = [], answers = []\<rparr>"

inductive qstep :: "'a qconf \<Rightarrow> 'a qconf \<Rightarrow> bool" where
  call_enq: "pcs c t = Idle \<Longrightarrow> qstep c (goto c t (Enq_Lock v))"
| lock_enq: "pcs c t = Enq_Lock v \<Longrightarrow> owner c = None \<Longrightarrow>
    qstep c ((goto c t (Enq_Check v))\<lparr>owner := Some t\<rparr>)"
| enq_full: "pcs c t = Enq_Check v \<Longrightarrow> qsize (ring_q c) = capacity (ring_q c) \<Longrightarrow>
    qstep c (goto c t (Enq_Unlock v))"
| enq_room: "pcs c t = Enq_Check v \<Longrightarrow> qsize (ring_q c) \<noteq> capacity (ring_q c) \<Longrightarrow>
    qstep c (goto c t (Enq_Write v))"
| enq_write: "pcs c t = Enq_Write v \<Longrightarrow> in_buffer (ring_q c) (qin (ring_q c)) \<Longrightarrow>
    qstep c (goto (ring_to c ((ring_q c)
      \<lparr>buffer := (buffer (ring_q c))[nat (qin (ring_q c)) := v]\<rparr>)) t (Enq_Size v))"
| enq_size: "pcs c t = Enq_Size v \<Longrightarrow>
    qstep c (goto (ring_to c ((ring_q c)\<lparr>qsize := qsize (ring_q c) + 1\<rparr>)) t (Enq_In v))"
| enq_in: "pcs c t = Enq_In v \<Longrightarrow>
    qstep c (goto (ring_to c ((ring_q c)\<lparr>qin := qin (ring_q c) + 1\<rparr>)) t (Enq_Wrap v))"
| enq_wrap: "pcs c t = Enq_Wrap v \<Longrightarrow>
    qstep c (goto (ring_to c ((ring_q c)
      \<lparr>qin := c_rem (qin (ring_q c)) (capacity (ring_q c))\<rparr>)) t (Enq_Unlock v))"
| unlock_enq: "pcs c t = Enq_Unlock v \<Longrightarrow>
    qstep c ((goto c t Idle)\<lparr>owner := None, calls := calls c @ [Enqueue v]\<rparr>)"
| call_deq: "pcs c t = Idle \<Longrightarrow> qstep c (goto c t Deq_Lock)"
| lock_deq: "pcs c t = Deq_Lock \<Longrightarrow> owner c = None \<Longrightarrow>
    qstep c ((goto c t Deq_Check)\<lparr>owner := Some t\<rparr>)"
| deq_empty: "pcs c t = Deq_Check \<Longrightarrow> qsize (ring_q c) = 0 \<Longrightarrow>
    qstep c (goto c t (Deq_Unlock None))"
| deq_some: "pcs c t = Deq_Check \<Longrightarrow> qsize (ring_q c) \<noteq> 0 \<Longrightarrow> qstep c (goto c t Deq_Read)"
| deq_read: "pcs c t = Deq_Read \<Longrightarrow> in_buffer (ring_q c) (qout (ring_q c)) \<Longrightarrow>
    qstep c (goto c t (Deq_Size (buffer (ring_q c) ! nat (qout (ring_q c)))))"
| deq_size: "pcs c t = Deq_Size v \<Longrightarrow>
    qstep c (goto (ring_to c ((ring_q c)\<lparr>qsize := qsize (ring_q c) - 1\<rparr>)) t (Deq_Out v))"
| deq_out: "pcs c t = Deq_Out v \<Longrightarrow>
    qstep c (goto (ring_to c ((ring_q c)\<lparr>qout := qout (ring_q c) + 1\<rparr>)) t (Deq_Wrap v))"
| deq_wrap: "pcs c t = Deq_Wrap v \<Longrightarrow>
    qstep c (goto (ring_to c ((ring_q c)
      \<lparr>qout := c_rem (qout (ring_q c)) (capacity (ring_q c))\<rparr>)) t (Deq_Unlock v))"
| unlock_deq: "pcs c t = Deq_Unlock v \<Longrightarrow>
    qstep c ((goto c t Idle)\<lparr>owner := None, calls := calls c @ [Dequeue],
      answers := answers c @ [v]\<rparr>)"

inductive qreachable :: "'a queue_t \<Rightarrow> 'a qconf \<Rightarrow> bool" for q0 where
  qinit: "qreachable q0 (qconf_init q0)"
| qnext: "qreachable q0 c \<Longrightarrow> qstep c d \<Longrightarrow> qreachable q0 d"

section \<open>The lock invariant\<close>

primrec critical :: "'a qpc \<Rightarrow> bool" where
  "critical Idle = False"
| "critical (Enq_Lock v) = False"
| "critical (Enq_Check v) = True"
| "critical (Enq_Write v) = True"
| "critical (Enq_Size v) = True"
| "critical (Enq_In v) = True"
| "critical (Enq_Wrap v) = True"
| "critical (Enq_Unlock v) = True"
| "critical Deq_Lock = False"
| "critical Deq_Check = True"
| "critical Deq_Read = True"
| "critical (Deq_Size v) = True"
| "critical (Deq_Out v) = True"
| "critical (Deq_Wrap v) = True"
| "critical (Deq_Unlock v) = True"

text \<open>
  How far the lock holder has come: the ring now, \<open>q\<close>, against the ring \<open>b\<close> it found when
  it took the lock.
\<close>

primrec halfway :: "'a queue_t \<Rightarrow> 'a qpc \<Rightarrow> 'a queue_t \<Rightarrow> bool" where
  "halfway b Idle q \<longleftrightarrow> q = b"
| "halfway b (Enq_Lock v) q \<longleftrightarrow> q = b"
| "halfway b (Enq_Check v) q \<longleftrightarrow> q = b"
| "halfway b (Enq_Write v) q \<longleftrightarrow> q = b \<and> qsize b \<noteq> capacity b"
| "halfway b (Enq_Size v) q \<longleftrightarrow> qsize b \<noteq> capacity b \<and> in_buffer b (qin b) \<and>
     q = b\<lparr>buffer := (buffer b)[nat (qin b) := v]\<rparr>"
| "halfway b (Enq_In v) q \<longleftrightarrow> qsize b \<noteq> capacity b \<and> in_buffer b (qin b) \<and>
     q = b\<lparr>buffer := (buffer b)[nat (qin b) := v], qsize := qsize b + 1\<rparr>"
| "halfway b (Enq_Wrap v) q \<longleftrightarrow> qsize b \<noteq> capacity b \<and> in_buffer b (qin b) \<and>
     q = b\<lparr>buffer := (buffer b)[nat (qin b) := v], qsize := qsize b + 1, qin := qin b + 1\<rparr>"
| "halfway b (Enq_Unlock v) q \<longleftrightarrow> queue_enqueue b v = Inr q"
| "halfway b Deq_Lock q \<longleftrightarrow> q = b"
| "halfway b Deq_Check q \<longleftrightarrow> q = b"
| "halfway b Deq_Read q \<longleftrightarrow> q = b \<and> qsize b \<noteq> 0"
| "halfway b (Deq_Size v) q \<longleftrightarrow> qsize b \<noteq> 0 \<and> in_buffer b (qout b) \<and>
     v = buffer b ! nat (qout b) \<and> q = b"
| "halfway b (Deq_Out v) q \<longleftrightarrow> qsize b \<noteq> 0 \<and> in_buffer b (qout b) \<and>
     v = buffer b ! nat (qout b) \<and> q = b\<lparr>qsize := qsize b - 1\<rparr>"
| "halfway b (Deq_Wrap v) q \<longleftrightarrow> qsize b \<noteq> 0 \<and> in_buffer b (qout b) \<and>
     v = buffer b ! nat (qout b) \<and> q = b\<lparr>qsize := qsize b - 1, qout := qout b + 1\<rparr>"
| "halfway b (Deq_Unlock v) q \<longleftrightarrow> queue_dequeue b = Inr (v, q)"

definition lock_inv :: "'a queue_t \<Rightarrow> 'a qconf \<Rightarrow> bool" where
  "lock_inv q0 c \<longleftrightarrow>
     (\<forall>t. critical (pcs c t) \<longleftrightarrow> owner c = Some t) \<and>
     (\<exists>b. queue_run queue_enqueue queue_dequeue q0 (calls c) = Inr (answers c, b) \<and>
        (case owner c of None \<Rightarrow> ring_q c = b | Some t \<Rightarrow> halfway b (pcs c t) (ring_q c)))"

section \<open>Every step keeps it\<close>

lemma queue_run_append:
  "queue_run enq deq q (xs @ ys) =
     obind (queue_run enq deq q xs) (\<lambda>(vs, q). obind (queue_run enq deq q ys) (\<lambda>(ws, q). Inr (vs @ ws, q)))"
proof (induction enq deq q xs rule: queue_run.induct)
  case (3 enq deq q xs)
  then show ?case by (auto simp: obind_def split: sum.splits prod.splits)
qed (auto simp: obind_def split: sum.splits prod.splits)

lemma lock_inv_init: "lock_inv q0 (qconf_init q0)"
  by (simp add: lock_inv_def qconf_init_def)

lemma enqueue_from_parts:
  "qsize b \<noteq> capacity b \<Longrightarrow> in_buffer b (qin b) \<Longrightarrow>
   queue_enqueue b v = Inr (b\<lparr>buffer := (buffer b)[nat (qin b) := v], qsize := qsize b + 1,
     qin := c_rem (qin b + 1) (capacity b)\<rparr>)"
  by (simp add: queue_enqueue_def Let_def)

lemma dequeue_from_parts:
  "qsize b \<noteq> 0 \<Longrightarrow> in_buffer b (qout b) \<Longrightarrow>
   queue_dequeue b = Inr (buffer b ! nat (qout b), b\<lparr>qsize := qsize b - 1,
     qout := c_rem (qout b + 1) (capacity b)\<rparr>)"
  by (simp add: queue_dequeue_def Let_def)

lemma queue_run_snoc_enq:
  "queue_run enq deq q0 cs = Inr (vs, b) \<Longrightarrow> enq b v = Inr q \<Longrightarrow>
     queue_run enq deq q0 (cs @ [Enqueue v]) = Inr (vs, q)"
  by (simp add: queue_run_append)

lemma queue_run_snoc_deq:
  "queue_run enq deq q0 cs = Inr (vs, b) \<Longrightarrow> deq b = Inr (v, q) \<Longrightarrow>
     queue_run enq deq q0 (cs @ [Dequeue]) = Inr (vs @ [v], q)"
  by (simp add: queue_run_append)

lemma lock_inv_cases:
  assumes "lock_inv q0 c"
  obtains b where "queue_run queue_enqueue queue_dequeue q0 (calls c) = Inr (answers c, b)"
    "\<forall>t. critical (pcs c t) \<longleftrightarrow> owner c = Some t"
    "\<forall>t. critical (pcs c t) \<longrightarrow> halfway b (pcs c t) (ring_q c)"
    "owner c = None \<longrightarrow> ring_q c = b"
proof -
  from assms obtain b where
    run: "queue_run queue_enqueue queue_dequeue q0 (calls c) = Inr (answers c, b)" and
    own: "\<forall>t. critical (pcs c t) \<longleftrightarrow> owner c = Some t" and
    ring: "case owner c of None \<Rightarrow> ring_q c = b | Some t \<Rightarrow> halfway b (pcs c t) (ring_q c)"
    by (auto simp: lock_inv_def)
  show thesis
    by (rule that[OF run own]) (use own ring in auto)
qed

lemma lock_inv_idle:
  assumes "lock_inv q0 c" "\<not> critical (pcs c t)" "\<not> critical pc"
  shows "lock_inv q0 (goto c t pc)"
  using assms by (auto simp: lock_inv_def split: option.splits)

lemma lock_invI_held:
  assumes "queue_run queue_enqueue queue_dequeue q0 (calls c) = Inr (answers c, b)"
    and "owner c = Some t" "\<And>u. critical (pcs c u) \<longleftrightarrow> u = t" "halfway b (pcs c t) (ring_q c)"
  shows "lock_inv q0 c"
  using assms by (auto simp: lock_inv_def)

lemma lock_inv_holder:
  assumes "lock_inv q0 c" "critical (pcs c t)" "critical pc"
    and "\<And>b. halfway b (pcs c t) (ring_q c) \<Longrightarrow> halfway b pc q"
  shows "lock_inv q0 (goto (ring_to c q) t pc)"
proof -
  from assms(1) obtain b where b: "queue_run queue_enqueue queue_dequeue q0 (calls c) = Inr (answers c, b)"
    "\<forall>t. critical (pcs c t) \<longleftrightarrow> owner c = Some t"
    "\<forall>t. critical (pcs c t) \<longrightarrow> halfway b (pcs c t) (ring_q c)"
    "owner c = None \<longrightarrow> ring_q c = b"
    by (rule lock_inv_cases)
  from assms(2) b(2,3) have t: "owner c = Some t" "halfway b (pcs c t) (ring_q c)"
    by auto
  with b(1,2) assms(3,4) show ?thesis
    by (intro lock_invI_held[where b = b and t = t]) auto
qed

lemmas lock_inv_holder_same = lock_inv_holder[where q = "ring_q c" and c = c for c, simplified]

lemma qstep_lock_inv: "qstep c d \<Longrightarrow> lock_inv q0 c \<Longrightarrow> lock_inv q0 d"
proof (induction rule: qstep.induct)
  case (call_enq c t v)
  then show ?case by (intro lock_inv_idle) auto
next
  case (call_deq c t)
  then show ?case by (intro lock_inv_idle) auto
next
  case (lock_enq c t v)
  from lock_enq(3) obtain b where b: "queue_run queue_enqueue queue_dequeue q0 (calls c) = Inr (answers c, b)"
    "\<forall>t. critical (pcs c t) \<longleftrightarrow> owner c = Some t"
    "\<forall>t. critical (pcs c t) \<longrightarrow> halfway b (pcs c t) (ring_q c)"
    "owner c = None \<longrightarrow> ring_q c = b"
    by (rule lock_inv_cases)
  with lock_enq(1,2) show ?case by (intro lock_invI_held[where b = b and t = t]) auto
next
  case (lock_deq c t)
  from lock_deq(3) obtain b where b: "queue_run queue_enqueue queue_dequeue q0 (calls c) = Inr (answers c, b)"
    "\<forall>t. critical (pcs c t) \<longleftrightarrow> owner c = Some t"
    "\<forall>t. critical (pcs c t) \<longrightarrow> halfway b (pcs c t) (ring_q c)"
    "owner c = None \<longrightarrow> ring_q c = b"
    by (rule lock_inv_cases)
  with lock_deq(1,2) show ?case by (intro lock_invI_held[where b = b and t = t]) auto
next
  case (unlock_enq c t v)
  from unlock_enq(2) obtain b where b: "queue_run queue_enqueue queue_dequeue q0 (calls c) = Inr (answers c, b)"
    "\<forall>t. critical (pcs c t) \<longleftrightarrow> owner c = Some t"
    "\<forall>t. critical (pcs c t) \<longrightarrow> halfway b (pcs c t) (ring_q c)"
    "owner c = None \<longrightarrow> ring_q c = b"
    by (rule lock_inv_cases)
  with unlock_enq(1) have "queue_enqueue b v = Inr (ring_q c)" "owner c = Some t"
    by (force dest: spec[where x = t])+
  with b(1,2) show ?case by (auto simp: lock_inv_def intro: queue_run_snoc_enq)
next
  case (unlock_deq c t v)
  from unlock_deq(2) obtain b where b: "queue_run queue_enqueue queue_dequeue q0 (calls c) = Inr (answers c, b)"
    "\<forall>t. critical (pcs c t) \<longleftrightarrow> owner c = Some t"
    "\<forall>t. critical (pcs c t) \<longrightarrow> halfway b (pcs c t) (ring_q c)"
    "owner c = None \<longrightarrow> ring_q c = b"
    by (rule lock_inv_cases)
  with unlock_deq(1) have "queue_dequeue b = Inr (v, ring_q c)" "owner c = Some t"
    by (force dest: spec[where x = t])+
  with b(1,2) show ?case by (auto simp: lock_inv_def intro: queue_run_snoc_deq)
qed (rule lock_inv_holder lock_inv_holder_same;
    force simp: queue_enqueue_full enqueue_from_parts dequeue_from_parts queue_dequeue_def)+

lemma qreachable_lock_inv: "qreachable q0 c \<Longrightarrow> lock_inv q0 c"
  by (induction rule: qreachable.induct) (auto intro: lock_inv_init qstep_lock_inv)

lemma mutual_exclusion:
  assumes "qreachable q0 c" "critical (pcs c t)" "critical (pcs c u)"
  shows "t = u"
  using qreachable_lock_inv[OF assms(1)] assms(2,3) by (auto simp: lock_inv_def)

lemma linearizable:
  assumes "qreachable q0 c" "owner c = None"
  shows "queue_run queue_enqueue queue_dequeue q0 (calls c) = Inr (answers c, ring_q c)"
  using qreachable_lock_inv[OF assms(1)] assms(2) by (auto simp: lock_inv_def)

lemma halfway_step:
  assumes "critical pc" "halfway (b :: 'a queue_t) pc q" "queue_inv b"
  shows "(\<exists>v. pc = Enq_Write v) \<Longrightarrow> in_buffer q (qin q)"
    and "pc = Deq_Read \<Longrightarrow> in_buffer q (qout q)"
  using assms queue_inv_in_buffer[OF assms(3)] by auto

lemma holder_moves:
  assumes "qreachable q0 c" "queue_inv q0" "owner c = Some t"
  shows "\<exists>d. qstep c d"
proof -
  from qreachable_lock_inv[OF assms(1)] obtain b where
    b: "queue_run queue_enqueue queue_dequeue q0 (calls c) = Inr (answers c, b)"
      "critical (pcs c t)" "halfway b (pcs c t) (ring_q c)"
    using assms(3) by (auto elim!: lock_inv_cases)
  have "queue_inv b"
    using ring.run_refines[OF assms(2), of "calls c"] b(1) by auto
  then show ?thesis
    using b(2,3) halfway_step[of "pcs c t" b "ring_q c"] enq_full[of c t] enq_room[of c t]
      deq_empty[of c t] deq_some[of c t]
    by (cases "pcs c t") (auto intro: qstep.intros)
qed

section \<open>A call that runs alone\<close>

text \<open>Thread \<open>t\<close> alone inside the lock: only the ring and its own position move.\<close>

definition holding :: "'a qconf \<Rightarrow> nat \<Rightarrow> 'a qpc \<Rightarrow> 'a queue_t \<Rightarrow> 'a qconf" where
  "holding c t pc q = c\<lparr>ring_q := q, owner := Some t, pcs := (pcs c)(t := pc)\<rparr>"

lemma holding_sel [simp]:
  "pcs (holding c t pc q) t = pc" "ring_q (holding c t pc q) = q" "owner (holding c t pc q) = Some t"
  by (simp_all add: holding_def)

lemma holding_goto [simp]:
  "goto (ring_to (holding c t pc q) q') t pc' = holding c t pc' q'"
  "goto (holding c t pc q) t pc' = holding c t pc' q"
  by (simp_all add: holding_def)

lemma holding_unlock_enq:
  "pcs c t = Idle \<Longrightarrow> (goto (holding c t pc q) t Idle)\<lparr>owner := None, calls := cs\<rparr> =
     c\<lparr>ring_q := q, owner := None, calls := cs\<rparr>"
  by (simp add: holding_def fun_upd_idem)

lemma holding_start:
  assumes "qreachable q0 c" "owner c = None" "pcs c t = Idle"
  shows "qreachable q0 (holding c t (Enq_Check v) (ring_q c))"
proof -
  have "qreachable q0 (goto c t (Enq_Lock v))"
    using assms(1) call_enq[OF assms(3)] by (rule qreachable.qnext)
  moreover have "(goto (goto c t (Enq_Lock v)) t (Enq_Check v))\<lparr>owner := Some t\<rparr> =
      holding c t (Enq_Check v) (ring_q c)"
    by (cases c) (simp add: holding_def)
  ultimately show ?thesis
    using qreachable.qnext[OF _ lock_enq[of _ t v]] assms(2) by fastforce
qed

lemma holding_steps:
  "qreachable q0 (holding c t (Enq_Check v) q) \<Longrightarrow> qsize q = capacity q \<Longrightarrow>
     qreachable q0 (holding c t (Enq_Unlock v) q)"
  "qreachable q0 (holding c t (Enq_Check v) q) \<Longrightarrow> qsize q \<noteq> capacity q \<Longrightarrow>
     qreachable q0 (holding c t (Enq_Write v) q)"
  "qreachable q0 (holding c t (Enq_Write v) q) \<Longrightarrow> in_buffer q (qin q) \<Longrightarrow>
     qreachable q0 (holding c t (Enq_Size v) (q\<lparr>buffer := (buffer q)[nat (qin q) := v]\<rparr>))"
  "qreachable q0 (holding c t (Enq_Size v) q) \<Longrightarrow>
     qreachable q0 (holding c t (Enq_In v) (q\<lparr>qsize := qsize q + 1\<rparr>))"
  "qreachable q0 (holding c t (Enq_In v) q) \<Longrightarrow>
     qreachable q0 (holding c t (Enq_Wrap v) (q\<lparr>qin := qin q + 1\<rparr>))"
  "qreachable q0 (holding c t (Enq_Wrap v) q) \<Longrightarrow>
     qreachable q0 (holding c t (Enq_Unlock v) (q\<lparr>qin := c_rem (qin q) (capacity q)\<rparr>))"
  using qreachable.qnext[OF _ enq_full[of _ t v]] qreachable.qnext[OF _ enq_room[of _ t v]]
    qreachable.qnext[OF _ enq_write[of _ t v]] qreachable.qnext[OF _ enq_size[of _ t v]]
    qreachable.qnext[OF _ enq_in[of _ t v]] qreachable.qnext[OF _ enq_wrap[of _ t v]]
  by (metis holding_sel(1,2) holding_goto(1) holding_goto(2))+

lemma enqueue_call_completes:
  assumes "qreachable q0 c" "owner c = None" "pcs c t = Idle" "queue_enqueue (ring_q c) v = Inr q'"
  shows "qreachable q0 (c\<lparr>ring_q := q', owner := None, calls := calls c @ [Enqueue v]\<rparr>)"
proof -
  note start = holding_start[OF assms(1-3), of v]
  have "qreachable q0 (holding c t (Enq_Unlock v) q')"
  proof (cases "qsize (ring_q c) = capacity (ring_q c)")
    case True
    with holding_steps(1)[OF start] assms(4) show ?thesis by (simp add: queue_enqueue_full)
  next
    case False
    with assms(4) have inb: "in_buffer (ring_q c) (qin (ring_q c))"
      by (auto simp: queue_enqueue_def Let_def split: if_splits)
    from holding_steps(6)[OF holding_steps(5)[OF holding_steps(4)[OF
        holding_steps(3)[OF holding_steps(2)[OF start False] inb]]]]
    show ?thesis
      using assms(4) enqueue_from_parts[OF False inb, of v] by simp
  qed
  from qreachable.qnext[OF this unlock_enq[of _ t v]] show ?thesis
    using holding_unlock_enq[OF assms(3)] by (simp add: holding_def)
qed

section \<open>Properties\<close>



text \<open>C2: the queue is linearisable.  In every interleaving of the calls, whenever the mutex is
  free the ring and the values returned so far are those of the completed calls run one after the
  other, in the order of their unlocks.\<close>

theorem queue_linearizable:
  assumes "qreachable q0 c" and "owner c = None"
  shows "queue_run queue_enqueue queue_dequeue q0 (calls c) = Inr (answers c, ring_q c)"
  using linearizable[OF assms] .

theorem queue_linearizable_witness:
  "\<exists>c. qreachable (QUEUE_INITIALIZER [None, None]) c \<and> calls c = [Enqueue (Some (7::nat))] \<and>
     queue_run queue_enqueue queue_dequeue (QUEUE_INITIALIZER [None, None]) [Enqueue (Some 7)] =
       Inr (answers c, ring_q c)"
proof -
  let ?q = "QUEUE_INITIALIZER [None, None :: nat option]"
  let ?c = "(qconf_init ?q)\<lparr>ring_q := ?q\<lparr>buffer := [Some 7, None], qsize := 1, qin := 1\<rparr>,
    owner := None, calls := [Enqueue (Some 7)]\<rparr>"
  have "queue_enqueue ?q (Some 7) = Inr (?q\<lparr>buffer := [Some 7, None], qsize := 1, qin := 1\<rparr>)"
    by (simp add: queue_enqueue_def in_buffer_def QUEUE_INITIALIZER_def c_rem_def)
  then have r: "qreachable ?q ?c"
    using enqueue_call_completes[OF qreachable.qinit, of ?q 0 "Some 7"]
    by (simp add: qconf_init_def)
  have "owner ?c = None" by simp
  from queue_linearizable[OF r this] r show ?thesis by (intro exI[of _ ?c]) simp
qed

end
