(* ===== verification/Dispatch_Table.thy ===== *)
theory Dispatch_Table
  imports C_Base
begin

text \<open>
  \<open>src/src/headcrab_dispatch.c\<close> and \<open>headcrab_dispatch.h\<close>: the dispatch table, a linked
  list of object nodes that each carry a linked list of handlers.  The memory is explicit: nodes
  and handlers live at addresses, \<open>free\<close> takes an address away, and reading through null,
  through a freed address or outside a block is a fault.  The strings in the structs are private
  copies that nothing writes to, so a \<open>char *\<close> field is the string itself.  A loop over a
  list carries as fuel one more than the number of blocks ever allocated: a walk that is still
  running then has met a block twice and never ends, which is the fault \<open>Diverges\<close>.
\<close>

section \<open>The structs and the memory\<close>

text \<open>
  A pointer is null or addresses element \<open>i\<close> of block \<open>a\<close>.  \<open>void *\<close> values of the
  application are opaque numbers, 0 being null; function pointers are optional numbers.
\<close>

datatype ptr = NULL | At nat nat

type_synonym opaque = nat
type_synonym fptr = "nat option"

record HC_Handler =
  h_name :: "byte list"
  h_next :: ptr
  h_pre :: fptr
  h_post :: fptr
  h_preArgs :: opaque
  h_postArgs :: opaque
  h_op :: fptr

record HC_ObjectNode =
  n_name :: "byte list"
  n_next :: ptr
  n_handler :: ptr
  n_object :: opaque

text \<open>
  \<open>dispatch_table\<close> is the file's static variable, null before \<open>dispatch_table_init\<close>.
  \<open>mem_left\<close> says how many more calls of \<open>malloc\<close> will succeed.
\<close>

record dmem =
  dnodes :: "nat \<rightharpoonup> HC_ObjectNode"
  dhandlers :: "nat \<rightharpoonup> HC_Handler"
  next_addr :: nat
  mem_left :: nat
  dispatch_table :: ptr

definition fuel :: "dmem \<Rightarrow> nat" where
  "fuel m = Suc (next_addr m)"

definition malloc_node :: "HC_ObjectNode \<Rightarrow> dmem \<Rightarrow> ptr \<times> dmem" where
  "malloc_node nd m =
     (if mem_left m = 0 then (NULL, m)
      else (At (next_addr m) 0, m\<lparr>dnodes := (dnodes m)(next_addr m \<mapsto> nd),
        next_addr := Suc (next_addr m), mem_left := mem_left m - 1\<rparr>))"

definition malloc_handler :: "HC_Handler \<Rightarrow> dmem \<Rightarrow> ptr \<times> dmem" where
  "malloc_handler h m =
     (if mem_left m = 0 then (NULL, m)
      else (At (next_addr m) 0, m\<lparr>dhandlers := (dhandlers m)(next_addr m \<mapsto> h),
        next_addr := Suc (next_addr m), mem_left := mem_left m - 1\<rparr>))"

definition read_node :: "dmem \<Rightarrow> ptr \<Rightarrow> HC_ObjectNode outcome" where
  "read_node m p =
     (case p of NULL \<Rightarrow> Inl Null_Deref
      | At a i \<Rightarrow> if i \<noteq> 0 then Inl Out_Of_Bounds
          else (case dnodes m a of None \<Rightarrow> Inl Use_After_Free | Some nd \<Rightarrow> Inr nd))"

definition write_node :: "dmem \<Rightarrow> ptr \<Rightarrow> HC_ObjectNode \<Rightarrow> dmem outcome" where
  "write_node m p nd =
     obind (read_node m p) (\<lambda>_. case p of NULL \<Rightarrow> Inl Null_Deref
       | At a i \<Rightarrow> Inr (m\<lparr>dnodes := (dnodes m)(a \<mapsto> nd)\<rparr>))"

definition release_node :: "dmem \<Rightarrow> ptr \<Rightarrow> dmem outcome" where
  "release_node m p =
     obind (read_node m p) (\<lambda>_. case p of NULL \<Rightarrow> Inl Null_Deref
       | At a i \<Rightarrow> Inr (m\<lparr>dnodes := (dnodes m)(a := None)\<rparr>))"

definition read_handler :: "dmem \<Rightarrow> ptr \<Rightarrow> HC_Handler outcome" where
  "read_handler m p =
     (case p of NULL \<Rightarrow> Inl Null_Deref
      | At a i \<Rightarrow> if i \<noteq> 0 then Inl Out_Of_Bounds
          else (case dhandlers m a of None \<Rightarrow> Inl Use_After_Free | Some h \<Rightarrow> Inr h))"

definition write_handler :: "dmem \<Rightarrow> ptr \<Rightarrow> HC_Handler \<Rightarrow> dmem outcome" where
  "write_handler m p h =
     obind (read_handler m p) (\<lambda>_. case p of NULL \<Rightarrow> Inl Null_Deref
       | At a i \<Rightarrow> Inr (m\<lparr>dhandlers := (dhandlers m)(a \<mapsto> h)\<rparr>))"

definition release_handler :: "dmem \<Rightarrow> ptr \<Rightarrow> dmem outcome" where
  "release_handler m p =
     obind (read_handler m p) (\<lambda>_. case p of NULL \<Rightarrow> Inl Null_Deref
       | At a i \<Rightarrow> Inr (m\<lparr>dhandlers := (dhandlers m)(a := None)\<rparr>))"

section \<open>The operations\<close>

definition dispatch_table_init :: "dmem \<Rightarrow> dmem outcome" where
  "dispatch_table_init m =
     (let (p, m) = malloc_node \<lparr>n_name = cstr '''', n_next = NULL, n_handler = NULL, n_object = 0\<rparr> m
      in if p = NULL then Inl (Process_Exit 0) else Inr (m\<lparr>dispatch_table := p\<rparr>))"

text \<open>
  \<open>dispatch_table++\<close> moves the static pointer itself to the next array element: the loop
  does not follow \<open>next\<close>.
\<close>

primrec ptr_succ :: "ptr \<Rightarrow> ptr" where
  "ptr_succ NULL = NULL"
| "ptr_succ (At a i) = At a (Suc i)"

fun rebind_loop :: "nat \<Rightarrow> byte list \<Rightarrow> opaque \<Rightarrow> dmem \<Rightarrow> dmem outcome" where
  "rebind_loop 0 name target m = Inl Diverges"
| "rebind_loop (Suc n) name target m =
     (if dispatch_table m = NULL then Inr m
      else obind (read_node m (dispatch_table m)) (\<lambda>nd.
        obind (if n_name nd = name
               then write_node m (dispatch_table m) (nd\<lparr>n_object := target\<rparr>) else Inr m) (\<lambda>m.
        rebind_loop n name target (m\<lparr>dispatch_table := ptr_succ (dispatch_table m)\<rparr>))))"

definition dispatch_table_rebind :: "byte list \<Rightarrow> opaque \<Rightarrow> dmem \<Rightarrow> dmem outcome" where
  "dispatch_table_rebind name target m = rebind_loop (Suc (fuel m)) name target m"

text \<open>
  \<open>free_node\<close>: the loop runs on \<open>next_handler\<close>, but frees \<open>cur_handler\<close>, which never
  moves.  Freeing the two name strings frees memory that belongs to the structs alone.
\<close>

fun free_handlers :: "nat \<Rightarrow> ptr \<Rightarrow> ptr \<Rightarrow> dmem \<Rightarrow> dmem outcome" where
  "free_handlers 0 next_handler cur_handler m = Inl Diverges"
| "free_handlers (Suc n) next_handler cur_handler m =
     (if next_handler = NULL then Inr m
      else obind (read_handler m cur_handler) (\<lambda>h.
        obind (release_handler m cur_handler) (\<lambda>m.
        free_handlers n (h_next h) cur_handler m)))"

definition free_node :: "ptr \<Rightarrow> dmem \<Rightarrow> dmem outcome" where
  "free_node node m =
     obind (read_node m node) (\<lambda>nd.
     obind (free_handlers (Suc (fuel m)) (n_handler nd) (n_handler nd) m) (\<lambda>m.
     release_node m node))"

text \<open>\<open>prev_node\<close> starts as null and the loop never assigns it.\<close>

fun remove_loop :: "nat \<Rightarrow> byte list \<Rightarrow> ptr \<Rightarrow> ptr \<Rightarrow> dmem \<Rightarrow> dmem outcome" where
  "remove_loop 0 name prev_node cur_node m = Inl Diverges"
| "remove_loop (Suc n) name prev_node cur_node m =
     (if cur_node = NULL then Inr m
      else obind (read_node m cur_node) (\<lambda>nd.
        if n_name nd = name
        then obind (read_node m prev_node) (\<lambda>pn.
          obind (write_node m prev_node (pn\<lparr>n_next := n_next nd\<rparr>)) (\<lambda>m.
          free_node cur_node m))
        else remove_loop n name prev_node (n_next nd) m))"

definition dispatch_table_remove :: "byte list \<Rightarrow> dmem \<Rightarrow> dmem outcome" where
  "dispatch_table_remove name m = remove_loop (fuel m) name NULL (dispatch_table m) m"

fun search_loop :: "nat \<Rightarrow> byte list \<Rightarrow> ptr \<Rightarrow> ptr \<Rightarrow> dmem \<Rightarrow> (ptr \<times> ptr) outcome" where
  "search_loop 0 name prev_node cur_node m = Inl Diverges"
| "search_loop (Suc n) name prev_node cur_node m =
     (if cur_node = NULL then Inr (prev_node, cur_node)
      else obind (read_node m cur_node) (\<lambda>nd.
        if n_name nd = name then Inr (prev_node, cur_node)
        else search_loop n name cur_node (n_next nd) m))"

definition add_or_find_node :: "opaque \<Rightarrow> byte list \<Rightarrow> dmem \<Rightarrow> (ptr \<times> dmem) outcome" where
  "add_or_find_node target name m =
     obind (search_loop (fuel m) name NULL (dispatch_table m) m) (\<lambda>(prev_node, cur_node).
       if cur_node = NULL
       then (let (new_node, m) =
               malloc_node \<lparr>n_name = name, n_next = NULL, n_handler = NULL, n_object = target\<rparr> m
             in if new_node = NULL then Inl (Process_Exit 0)
                else obind (read_node m prev_node) (\<lambda>pn.
                  obind (write_node m prev_node (pn\<lparr>n_next := new_node\<rparr>)) (\<lambda>m.
                  Inr (new_node, m))))
       else Inr (cur_node, m))"

fun find_node_loop :: "nat \<Rightarrow> byte list \<Rightarrow> ptr \<Rightarrow> dmem \<Rightarrow> ptr outcome" where
  "find_node_loop 0 name node m = Inl Diverges"
| "find_node_loop (Suc n) name node m =
     (if node = NULL then Inr NULL
      else obind (read_node m node) (\<lambda>nd.
        if n_name nd = name then Inr node else find_node_loop n name (n_next nd) m))"

definition find_node :: "byte list \<Rightarrow> dmem \<Rightarrow> ptr outcome" where
  "find_node name m = find_node_loop (fuel m) name (dispatch_table m) m"

fun last_handler :: "nat \<Rightarrow> ptr \<Rightarrow> dmem \<Rightarrow> ptr outcome" where
  "last_handler 0 handler m = Inl Diverges"
| "last_handler (Suc n) handler m =
     obind (read_handler m handler) (\<lambda>h.
       if h_next h = NULL then Inr handler else last_handler n (h_next h) m)"

text \<open>What a caller binds: the fields of a handler but its link.\<close>

record hc_binding =
  b_verb :: "byte list"
  b_pre :: fptr
  b_preArgs :: opaque
  b_op :: fptr
  b_post :: fptr
  b_postArgs :: opaque

definition handler_of :: "hc_binding \<Rightarrow> HC_Handler" where
  "handler_of b = \<lparr>h_name = b_verb b, h_next = NULL, h_pre = b_pre b, h_post = b_post b,
     h_preArgs = b_preArgs b, h_postArgs = b_postArgs b, h_op = b_op b\<rparr>"

definition node_add_handler :: "ptr \<Rightarrow> hc_binding \<Rightarrow> dmem \<Rightarrow> dmem outcome" where
  "node_add_handler node b m =
     (let (new_handler, m) = malloc_handler (handler_of b) m
      in if new_handler = NULL then Inl (Process_Exit 0)
         else obind (read_node m node) (\<lambda>nd.
           if n_handler nd = NULL then write_node m node (nd\<lparr>n_handler := new_handler\<rparr>)
           else obind (last_handler (fuel m) (n_handler nd) m) (\<lambda>handler.
             obind (read_handler m handler) (\<lambda>h.
             write_handler m handler (h\<lparr>h_next := new_handler\<rparr>)))))"

definition dispatch_table_add :: "opaque \<Rightarrow> byte list \<Rightarrow> hc_binding \<Rightarrow> dmem \<Rightarrow> dmem outcome" where
  "dispatch_table_add target name b m =
     obind (add_or_find_node target name m) (\<lambda>(node, m). node_add_handler node b m)"

text \<open>
  The application's callbacks, by the number of the function pointer.  They act on the
  application's world and may themselves commit a fault; their return codes are ignored by the
  code.
\<close>

record ('a, 'w) callbacks =
  run_pre :: "nat \<Rightarrow> opaque \<Rightarrow> 'w \<Rightarrow> 'w outcome"
  run_op :: "nat \<Rightarrow> opaque \<Rightarrow> 'a \<Rightarrow> 'w \<Rightarrow> 'w outcome"
  run_post :: "nat \<Rightarrow> opaque \<Rightarrow> 'w \<Rightarrow> 'w outcome"

definition call_hook :: "(nat \<Rightarrow> opaque \<Rightarrow> 'w \<Rightarrow> 'w outcome) \<Rightarrow> fptr \<Rightarrow> opaque \<Rightarrow> 'w \<Rightarrow> 'w outcome" where
  "call_hook run f args w = (case f of None \<Rightarrow> Inr w | Some f \<Rightarrow> run f args w)"

fun execute_loop :: "nat \<Rightarrow> ('a, 'w) callbacks \<Rightarrow> opaque \<Rightarrow> byte list \<Rightarrow> 'a \<Rightarrow> ptr \<Rightarrow> dmem \<Rightarrow> 'w \<Rightarrow>
    'w outcome" where
  "execute_loop 0 cb object verb args handler m w = Inl Diverges"
| "execute_loop (Suc n) cb object verb args handler m w =
     (if handler = NULL then Inr w
      else obind (read_handler m handler) (\<lambda>h.
        if h_name h = verb
        then obind (call_hook (run_pre cb) (h_pre h) (h_preArgs h) w) (\<lambda>w.
          case h_op h of None \<Rightarrow> Inl Null_Call
          | Some f \<Rightarrow> obind (run_op cb f object args w) (\<lambda>w.
              obind (call_hook (run_post cb) (h_post h) (h_postArgs h) w) (\<lambda>w.
              execute_loop n cb object verb args (h_next h) m w)))
        else execute_loop n cb object verb args (h_next h) m w))"

definition dispatch_table_execute ::
    "('a, 'w) callbacks \<Rightarrow> byte list \<Rightarrow> byte list \<Rightarrow> 'a \<Rightarrow> dmem \<Rightarrow> 'w \<Rightarrow> 'w outcome" where
  "dispatch_table_execute cb target verb args m w =
     obind (find_node target m) (\<lambda>node.
       if node = NULL then Inr w
       else obind (read_node m node) (\<lambda>nd.
         execute_loop (fuel m) cb (n_object nd) verb args (n_handler nd) m w))"

section \<open>What the table means\<close>

text \<open>
  The abstract table: the objects in list order, each with its bound object and its handlers in
  binding order.  \<open>handlers_seg\<close> and \<open>nodes_seg\<close> say that the blocks at the given
  addresses form the list from one pointer to another.
\<close>

record hc_object =
  o_name :: "byte list"
  o_object :: opaque
  o_bindings :: "hc_binding list"

definition binding_of :: "HC_Handler \<Rightarrow> hc_binding" where
  "binding_of h = \<lparr>b_verb = h_name h, b_pre = h_pre h, b_preArgs = h_preArgs h, b_op = h_op h,
     b_post = h_post h, b_postArgs = h_postArgs h\<rparr>"

fun handlers_seg :: "dmem \<Rightarrow> ptr \<Rightarrow> nat list \<Rightarrow> hc_binding list \<Rightarrow> ptr \<Rightarrow> bool" where
  "handlers_seg m p [] [] q \<longleftrightarrow> p = q"
| "handlers_seg m p (a # as) (b # bs) q \<longleftrightarrow> p = At a 0 \<and>
     (\<exists>h. dhandlers m a = Some h \<and> binding_of h = b \<and> handlers_seg m (h_next h) as bs q)"
| "handlers_seg m p _ _ q \<longleftrightarrow> False"

fun nodes_seg :: "dmem \<Rightarrow> ptr \<Rightarrow> (nat \<times> nat list) list \<Rightarrow> hc_object list \<Rightarrow> ptr \<Rightarrow> bool" where
  "nodes_seg m p [] [] q \<longleftrightarrow> p = q"
| "nodes_seg m p (g # gs) (obj # os) q \<longleftrightarrow> p = At (fst g) 0 \<and>
     (\<exists>nd. dnodes m (fst g) = Some nd \<and> n_name nd = o_name obj \<and> n_object nd = o_object obj \<and>
        handlers_seg m (n_handler nd) (snd g) (o_bindings obj) NULL \<and>
        nodes_seg m (n_next nd) gs os q)"
| "nodes_seg m p _ _ q \<longleftrightarrow> False"

definition handler_addrs :: "(nat \<times> nat list) list \<Rightarrow> nat list" where
  "handler_addrs gs = concat (map snd gs)"

definition table_at :: "dmem \<Rightarrow> (nat \<times> nat list) list \<Rightarrow> hc_object list \<Rightarrow> bool" where
  "table_at m gs os \<longleftrightarrow>
     nodes_seg m (dispatch_table m) gs os NULL \<and>
     distinct (map fst gs) \<and> distinct (handler_addrs gs) \<and>
     (\<forall>a \<in> set (map fst gs) \<union> set (handler_addrs gs). a < next_addr m) \<and>
     distinct (map o_name os) \<and> os \<noteq> [] \<and> o_name (hd os) = []"

definition table_wf :: "dmem \<Rightarrow> hc_object list \<Rightarrow> bool" where
  "table_wf m os \<longleftrightarrow> (\<exists>gs. table_at m gs os)"

text \<open>Adding a binding to the abstract table; an object that exists keeps its target.\<close>

fun bind_entry :: "opaque \<Rightarrow> byte list \<Rightarrow> hc_binding \<Rightarrow> hc_object list \<Rightarrow> hc_object list" where
  "bind_entry target name b [] = [\<lparr>o_name = name, o_object = target, o_bindings = [b]\<rparr>]"
| "bind_entry target name b (obj # os) =
     (if o_name obj = name then obj\<lparr>o_bindings := o_bindings obj @ [b]\<rparr> # os
      else obj # bind_entry target name b os)"

fun find_entry :: "byte list \<Rightarrow> hc_object list \<Rightarrow> hc_object option" where
  "find_entry name [] = None"
| "find_entry name (obj # os) = (if o_name obj = name then Some obj else find_entry name os)"

text \<open>Running the bindings of one object for a verb, in binding order.\<close>

fun run_bindings :: "('a, 'w) callbacks \<Rightarrow> opaque \<Rightarrow> byte list \<Rightarrow> 'a \<Rightarrow> hc_binding list \<Rightarrow> 'w \<Rightarrow> 'w outcome" where
  "run_bindings cb object verb args [] w = Inr w"
| "run_bindings cb object verb args (b # bs) w =
     (if b_verb b = verb
      then obind (call_hook (run_pre cb) (b_pre b) (b_preArgs b) w) (\<lambda>w.
        case b_op b of None \<Rightarrow> Inl Null_Call
        | Some f \<Rightarrow> obind (run_op cb f object args w) (\<lambda>w.
            obind (call_hook (run_post cb) (b_post b) (b_postArgs b) w)
              (run_bindings cb object verb args bs)))
      else run_bindings cb object verb args bs w)"

section \<open>Segments\<close>

lemma handlers_seg_length: "handlers_seg m p as bs q \<Longrightarrow> length as = length bs"
  by (induction m p as bs q rule: handlers_seg.induct) auto

lemma nodes_seg_length: "nodes_seg m p gs os q \<Longrightarrow> length gs = length os"
  by (induction m p gs os q rule: nodes_seg.induct) auto

lemma handlers_seg_append:
  "length as = length bs \<Longrightarrow> handlers_seg m p (as @ as') (bs @ bs') q \<longleftrightarrow>
     (\<exists>r. handlers_seg m p as bs r \<and> handlers_seg m r as' bs' q)"
  by (induction as bs arbitrary: p rule: list_induct2) auto

lemma nodes_seg_append:
  "length gs = length os \<Longrightarrow> nodes_seg m p (gs @ gs') (os @ os') q \<longleftrightarrow>
     (\<exists>r. nodes_seg m p gs os r \<and> nodes_seg m r gs' os' q)"
  by (induction gs os arbitrary: p rule: list_induct2) auto

lemma handlers_seg_Nil [simp]: "handlers_seg m p [] bs q \<longleftrightarrow> bs = [] \<and> p = q"
  by (cases bs) auto

lemma nodes_seg_Nil [simp]: "nodes_seg m p [] os q \<longleftrightarrow> os = [] \<and> p = q"
  by (cases os) auto

lemma nodes_segE:
  assumes "nodes_seg m p (g # gs) os q"
  obtains nd obj os' where "os = obj # os'" "p = At (fst g) 0" "dnodes m (fst g) = Some nd"
    "n_name nd = o_name obj" "n_object nd = o_object obj"
    "handlers_seg m (n_handler nd) (snd g) (o_bindings obj) NULL" "nodes_seg m (n_next nd) gs os' q"
  using assms by (cases os) auto

text \<open>A list is not disturbed by what happens at other addresses.\<close>

lemma handlers_seg_frame:
  "handlers_seg m p as bs q \<Longrightarrow> (\<And>a. a \<in> set as \<Longrightarrow> dhandlers m' a = dhandlers m a) \<Longrightarrow>
     handlers_seg m' p as bs q"
  by (induction m p as bs q rule: handlers_seg.induct) auto

lemma nodes_seg_frame:
  "nodes_seg m p gs os q \<Longrightarrow> (\<And>a. a \<in> set (map fst gs) \<Longrightarrow> dnodes m' a = dnodes m a) \<Longrightarrow>
     (\<And>a. a \<in> set (handler_addrs gs) \<Longrightarrow> dhandlers m' a = dhandlers m a) \<Longrightarrow>
     nodes_seg m' p gs os q"
  by (induction m p gs os q rule: nodes_seg.induct)
    (auto simp: handler_addrs_def intro!: handlers_seg_frame)

section \<open>The loops on a well-formed list\<close>

lemma read_node_At [simp]: "dnodes m a = Some nd \<Longrightarrow> read_node m (At a 0) = Inr nd"
  by (simp add: read_node_def)

lemma read_handler_At [simp]: "dhandlers m a = Some h \<Longrightarrow> read_handler m (At a 0) = Inr h"
  by (simp add: read_handler_def)

lemma write_node_At [simp]:
  "dnodes m a = Some nd \<Longrightarrow> write_node m (At a 0) nd' = Inr (m\<lparr>dnodes := (dnodes m)(a \<mapsto> nd')\<rparr>)"
  by (simp add: write_node_def)

lemma write_handler_At [simp]:
  "dhandlers m a = Some h \<Longrightarrow>
     write_handler m (At a 0) h' = Inr (m\<lparr>dhandlers := (dhandlers m)(a \<mapsto> h')\<rparr>)"
  by (simp add: write_handler_def)

lemma search_loop_miss:
  "nodes_seg m cur gs os NULL \<Longrightarrow> length gs < n \<Longrightarrow> name \<notin> o_name ` set os \<Longrightarrow>
     search_loop n name prev cur m = Inr (if gs = [] then prev else At (fst (last gs)) 0, NULL)"
proof (induction gs arbitrary: n prev cur os)
  case Nil
  then show ?case by (cases n) auto
next
  case (Cons g gs)
  from Cons.prems(2) obtain k where k: "n = Suc k" by (cases n) auto
  from Cons.prems(1) show ?case
    by (rule nodes_segE) (use Cons.prems(2,3) Cons.IH k in auto)
qed

lemma search_loop_hit:
  assumes "length gs1 = length os1"
  shows "nodes_seg m cur (gs1 @ g # gs2) (os1 @ obj # os2) NULL \<Longrightarrow> length gs1 < n \<Longrightarrow>
     o_name obj \<notin> o_name ` set os1 \<Longrightarrow>
     \<exists>pv. search_loop n (o_name obj) prev cur m = Inr (pv, At (fst g) 0)"
  using assms
proof (induction gs1 os1 arbitrary: n prev cur rule: list_induct2)
  case Nil
  then show ?case by (cases n) auto
next
  case (Cons g' gs1 obj' os1)
  then show ?case by (cases n) auto
qed

lemma find_node_loop_miss:
  "nodes_seg m cur gs os NULL \<Longrightarrow> length gs < n \<Longrightarrow> name \<notin> o_name ` set os \<Longrightarrow>
     find_node_loop n name cur m = Inr NULL"
proof (induction gs arbitrary: n cur os)
  case Nil
  then show ?case by (cases n) auto
next
  case (Cons g gs)
  from Cons.prems(2) obtain k where k: "n = Suc k" by (cases n) auto
  from Cons.prems(1) show ?case
    by (rule nodes_segE) (use Cons.prems(2,3) Cons.IH k in auto)
qed

lemma find_node_loop_hit:
  assumes "length gs1 = length os1"
  shows "nodes_seg m cur (gs1 @ g # gs2) (os1 @ obj # os2) NULL \<Longrightarrow> length gs1 < n \<Longrightarrow>
     o_name obj \<notin> o_name ` set os1 \<Longrightarrow>
     find_node_loop n (o_name obj) cur m = Inr (At (fst g) 0)"
  using assms
proof (induction gs1 os1 arbitrary: n cur rule: list_induct2)
  case Nil
  then show ?case by (cases n) auto
next
  case (Cons g' gs1 obj' os1)
  then show ?case by (cases n) auto
qed

lemma last_handler_seg:
  "handlers_seg m p as bs NULL \<Longrightarrow> as \<noteq> [] \<Longrightarrow> length as \<le> n \<Longrightarrow>
     last_handler n p m = Inr (At (last as) 0)"
proof (induction as arbitrary: n p bs)
  case (Cons a as)
  then obtain k where n: "n = Suc k" by (cases n) auto
  from Cons.prems(1) obtain h bs' where h: "p = At a 0" "dhandlers m a = Some h"
    "handlers_seg m (h_next h) as bs' NULL" by (cases bs) auto
  show ?case
  proof (cases as)
    case Nil
    with h n show ?thesis by simp
  next
    case (Cons b as')
    with h(3) have "h_next h \<noteq> NULL" by (cases bs') auto
    with Cons.IH[OF h(3), of k] Cons.prems(3) h(1,2) n Cons show ?thesis by simp
  qed
qed simp

text \<open>Appending to the end of a list of handlers.\<close>

lemma handlers_seg_snoc:
  assumes "handlers_seg m p as bs NULL" "as \<noteq> []" "distinct as" "x \<notin> set as"
    and "dhandlers m (last as) = Some h" "dhandlers m x = Some h'" "h_next h' = NULL"
  shows "handlers_seg (m\<lparr>dhandlers := (dhandlers m)(last as \<mapsto> h\<lparr>h_next := At x 0\<rparr>)\<rparr>) p (as @ [x])
    (bs @ [binding_of h']) NULL"
proof -
  define bl where "bl = butlast as"
  define l where "l = last as"
  have as: "as = bl @ [l]" using assms(2) by (simp add: bl_def l_def)
  from assms(1) have "length bs = Suc (length bl)" using as handlers_seg_length by fastforce
  then obtain bs1 b where bs: "bs = bs1 @ [b]" "length bl = length bs1"
    by (cases bs rule: rev_cases) auto
  with assms(1,5) obtain r where r: "handlers_seg m p bl bs1 r" "r = At l 0" "binding_of h = b"
    by (auto simp: as handlers_seg_append)
  let ?m = "m\<lparr>dhandlers := (dhandlers m)(l \<mapsto> h\<lparr>h_next := At x 0\<rparr>)\<rparr>"
  have "handlers_seg ?m p bl bs1 r"
    using assms(3) as by (intro handlers_seg_frame[OF r(1)]) auto
  moreover have "handlers_seg ?m r [l, x] [b, binding_of h'] NULL"
    using r(2,3) assms(4,6,7) as by (auto simp: binding_of_def)
  ultimately have "handlers_seg ?m p (bl @ [l, x]) (bs1 @ [b, binding_of h']) NULL"
    unfolding handlers_seg_append[OF bs(2)] by blast
  then show ?thesis using as bs(1) by (simp add: l_def[symmetric])
qed

lemma binding_of_handler_of [simp]: "binding_of (handler_of b) = b"
  by (simp add: binding_of_def handler_of_def)

lemma nodes_seg_replace:
  assumes seg: "nodes_seg m p (gs1 @ g # gs2) (os1 @ obj # os2) q" and len: "length gs1 = length os1"
    and nd: "dnodes m (fst g) = Some nd"
    and same: "\<And>a. a \<in> set (map fst gs1) \<union> set (map fst gs2) \<Longrightarrow> dnodes m' a = dnodes m a"
      "\<And>a. a \<in> set (handler_addrs gs1) \<union> set (handler_addrs gs2) \<Longrightarrow> dhandlers m' a = dhandlers m a"
    and nd': "dnodes m' (fst g) = Some nd'" "n_name nd' = o_name obj'" "n_object nd' = o_object obj'"
      "n_next nd' = n_next nd" "handlers_seg m' (n_handler nd') hs' (o_bindings obj') NULL"
  shows "nodes_seg m' p (gs1 @ (fst g, hs') # gs2) (os1 @ obj' # os2) q"
proof -
  from seg len nd obtain r where r: "nodes_seg m p gs1 os1 r" "r = At (fst g) 0"
    "nodes_seg m (n_next nd) gs2 os2 q" by (auto simp: nodes_seg_append)
  have "nodes_seg m' p gs1 os1 r"
    by (rule nodes_seg_frame[OF r(1)]) (simp_all add: same)
  moreover have "nodes_seg m' (n_next nd) gs2 os2 q"
    by (rule nodes_seg_frame[OF r(3)]) (simp_all add: same)
  ultimately show ?thesis
    using len nd' r(2) by (auto simp: nodes_seg_append)
qed

lemma handlers_seg_live:
  "handlers_seg m p as bs q \<Longrightarrow> a \<in> set as \<Longrightarrow> \<exists>h. dhandlers m a = Some h"
  by (induction m p as bs q rule: handlers_seg.induct) auto

lemma handler_addrs_simps [simp]:
  "handler_addrs [] = []"
  "handler_addrs (g # gs) = snd g @ handler_addrs gs"
  "handler_addrs (gs @ gs') = handler_addrs gs @ handler_addrs gs'"
  by (simp_all add: handler_addrs_def)

lemma length_within_fuel:
  assumes "distinct as" "\<forall>a \<in> set as. a < (n::nat)"
  shows "length as \<le> n"
proof -
  have "card (set as) \<le> card {..<n}"
    using assms(2) by (intro card_mono) auto
  then show ?thesis using assms(1) by (simp add: distinct_card)
qed

lemma table_at_fuel:
  assumes "table_at m gs os"
  shows "length gs < fuel m" "length (handler_addrs gs) < fuel m"
  using length_within_fuel[of "map fst gs" "next_addr m"]
    length_within_fuel[of "handler_addrs gs" "next_addr m"] assms
  by (auto simp: table_at_def fuel_def)

lemma node_add_handler_correct:
  assumes tab: "table_at m (gs1 @ g # gs2) (os1 @ obj # os2)" and len: "length gs1 = length os1"
    and mem: "mem_left m \<noteq> 0"
  shows "\<exists>m' hs'. node_add_handler (At (fst g) 0) b m = Inr m' \<and>
    table_at m' (gs1 @ (fst g, hs') # gs2)
      (os1 @ obj\<lparr>o_bindings := o_bindings obj @ [b]\<rparr> # os2) \<and>
    dispatch_table m' = dispatch_table m \<and> mem_left m' = mem_left m - 1"
proof -
  let ?x = "next_addr m" and ?obj = "obj\<lparr>o_bindings := o_bindings obj @ [b]\<rparr>"
  let ?m1 = "m\<lparr>dhandlers := (dhandlers m)(?x \<mapsto> handler_of b), next_addr := Suc ?x,
    mem_left := mem_left m - 1\<rparr>"
  note T = tab[unfolded table_at_def]
  have fresh: "?x \<notin> set (map fst (gs1 @ g # gs2))" "?x \<notin> set (handler_addrs (gs1 @ g # gs2))"
    using T by (metis Un_iff less_irrefl)+
  from T len obtain nd where nd: "dnodes m (fst g) = Some nd" "n_name nd = o_name obj"
    "n_object nd = o_object obj" "handlers_seg m (n_handler nd) (snd g) (o_bindings obj) NULL"
    by (auto simp: nodes_seg_append)
  have seg1: "handlers_seg ?m1 (n_handler nd) (snd g) (o_bindings obj) NULL"
    using fresh by (intro handlers_seg_frame[OF nd(4)]) auto
  have malloc: "malloc_handler (handler_of b) m = (At ?x 0, ?m1)"
    using mem by (simp add: malloc_handler_def)
  have "\<exists>m'. node_add_handler (At (fst g) 0) b m = Inr m' \<and>
    nodes_seg m' (dispatch_table m) (gs1 @ (fst g, snd g @ [?x]) # gs2) (os1 @ ?obj # os2) NULL \<and>
    dispatch_table m' = dispatch_table m \<and> next_addr m' = Suc ?x \<and> mem_left m' = mem_left m - 1"
  proof (cases "snd g")
    case Nil
    let ?nd = "nd\<lparr>n_handler := At ?x 0\<rparr>"
    let ?m2 = "?m1\<lparr>dnodes := (dnodes m)(fst g \<mapsto> ?nd)\<rparr>"
    have null: "n_handler nd = NULL" "o_bindings obj = []" using nd(4) Nil by auto
    have "node_add_handler (At (fst g) 0) b m = Inr ?m2"
      using null nd(1) by (simp add: node_add_handler_def malloc)
    moreover have "nodes_seg ?m2 (dispatch_table m) (gs1 @ (fst g, [?x]) # gs2) (os1 @ ?obj # os2) NULL"
      by (rule nodes_seg_replace[where nd = nd and nd' = ?nd and m = m and obj = obj])
        (use T len nd null fresh in \<open>auto simp: handler_of_def binding_of_def\<close>)
    ultimately show ?thesis using Nil by auto
  next
    case (Cons h0 hs)
    then have ne: "snd g \<noteq> []" by simp
    have lastin: "last (snd g) \<in> set (snd g)" using ne by simp
    from nd(4) Cons have nn: "n_handler nd \<noteq> NULL" by (cases "o_bindings obj") auto
    obtain h where h: "dhandlers m (last (snd g)) = Some h"
      using handlers_seg_live[OF nd(4) lastin] by blast
    have lx: "last (snd g) \<noteq> ?x" and dist: "distinct (snd g)" and len_le: "length (snd g) \<le> fuel ?m1"
      using T fresh lastin table_at_fuel(2)[OF tab] by (auto simp: fuel_def)
    let ?m2 = "?m1\<lparr>dhandlers := (dhandlers ?m1)(last (snd g) \<mapsto> h\<lparr>h_next := At ?x 0\<rparr>)\<rparr>"
    have lh: "last_handler (fuel ?m1) (n_handler nd) ?m1 = Inr (At (last (snd g)) 0)"
      by (rule last_handler_seg[OF seg1 ne len_le])
    have h1: "dhandlers ?m1 (last (snd g)) = Some h" using h lx by simp
    have "node_add_handler (At (fst g) 0) b m = Inr ?m2"
      using nn nd(1) lh h1 unfolding node_add_handler_def malloc by (simp del: fun_upd_apply)
    moreover have "handlers_seg ?m2 (n_handler nd) (snd g @ [?x]) (o_bindings obj @ [binding_of (handler_of b)]) NULL"
      by (rule handlers_seg_snoc[OF seg1 ne dist]) (use fresh h1 in \<open>auto simp: handler_of_def\<close>)
    then have "nodes_seg ?m2 (dispatch_table m) (gs1 @ (fst g, snd g @ [?x]) # gs2) (os1 @ ?obj # os2) NULL"
      using T len nd(1-3) fresh lastin
      by (intro nodes_seg_replace[where nd = nd and nd' = nd and m = m and obj = obj]) auto
    ultimately show ?thesis by auto
  qed
  then obtain m' where m': "node_add_handler (At (fst g) 0) b m = Inr m'"
    "nodes_seg m' (dispatch_table m) (gs1 @ (fst g, snd g @ [?x]) # gs2) (os1 @ ?obj # os2) NULL"
    "dispatch_table m' = dispatch_table m" "next_addr m' = Suc ?x" "mem_left m' = mem_left m - 1"
    by blast
  have "table_at m' (gs1 @ (fst g, snd g @ [?x]) # gs2) (os1 @ ?obj # os2)"
    using T fresh m'(2-4) by (cases os1) (auto simp: table_at_def less_Suc_eq)
  with m'(1,3,5) show ?thesis by blast
qed

lemma split_at_name:
  assumes "name \<in> o_name ` set os" "length gs = length os"
  obtains os1 obj os2 gs1 g gs2 where "os = os1 @ obj # os2" "gs = gs1 @ g # gs2"
    "length gs1 = length os1" "o_name obj = name" "name \<notin> o_name ` set os1"
proof -
  have "\<exists>x \<in> set os. o_name x = name" using assms(1) by auto
  from split_list_first_prop[OF this] obtain os1 obj os2 where
    os: "os = os1 @ obj # os2" "o_name obj = name" "name \<notin> o_name ` set os1"
    by fastforce
  have "length os1 < length gs" using assms(2) os(1) by simp
  then have "gs = take (length os1) gs @ gs ! length os1 # drop (Suc (length os1)) gs"
    by (rule id_take_nth_drop)
  with os show thesis
    using \<open>length os1 < length gs\<close>
    by (intro that[of os1 obj os2 "take (length os1) gs"]) auto
qed

lemma bind_entry_miss:
  "name \<notin> o_name ` set os \<Longrightarrow>
     bind_entry target name b os = os @ [\<lparr>o_name = name, o_object = target, o_bindings = [b]\<rparr>]"
  by (induction os) auto

lemma bind_entry_hit:
  "o_name obj \<notin> o_name ` set os1 \<Longrightarrow> bind_entry target (o_name obj) b (os1 @ obj # os2) =
     os1 @ obj\<lparr>o_bindings := o_bindings obj @ [b]\<rparr> # os2"
  by (induction os1) auto

lemma table_at_length: "table_at m gs os \<Longrightarrow> length gs = length os"
  by (auto simp: table_at_def nodes_seg_length)

lemma add_or_find_hit:
  assumes "table_at m (gs1 @ g # gs2) (os1 @ obj # os2)" "length gs1 = length os1"
    "o_name obj \<notin> o_name ` set os1"
  shows "add_or_find_node target (o_name obj) m = Inr (At (fst g) 0, m)"
proof -
  have "length gs1 < fuel m" using table_at_fuel(1)[OF assms(1)] by simp
  moreover have "nodes_seg m (dispatch_table m) (gs1 @ g # gs2) (os1 @ obj # os2) NULL"
    using assms(1) by (simp add: table_at_def)
  ultimately obtain pv where
    "search_loop (fuel m) (o_name obj) NULL (dispatch_table m) m = Inr (pv, At (fst g) 0)"
    using search_loop_hit[OF assms(2) _ _ assms(3)] by blast
  then show ?thesis by (simp add: add_or_find_node_def)
qed

lemma add_or_find_miss:
  assumes tab: "table_at m gs os" and new: "name \<notin> o_name ` set os" and mem: "mem_left m \<noteq> 0"
  shows "\<exists>m'. add_or_find_node target name m = Inr (At (next_addr m) 0, m') \<and>
    table_at m' (gs @ [(next_addr m, [])])
      (os @ [\<lparr>o_name = name, o_object = target, o_bindings = []\<rparr>]) \<and>
    dispatch_table m' = dispatch_table m \<and> mem_left m' = mem_left m - 1"
proof -
  let ?x = "next_addr m"
  let ?new = "\<lparr>n_name = name, n_next = NULL, n_handler = NULL, n_object = target\<rparr>"
  let ?obj = "\<lparr>o_name = name, o_object = target, o_bindings = []\<rparr>"
  let ?m1 = "m\<lparr>dnodes := (dnodes m)(?x \<mapsto> ?new), next_addr := Suc ?x, mem_left := mem_left m - 1\<rparr>"
  note T = tab[unfolded table_at_def]
  have fresh: "?x \<notin> set (map fst gs)" "?x \<notin> set (handler_addrs gs)"
    using T by (metis Un_iff less_irrefl)+
  from T table_at_length[OF tab] obtain gi l oi ob where
    gs: "gs = gi @ [l]" and os: "os = oi @ [ob]" and len: "length gi = length oi"
    by (cases gs rule: rev_cases; cases os rule: rev_cases) auto
  from T len obtain nd where nd: "dnodes m (fst l) = Some nd" "n_name nd = o_name ob"
    "n_object nd = o_object ob" "handlers_seg m (n_handler nd) (snd l) (o_bindings ob) NULL"
    by (auto simp: gs os nodes_seg_append)
  have search: "search_loop (fuel m) name NULL (dispatch_table m) m = Inr (At (fst l) 0, NULL)"
    using search_loop_miss[of m "dispatch_table m" gs os "fuel m" name NULL] T new
      table_at_fuel(1)[OF tab] gs by auto
  let ?nd = "nd\<lparr>n_next := At ?x 0\<rparr>"
  let ?m2 = "?m1\<lparr>dnodes := (dnodes ?m1)(fst l \<mapsto> ?nd)\<rparr>"
  have malloc: "malloc_node ?new m = (At ?x 0, ?m1)"
    using mem by (simp add: malloc_node_def)
  have l1: "dnodes ?m1 (fst l) = Some nd" using nd(1) fresh gs by auto
  have add: "add_or_find_node target name m = Inr (At ?x 0, ?m2)"
    using l1 unfolding add_or_find_node_def search by (simp add: malloc del: fun_upd_apply)
  have "nodes_seg m (dispatch_table m) (gi @ [l]) (oi @ [ob]) NULL" using T gs os by simp
  then obtain r where r: "nodes_seg m (dispatch_table m) gi oi r" "r = At (fst l) 0"
    using len by (auto simp: nodes_seg_append)
  have "nodes_seg ?m2 (dispatch_table m) gi oi r"
  proof (rule nodes_seg_frame[OF r(1)])
    fix a assume "a \<in> set (map fst gi)"
    moreover have "fst l \<notin> set (map fst gi)" "?x \<notin> set (map fst gi)" using fresh(1) T gs by simp_all
    ultimately have "a \<noteq> ?x" "a \<noteq> fst l" by metis+
    then show "dnodes ?m2 a = dnodes m a" by simp
  qed simp
  moreover have "handlers_seg ?m2 (n_handler nd) (snd l) (o_bindings ob) NULL"
    by (rule handlers_seg_frame[OF nd(4)]) simp
  then have "nodes_seg ?m2 r [l, (?x, [])] [ob, ?obj] NULL"
    using r(2) nd(2,3) fresh gs by auto
  ultimately have seg: "nodes_seg ?m2 (dispatch_table m) (gi @ [l, (?x, [])]) (oi @ [ob, ?obj]) NULL"
    using len by (auto simp: nodes_seg_append)
  have "distinct (map o_name (os @ [?obj]))" using T new by auto
  then have "table_at ?m2 (gs @ [(?x, [])]) (os @ [?obj])"
    using T fresh seg gs os unfolding table_at_def by (cases oi) (auto simp: less_Suc_eq)
  with add show ?thesis by auto
qed

lemma dispatch_table_add_correct:
  assumes wf: "table_wf m os" and mem: "2 \<le> mem_left m"
  shows "\<exists>m'. dispatch_table_add target name b m = Inr m' \<and>
    table_wf m' (bind_entry target name b os) \<and> dispatch_table m' = dispatch_table m \<and>
    mem_left m' + (if name \<in> o_name ` set os then 1 else 2) = mem_left m"
proof -
  from wf obtain gs where tab: "table_at m gs os" by (auto simp: table_wf_def)
  show ?thesis
  proof (cases "name \<in> o_name ` set os")
    case True
    then obtain os1 obj os2 gs1 g gs2 where s: "os = os1 @ obj # os2" "gs = gs1 @ g # gs2"
      "length gs1 = length os1" "o_name obj = name" "name \<notin> o_name ` set os1"
      using split_at_name table_at_length[OF tab] by metis
    from node_add_handler_correct[OF tab[unfolded s(1,2)] s(3), of b] mem obtain m' hs' where
      m': "node_add_handler (At (fst g) 0) b m = Inr m'"
        "table_at m' (gs1 @ (fst g, hs') # gs2)
          (os1 @ obj\<lparr>o_bindings := o_bindings obj @ [b]\<rparr> # os2)"
        "dispatch_table m' = dispatch_table m" "mem_left m' = mem_left m - 1" by auto
    have "dispatch_table_add target name b m = Inr m'"
      using add_or_find_hit[OF tab[unfolded s(1,2)] s(3)] s(4,5) m'(1)
      by (simp add: dispatch_table_add_def)
    moreover have "bind_entry target name b os = os1 @ obj\<lparr>o_bindings := o_bindings obj @ [b]\<rparr> # os2"
      using bind_entry_hit[of obj os1 target b os2] s by simp
    ultimately show ?thesis using m' True mem by (auto simp: table_wf_def)
  next
    case False
    let ?obj = "\<lparr>o_name = name, o_object = target, o_bindings = []\<rparr>"
    from add_or_find_miss[OF tab False, of target] mem obtain m1 where
      m1: "add_or_find_node target name m = Inr (At (next_addr m) 0, m1)"
        "table_at m1 (gs @ [(next_addr m, [])]) (os @ [?obj])"
        "dispatch_table m1 = dispatch_table m" "mem_left m1 = mem_left m - 1" by auto
    from node_add_handler_correct[OF m1(2) table_at_length[OF tab], of b] m1(4) mem obtain m' hs' where
      m': "node_add_handler (At (next_addr m) 0) b m1 = Inr m'"
        "table_at m' (gs @ [(next_addr m, hs')]) (os @ [?obj\<lparr>o_bindings := [b]\<rparr>])"
        "dispatch_table m' = dispatch_table m1" "mem_left m' = mem_left m1 - 1" by auto
    have "dispatch_table_add target name b m = Inr m'"
      using m1(1) m'(1) by (simp add: dispatch_table_add_def)
    then show ?thesis using m' m1 False mem by (auto simp: table_wf_def bind_entry_miss)
  qed
qed

lemma dispatch_table_init_correct:
  assumes "mem_left m \<noteq> 0"
  shows "\<exists>m'. dispatch_table_init m = Inr m' \<and> mem_left m' = mem_left m - 1 \<and>
    table_wf m' [\<lparr>o_name = [], o_object = 0, o_bindings = []\<rparr>]"
  using assms
  by (auto simp: dispatch_table_init_def malloc_node_def table_wf_def table_at_def
      intro!: exI[of _ "[(next_addr m, [])]"])

lemma find_entry_hit:
  "o_name obj \<notin> o_name ` set os1 \<Longrightarrow> find_entry (o_name obj) (os1 @ obj # os2) = Some obj"
  by (induction os1) auto

lemma find_entry_miss: "name \<notin> o_name ` set os \<Longrightarrow> find_entry name os = None"
  by (induction os) auto

lemma execute_loop_seg:
  "handlers_seg m p as bs NULL \<Longrightarrow> length as < n \<Longrightarrow>
     execute_loop n cb object verb args p m w = run_bindings cb object verb args bs w"
proof (induction as arbitrary: n p bs w)
  case Nil
  then show ?case by (cases n) auto
next
  case (Cons a as)
  then obtain k where n: "n = Suc k" by (cases n) auto
  from Cons.prems(1) obtain h bs' where h: "p = At a 0" "dhandlers m a = Some h"
    "bs = binding_of h # bs'" "handlers_seg m (h_next h) as bs' NULL" by (cases bs) auto
  have IH: "execute_loop k cb object verb args (h_next h) m w = run_bindings cb object verb args bs' w" for w
    using Cons.IH[OF h(4)] Cons.prems(2) n by simp
  show ?case
    using h(1-3) n by (simp add: IH binding_of_def cong: obind_cong option.case_cong)
qed

lemma dispatch_table_execute_correct:
  assumes wf: "table_wf m os"
  shows "dispatch_table_execute cb target verb args m w =
    (case find_entry target os of None \<Rightarrow> Inr w
     | Some obj \<Rightarrow> run_bindings cb (o_object obj) verb args (o_bindings obj) w)"
proof -
  from wf obtain gs where tab: "table_at m gs os" by (auto simp: table_wf_def)
  then have seg: "nodes_seg m (dispatch_table m) gs os NULL" by (simp add: table_at_def)
  show ?thesis
  proof (cases "target \<in> o_name ` set os")
    case True
    then obtain os1 obj os2 gs1 g gs2 where s: "os = os1 @ obj # os2" "gs = gs1 @ g # gs2"
      "length gs1 = length os1" "o_name obj = target" "target \<notin> o_name ` set os1"
      using split_at_name table_at_length[OF tab] by metis
    have "find_node target m = Inr (At (fst g) 0)"
      using find_node_loop_hit[OF s(3) seg[unfolded s(1,2)], of "fuel m"] s(4,5)
        table_at_fuel(1)[OF tab] s(2) by (simp add: find_node_def)
    moreover from seg s obtain nd where nd: "dnodes m (fst g) = Some nd" "n_object nd = o_object obj"
      "handlers_seg m (n_handler nd) (snd g) (o_bindings obj) NULL"
      by (auto simp: nodes_seg_append)
    moreover have "length (snd g) < fuel m"
      using table_at_fuel(2)[OF tab] s(2) by simp
    ultimately show ?thesis
      using execute_loop_seg[OF nd(3)] find_entry_hit[of obj os1 os2] s
      by (simp add: dispatch_table_execute_def)
  next
    case False
    then have "find_node target m = Inr NULL"
      using find_node_loop_miss[OF seg table_at_fuel(1)[OF tab]] by (simp add: find_node_def)
    with False show ?thesis
      by (simp add: dispatch_table_execute_def find_entry_miss)
  qed
qed

section \<open>Removing, rebinding and freeing\<close>

lemma remove_loop_miss:
  "nodes_seg m cur gs os NULL \<Longrightarrow> length gs < n \<Longrightarrow> name \<notin> o_name ` set os \<Longrightarrow>
     remove_loop n name prev cur m = Inr m"
proof (induction gs arbitrary: n cur os)
  case Nil
  then show ?case by (cases n) auto
next
  case (Cons g gs)
  from Cons.prems(2) obtain k where k: "n = Suc k" by (cases n) auto
  from Cons.prems(1) show ?case
    by (rule nodes_segE) (use Cons.prems(2,3) Cons.IH k in auto)
qed

lemma remove_loop_hit:
  assumes "length gs1 = length os1"
  shows "nodes_seg m cur (gs1 @ g # gs2) (os1 @ obj # os2) NULL \<Longrightarrow> length gs1 < n \<Longrightarrow>
     o_name obj \<notin> o_name ` set os1 \<Longrightarrow>
     remove_loop n (o_name obj) NULL cur m = Inl Null_Deref"
  using assms
proof (induction gs1 os1 arbitrary: n cur rule: list_induct2)
  case Nil
  then show ?case by (cases n) (auto simp: read_node_def)
next
  case (Cons g' gs1 obj' os1)
  then show ?case by (cases n) auto
qed

lemma dispatch_table_remove_outcome:
  assumes "table_wf m os"
  shows "dispatch_table_remove name m =
    (if name \<in> o_name ` set os then Inl Null_Deref else Inr m)"
proof -
  from assms obtain gs where tab: "table_at m gs os" by (auto simp: table_wf_def)
  then have seg: "nodes_seg m (dispatch_table m) gs os NULL" by (simp add: table_at_def)
  show ?thesis
  proof (cases "name \<in> o_name ` set os")
    case True
    then obtain os1 obj os2 gs1 g gs2 where s: "os = os1 @ obj # os2" "gs = gs1 @ g # gs2"
      "length gs1 = length os1" "o_name obj = name" "name \<notin> o_name ` set os1"
      using split_at_name table_at_length[OF tab] by metis
    then show ?thesis
      using remove_loop_hit[OF s(3) seg[unfolded s(1,2)], of "fuel m"] True
        table_at_fuel(1)[OF tab] by (simp add: dispatch_table_remove_def)
  next
    case False
    then show ?thesis
      using remove_loop_miss[OF seg table_at_fuel(1)[OF tab]]
      by (simp add: dispatch_table_remove_def)
  qed
qed

lemma dispatch_table_rebind_outcome:
  assumes "table_wf m os"
  shows "dispatch_table_rebind name target m = Inl Out_Of_Bounds"
proof -
  from assms obtain g gs obj os' where os: "os = obj # os'"
    and seg: "nodes_seg m (dispatch_table m) (g # gs) os NULL"
  proof -
    from assms obtain gs' where t: "table_at m gs' os" by (auto simp: table_wf_def)
    then have "length gs' = length os" "os \<noteq> []" by (auto simp: table_at_def dest: nodes_seg_length)
    with t that show thesis by (cases os; cases gs') (auto simp: table_at_def)
  qed
  from seg obtain nd where "dispatch_table m = At (fst g) 0" "dnodes m (fst g) = Some nd"
    by (rule nodes_segE)
  then show ?thesis
    by (simp add: dispatch_table_rebind_def fuel_def) (simp add: read_node_def)
qed

text \<open>An uninitialised table is the one case in which rebinding returns: it does nothing.\<close>

lemma dispatch_table_rebind_uninit:
  "dispatch_table m = NULL \<Longrightarrow> dispatch_table_rebind name target m = Inr m"
  by (simp add: dispatch_table_rebind_def fuel_def)

lemma free_node_outcome:
  assumes "dnodes m a = Some nd" "handlers_seg m (n_handler nd) hs bs NULL" "distinct hs"
  shows "if length hs \<le> 1
    then free_node (At a 0) m = Inr (m\<lparr>dhandlers := (\<lambda>x. if x \<in> set hs then None else dhandlers m x),
      dnodes := (dnodes m)(a := None)\<rparr>)
    else free_node (At a 0) m = Inl Use_After_Free"
proof (cases hs)
  case Nil
  with assms have "n_handler nd = NULL" by simp
  with Nil assms(1) show ?thesis by (simp add: free_node_def release_node_def fuel_def)
next
  case (Cons x hs')
  from assms(2) Cons obtain h where h: "n_handler nd = At x 0" "dhandlers m x = Some h"
    "handlers_seg m (h_next h) hs' (tl bs) NULL" by (cases bs) auto
  show ?thesis
  proof (cases hs')
    case Nil
    with h(3) have "h_next h = NULL" by simp
    have "(\<lambda>z. if z \<in> set hs then None else dhandlers m z) = (dhandlers m)(x := None)"
      using Cons Nil by auto
    with Cons Nil h(1,2) assms(1) \<open>h_next h = NULL\<close> show ?thesis
      by (simp add: free_node_def release_node_def release_handler_def fuel_def read_node_def)
  next
    case (Cons y ys)
    with h(3) have "h_next h \<noteq> NULL" by (cases "tl bs") auto
    with \<open>hs = x # hs'\<close> Cons h(1,2) assms(1) show ?thesis
      by (simp add: free_node_def release_handler_def fuel_def read_handler_def)
  qed
qed

section \<open>The contract the rest of the library relies on\<close>

text \<open>A list of bind requests: target, name and handler.\<close>

type_synonym bind_request = "opaque \<times> byte list \<times> hc_binding"

fun bind_all :: "(opaque \<Rightarrow> byte list \<Rightarrow> hc_binding \<Rightarrow> 'm \<Rightarrow> 'm outcome) \<Rightarrow> bind_request list \<Rightarrow> 'm \<Rightarrow> 'm outcome" where
  "bind_all bind [] m = Inr m"
| "bind_all bind ((t, n, b) # rs) m = obind (bind t n b m) (bind_all bind rs)"

fun bind_entries :: "bind_request list \<Rightarrow> hc_object list \<Rightarrow> hc_object list" where
  "bind_entries [] os = os"
| "bind_entries ((t, n, b) # rs) os = bind_entries rs (bind_entry t n b os)"

definition requests_for :: "byte list \<Rightarrow> bind_request list \<Rightarrow> hc_binding list" where
  "requests_for name rs = map (\<lambda>(t, n, b). b) (filter (\<lambda>(t, n, b). n = name) rs)"

lemma find_entry_bind_entry:
  "find_entry name (bind_entry t n b os) =
     (if n = name
      then Some (case find_entry name os of
        None \<Rightarrow> \<lparr>o_name = n, o_object = t, o_bindings = [b]\<rparr>
      | Some obj \<Rightarrow> obj\<lparr>o_bindings := o_bindings obj @ [b]\<rparr>)
      else find_entry name os)"
  by (induction os) (auto split: option.splits)

lemma find_entry_bind_entries:
  "find_entry name os = Some obj \<Longrightarrow>
     find_entry name (bind_entries rs os) =
       Some (obj\<lparr>o_bindings := o_bindings obj @ requests_for name rs\<rparr>)"
proof (induction rs arbitrary: os obj)
  case (Cons r rs)
  obtain t n b where r: "r = (t, n, b)" by (cases r)
  show ?case
  proof (cases "n = name")
    case True
    with Cons.prems r Cons.IH[of "bind_entry t n b os" "obj\<lparr>o_bindings := o_bindings obj @ [b]\<rparr>"]
    show ?thesis by (simp add: find_entry_bind_entry requests_for_def)
  next
    case False
    with Cons.prems r Cons.IH[of "bind_entry t n b os" obj] show ?thesis
      by (simp add: find_entry_bind_entry requests_for_def)
  qed
qed (simp add: requests_for_def)

locale verb_table =
  fixes bind :: "opaque \<Rightarrow> byte list \<Rightarrow> hc_binding \<Rightarrow> 'm \<Rightarrow> 'm outcome"
    and exec :: "('a, 'w) callbacks \<Rightarrow> byte list \<Rightarrow> byte list \<Rightarrow> 'a \<Rightarrow> 'm \<Rightarrow> 'w \<Rightarrow> 'w outcome"
    and holds :: "'m \<Rightarrow> hc_object list \<Rightarrow> bool"
    and room :: "'m \<Rightarrow> nat"
    and cost :: nat
  assumes bind_law: "holds m os \<Longrightarrow> cost \<le> room m \<Longrightarrow>
      \<exists>m'. bind t n b m = Inr m' \<and> holds m' (bind_entry t n b os) \<and> room m \<le> room m' + cost"
    and exec_law: "holds m os \<Longrightarrow> exec cb target verb args m w =
      (case find_entry target os of None \<Rightarrow> Inr w
       | Some obj \<Rightarrow> run_bindings cb (o_object obj) verb args (o_bindings obj) w)"
begin

lemma bind_all_law:
  "holds m os \<Longrightarrow> cost * length rs \<le> room m \<Longrightarrow>
     \<exists>m'. bind_all bind rs m = Inr m' \<and> holds m' (bind_entries rs os)"
proof (induction rs arbitrary: m os)
  case (Cons r rs)
  obtain t n b where r: "r = (t, n, b)" by (cases r)
  from bind_law[OF Cons.prems(1), of t n b] Cons.prems(2) obtain m' where
    m': "bind t n b m = Inr m'" "holds m' (bind_entry t n b os)" "room m \<le> room m' + cost"
    by auto
  then show ?case using Cons.IH[OF m'(2)] Cons.prems(2) r by auto
qed simp

lemma bound_handlers_run:
  assumes "holds m os" "cost * length rs \<le> room m" "find_entry target os = Some obj"
  shows "\<exists>m'. bind_all bind rs m = Inr m' \<and>
    exec cb target verb args m' w =
      run_bindings cb (o_object obj) verb args (o_bindings obj @ requests_for target rs) w"
proof -
  from bind_all_law[OF assms(1,2)] obtain m' where
    m': "bind_all bind rs m = Inr m'" "holds m' (bind_entries rs os)" by blast
  with exec_law[OF m'(2), of cb target verb args w] find_entry_bind_entries[OF assms(3), of rs]
  show ?thesis by simp
qed

end

interpretation dtab: verb_table dispatch_table_add dispatch_table_execute table_wf mem_left 2
proof unfold_locales
  show "\<exists>m'. dispatch_table_add t n b m = Inr m' \<and> table_wf m' (bind_entry t n b os) \<and>
      mem_left m \<le> mem_left m' + 2" if "table_wf m os" "2 \<le> mem_left m" for m os t n b
    using dispatch_table_add_correct[OF that, of t n b] by (auto split: if_splits)
qed (rule dispatch_table_execute_correct)

text \<open>Only the handlers of the verb matter, and they run in the order they were bound.\<close>

lemma run_bindings_filter:
  "run_bindings cb object verb args bs w =
     run_bindings cb object verb args (filter (\<lambda>b. b_verb b = verb) bs) w"
proof (induction bs arbitrary: w)
  case (Cons b bs)
  have "run_bindings cb object verb args bs =
      run_bindings cb object verb args (filter (\<lambda>b. b_verb b = verb) bs)"
    by (rule ext) (rule Cons.IH)
  then show ?case
    by (cases "b_verb b = verb") (simp_all only: run_bindings.simps filter.simps simp_thms if_True if_False)
qed simp

text \<open>The target an object ends up with: that of the first request for its name.\<close>

fun first_target :: "byte list \<Rightarrow> bind_request list \<Rightarrow> opaque option" where
  "first_target name [] = None"
| "first_target name ((t, n, b) # rs) = (if n = name then Some t else first_target name rs)"

lemma find_entry_bind_entries_new:
  "find_entry name os = None \<Longrightarrow>
     find_entry name (bind_entries rs os) = map_option (\<lambda>t.
       \<lparr>o_name = name, o_object = t, o_bindings = requests_for name rs\<rparr>) (first_target name rs)"
proof (induction rs arbitrary: os)
  case (Cons r rs)
  obtain t n b where r: "r = (t, n, b)" by (cases r)
  show ?case
  proof (cases "n = name")
    case True
    with Cons.prems r find_entry_bind_entries[of name "bind_entry t n b os" _ rs]
    show ?thesis by (simp add: find_entry_bind_entry requests_for_def)
  next
    case False
    with r have "requests_for name (r # rs) = requests_for name rs" by (simp add: requests_for_def)
    with False Cons.prems r Cons.IH[of "bind_entry t n b os"] show ?thesis
      by (simp add: find_entry_bind_entry)
  qed
qed simp

section \<open>The properties of the table\<close>

definition well_behaved :: "('a, 'w) callbacks \<Rightarrow> bool" where
  "well_behaved cb \<longleftrightarrow> (\<forall>f a w. returns (run_pre cb f a w)) \<and> (\<forall>f obj a w. returns (run_op cb f obj a w)) \<and>
     (\<forall>f a w. returns (run_post cb f a w))"

lemma call_hook_returns: "\<forall>f a w. returns (run f a w) \<Longrightarrow> \<exists>w'. call_hook run f a w = Inr w'"
  by (cases f) (auto simp: call_hook_def returns_iff)

lemma run_bindings_returns:
  assumes "well_behaved cb"
  shows "if \<exists>b \<in> set bs. b_verb b = verb \<and> b_op b = None
    then run_bindings cb object verb args bs w = Inl Null_Call
    else returns (run_bindings cb object verb args bs w)"
proof -
  from assms have pre: "\<forall>f a w. returns (run_pre cb f a w)"
    and op: "\<forall>f obj a w. returns (run_op cb f obj a w)"
    and post: "\<forall>f a w. returns (run_post cb f a w)" by (auto simp: well_behaved_def)
  show ?thesis
  proof (induction bs arbitrary: w)
  case (Cons b bs)
  show ?case
  proof (cases "b_verb b = verb")
    case True
    from call_hook_returns[OF pre] obtain w1 where
      w1: "call_hook (run_pre cb) (b_pre b) (b_preArgs b) w = Inr w1" by blast
    show ?thesis
    proof (cases "b_op b")
      case None
      with True w1 show ?thesis by simp
    next
      case (Some f)
      from op obtain w2 where w2: "run_op cb f object args w1 = Inr w2"
        unfolding returns_iff by blast
      from call_hook_returns[OF post] obtain w3 where
        w3: "call_hook (run_post cb) (b_post b) (b_postArgs b) w2 = Inr w3" by blast
      from True Some w1 w2 w3 Cons.IH[of w3] show ?thesis by simp
    qed
  next
    case False
    with Cons.IH[of w] show ?thesis by simp
  qed
  qed simp
qed

text \<open>C4: on a well-formed table and with memory for a node and a handler,
  \<open>dispatch_table_add\<close> returns with a well-formed table in which the binding is the last
  one of its object; a new name gets a new object at the end, an old one keeps its target.\<close>

theorem dispatch_table_add_refines:
  assumes "table_wf m os" "2 \<le> mem_left m"
  shows "\<exists>m'. dispatch_table_add target name b m = Inr m' \<and>
    table_wf m' (bind_entry target name b os) \<and> dispatch_table m' = dispatch_table m \<and>
    mem_left m' + (if name \<in> o_name ` set os then 1 else 2) = mem_left m"
  by (rule dispatch_table_add_correct[OF assms])

definition demo_mem :: dmem where
  "demo_mem = \<lparr>dnodes = [0 \<mapsto> \<lparr>n_name = [], n_next = NULL, n_handler = NULL, n_object = 0\<rparr>],
     dhandlers = Map.empty, next_addr = 1, mem_left = 8, dispatch_table = At 0 0\<rparr>"

definition demo_binding :: hc_binding where
  "demo_binding = \<lparr>b_verb = cstr ''run'', b_pre = None, b_preArgs = 0, b_op = Some 7,
     b_post = Some 9, b_postArgs = 5\<rparr>"

lemma demo_mem_wf: "table_wf demo_mem [\<lparr>o_name = [], o_object = 0, o_bindings = []\<rparr>]"
  by (auto simp: demo_mem_def table_wf_def table_at_def handler_addrs_def
      intro!: exI[of _ "[(0, [])]"])

text \<open>The table with one object "a" that has two handlers.\<close>

definition demo_full :: dmem where
  "demo_full = \<lparr>dnodes = [0 \<mapsto> \<lparr>n_name = [], n_next = At 1 0, n_handler = NULL, n_object = 0\<rparr>,
       1 \<mapsto> \<lparr>n_name = cstr ''a'', n_next = NULL, n_handler = At 2 0, n_object = 3\<rparr>],
     dhandlers = [2 \<mapsto> (handler_of demo_binding)\<lparr>h_next := At 3 0\<rparr>, 3 \<mapsto> handler_of demo_binding],
     next_addr = 4, mem_left = 8, dispatch_table = At 0 0\<rparr>"

lemma demo_full_wf:
  "table_wf demo_full [\<lparr>o_name = [], o_object = 0, o_bindings = []\<rparr>,
     \<lparr>o_name = cstr ''a'', o_object = 3, o_bindings = [demo_binding, demo_binding]\<rparr>]"
  by (auto simp: demo_full_def table_wf_def table_at_def handler_addrs_def handler_of_def
      demo_binding_def binding_of_def intro!: exI[of _ "[(0, []), (1, [2, 3])]"])

theorem dispatch_table_add_refines_witness:
  "\<exists>m'. dispatch_table_add 3 (cstr ''a'') demo_binding demo_mem = Inr m' \<and> mem_left m' = 6 \<and>
     table_wf m' [\<lparr>o_name = [], o_object = 0, o_bindings = []\<rparr>,
       \<lparr>o_name = cstr ''a'', o_object = 3, o_bindings = [demo_binding]\<rparr>]"
  using dispatch_table_add_refines[OF demo_mem_wf, of 3 "cstr ''a''" demo_binding]
  by (auto simp: demo_mem_def cstr_def)

text \<open>C3: from \<open>dispatch_table_init\<close> on, after any sequence of \<open>dispatch_table_add\<close>
  calls that memory allows, executing a verb on a name runs, on the target of the first binding
  of that name and in binding order, exactly the handlers bound for that name and verb, each as
  pre hook, operation, post hook; an unbound name runs nothing.\<close>

theorem dispatch_runs_bound_handlers:
  assumes "2 * length rs < mem_left m" "target \<noteq> []"
  shows "\<exists>m0 m1. dispatch_table_init m = Inr m0 \<and> bind_all dispatch_table_add rs m0 = Inr m1 \<and>
    dispatch_table_execute cb target verb args m1 w =
      (case first_target target rs of None \<Rightarrow> Inr w
       | Some t \<Rightarrow> run_bindings cb t verb args
           (filter (\<lambda>b. b_verb b = verb) (requests_for target rs)) w)"
proof -
  let ?os = "[\<lparr>o_name = [], o_object = 0, o_bindings = []\<rparr>]"
  from dispatch_table_init_correct[of m] assms(1) obtain m0 where
    m0: "dispatch_table_init m = Inr m0" "mem_left m0 = mem_left m - 1" "table_wf m0 ?os" by auto
  from m0(2) assms(1) have "2 * length rs \<le> mem_left m0" by simp
  from dtab.bind_all_law[OF m0(3) this] obtain m1 where
    m1: "bind_all dispatch_table_add rs m0 = Inr m1" "table_wf m1 (bind_entries rs ?os)" by blast
  have "find_entry target ?os = None" using assms(2) by simp
  from find_entry_bind_entries_new[OF this, of rs] m0(1) m1(1)
    dtab.exec_law[OF m1(2), of cb target verb args w]
    run_bindings_filter[of cb _ verb args "requests_for target rs" w]
  show ?thesis by (simp split: option.splits)
qed

text \<open>Callbacks that write down what they are called with.\<close>

definition log_callbacks :: "(nat, (nat \<times> nat \<times> nat) list) callbacks" where
  "log_callbacks = \<lparr>run_pre = (\<lambda>f a w. Inr (w @ [(0, f, a)])),
     run_op = (\<lambda>f obj a w. Inr (w @ [(Suc obj, f, a)])), run_post = (\<lambda>f a w. Inr (w @ [(1, f, a)]))\<rparr>"

theorem dispatch_runs_bound_handlers_witness:
  "\<exists>m0 m1. dispatch_table_init (demo_mem\<lparr>mem_left := 9\<rparr>) = Inr m0 \<and>
     bind_all dispatch_table_add [(3, cstr ''a'', demo_binding), (4, cstr ''b'', demo_binding),
       (4, cstr ''a'', demo_binding\<lparr>b_op := Some 8\<rparr>)] m0 = Inr m1 \<and>
     dispatch_table_execute log_callbacks (cstr ''a'') (cstr ''run'') 0 m1 [] =
       Inr [(4, 7, 0), (1, 9, 5), (4, 8, 0), (1, 9, 5)]"
  using dispatch_runs_bound_handlers[of "[(3, cstr ''a'', demo_binding), (4, cstr ''b'', demo_binding),
       (4, cstr ''a'', demo_binding\<lparr>b_op := Some 8\<rparr>)]" "demo_mem\<lparr>mem_left := 9\<rparr>" "cstr ''a''"
       log_callbacks "cstr ''run''" 0 "[]"]
  by (simp add: demo_binding_def requests_for_def cstr_def log_callbacks_def call_hook_def)

text \<open>C8: on a well-formed table \<open>dispatch_table_execute\<close> never reads through a bad pointer
  and always ends: the one fault it can add to those of the callbacks is the call of a null
  operation, which it logs but does not avoid.\<close>

theorem dispatch_table_execute_safe:
  assumes "table_wf m os" "well_behaved cb"
  shows "if \<exists>obj \<in> set os. o_name obj = target \<and>
      (\<exists>b \<in> set (o_bindings obj). b_verb b = verb \<and> b_op b = None)
    then dispatch_table_execute cb target verb args m w = Inl Null_Call
    else returns (dispatch_table_execute cb target verb args m w)"
proof -
  from assms(1) have "distinct (map o_name os)" by (auto simp: table_wf_def table_at_def)
  then have found: "(obj \<in> set os \<and> o_name obj = target) = (find_entry target os = Some obj)" for obj
    by (induction os) auto
  show ?thesis
  proof (cases "find_entry target os")
    case None
    with found have "target \<notin> o_name ` set os" by auto
    with None show ?thesis
      using dispatch_table_execute_correct[OF assms(1), of cb target verb args w] by auto
  next
    case (Some obj)
    with found have "x \<in> set os \<and> o_name x = target \<longleftrightarrow> x = obj" for x by auto
    then have "(\<exists>obj \<in> set os. o_name obj = target \<and> P obj) = P obj" for P
      by (simp add: Bex_def flip: conj_assoc)
    with Some run_bindings_returns[OF assms(2), of "o_bindings obj" verb "o_object obj" args w]
    show ?thesis
      using dispatch_table_execute_correct[OF assms(1), of cb target verb args w] by auto
  qed
qed

theorem dispatch_table_execute_safe_witness:
  "returns (dispatch_table_execute log_callbacks (cstr ''x'') (cstr ''run'') 0 demo_mem [])"
  using dispatch_table_execute_safe[OF demo_mem_wf, of log_callbacks "cstr ''x''" "cstr ''run''" 0 "[]"]
  by (simp add: well_behaved_def log_callbacks_def)

text \<open>C5: \<open>dispatch_table_remove\<close> does not meet its contract: removing a name that is bound
  writes through the null \<open>prev_node\<close>, since no code moves it along; removing a name that is
  not bound leaves the table as it is.\<close>

theorem dispatch_table_remove_null_deref:
  assumes "table_wf m os"
  shows "dispatch_table_remove name m =
    (if name \<in> o_name ` set os then Inl Null_Deref else Inr m)"
  by (rule dispatch_table_remove_outcome[OF assms])

theorem dispatch_table_remove_null_deref_witness:
  "dispatch_table_remove (cstr ''a'') demo_full = Inl Null_Deref \<and>
   dispatch_table_remove (cstr ''b'') demo_full = Inr demo_full"
  using dispatch_table_remove_null_deref[OF demo_full_wf, of "cstr ''a''"]
    dispatch_table_remove_null_deref[OF demo_full_wf, of "cstr ''b''"] by simp

text \<open>C6: \<open>dispatch_table_rebind\<close> does not meet its contract: on every initialised table, it
  walks the static table pointer past the first node as if the nodes were an array, and reads
  outside the block, whatever the name.\<close>

theorem dispatch_table_rebind_out_of_bounds:
  assumes "table_wf m os"
  shows "dispatch_table_rebind name target m = Inl Out_Of_Bounds"
  by (rule dispatch_table_rebind_outcome[OF assms])

theorem dispatch_table_rebind_out_of_bounds_witness:
  "dispatch_table_rebind (cstr ''a'') 4 demo_mem = Inl Out_Of_Bounds"
  by (rule dispatch_table_rebind_out_of_bounds[OF demo_mem_wf])



end
