(* ===== verification/Utf8.thy ===== *)
theory Utf8
  imports C_Base
begin

text \<open>
  \<open>src/lib/jansson-2.4/src/utf.c\<close>: UTF-8 encoding and decoding.  A \<open>char *\<close> into a
  NUL-terminated string is the rest of the string, and reading past the terminator is a fault.
  No value of these functions leaves the range of \<open>int32_t\<close>, so code points are integers and
  the bit operations are those of \<open>int\<close>; storing into a \<open>char\<close> reduces modulo 256.
\<close>

unbundle bit_operations_syntax

section \<open>The functions\<close>

definition to_char :: "int \<Rightarrow> byte" where
  "to_char x = word_of_int x"

text \<open>The result is the bytes written to \<open>buffer\<close>, their number being \<open>size\<close>.\<close>

definition utf8_encode :: "int \<Rightarrow> byte list option" where
  "utf8_encode codepoint =
     (if codepoint < 0 then None
      else if codepoint < 0x80 then Some [to_char codepoint]
      else if codepoint < 0x800
      then Some [to_char (0xC0 + drop_bit 6 (codepoint AND 0x7C0)),
                 to_char (0x80 + (codepoint AND 0x03F))]
      else if codepoint < 0x10000
      then Some [to_char (0xE0 + drop_bit 12 (codepoint AND 0xF000)),
                 to_char (0x80 + drop_bit 6 (codepoint AND 0x0FC0)),
                 to_char (0x80 + (codepoint AND 0x003F))]
      else if codepoint \<le> 0x10FFFF
      then Some [to_char (0xF0 + drop_bit 18 (codepoint AND 0x1C0000)),
                 to_char (0x80 + drop_bit 12 (codepoint AND 0x03F000)),
                 to_char (0x80 + drop_bit 6 (codepoint AND 0x000FC0)),
                 to_char (0x80 + (codepoint AND 0x00003F))]
      else None)"

definition utf8_check_first :: "byte \<Rightarrow> nat" where
  "utf8_check_first b =
     (let u = uint b in
      if u < 0x80 then 1
      else if 0x80 \<le> u \<and> u \<le> 0xBF then 0
      else if u = 0xC0 \<or> u = 0xC1 then 0
      else if 0xC2 \<le> u \<and> u \<le> 0xDF then 2
      else if 0xE0 \<le> u \<and> u \<le> 0xEF then 3
      else if 0xF0 \<le> u \<and> u \<le> 0xF4 then 4
      else 0)"

text \<open>The loop over the continuation bytes, with \<open>k = size - i\<close> of them to go.\<close>

fun check_full_loop :: "byte list \<Rightarrow> nat \<Rightarrow> nat \<Rightarrow> int \<Rightarrow> int option outcome" where
  "check_full_loop buffer i 0 val = Inr (Some val)"
| "check_full_loop buffer i (Suc k) val =
     obind (cstr_at buffer i) (\<lambda>b.
       let u = uint b in
       if u < 0x80 \<or> u > 0xBF then Inr None
       else check_full_loop buffer (Suc i) k (push_bit 6 val + (u AND 0x3F)))"

text \<open>\<open>None\<close> is the return value 0; otherwise 1 is returned and \<open>codepoint\<close> is set.\<close>

definition utf8_check_full :: "byte list \<Rightarrow> nat \<Rightarrow> int option outcome" where
  "utf8_check_full buffer size' =
     obind (cstr_at buffer 0) (\<lambda>b.
       let u = uint b in
       if size' \<noteq> 2 \<and> size' \<noteq> 3 \<and> size' \<noteq> 4 then Inr None
       else obind (check_full_loop buffer 1 (size' - 1)
           (if size' = 2 then u AND 0x1F else if size' = 3 then u AND 0xF else u AND 0x7)) (\<lambda>r.
         case r of None \<Rightarrow> Inr None
         | Some val \<Rightarrow>
             if val > 0x10FFFF then Inr None
             else if 0xD800 \<le> val \<and> val \<le> 0xDFFF then Inr None
             else if (size' = 2 \<and> val < 0x80) \<or> (size' = 3 \<and> val < 0x800) \<or>
                 (size' = 4 \<and> val < 0x10000) then Inr None
             else Inr (Some val)))"

text \<open>
  \<open>utf8_iterate\<close> returns null (\<open>None\<close>) or the new position; \<open>codepoint\<close> is set unless the
  string is at its end.
\<close>

definition utf8_iterate :: "byte list \<Rightarrow> (int option \<times> byte list) option outcome" where
  "utf8_iterate buffer =
     obind (cstr_at buffer 0) (\<lambda>b.
       if b = 0 then Inr (Some (None, buffer))
       else let count = utf8_check_first b in
         if count = 0 then Inr None
         else if count = 1 then Inr (Some (Some (uint b), drop count buffer))
         else obind (utf8_check_full buffer count) (\<lambda>r.
           case r of None \<Rightarrow> Inr None
           | Some val \<Rightarrow> Inr (Some (Some val, drop count buffer))))"

function check_string_loop :: "byte list \<Rightarrow> nat \<Rightarrow> nat \<Rightarrow> bool outcome" where
  "check_string_loop string n i =
     (if i < n
      then obind (cstr_at string i) (\<lambda>b.
        let count = utf8_check_first b in
        if count = 0 then Inr False
        else if count > 1
        then (if i + count > n then Inr False
              else obind (utf8_check_full (drop i string) count) (\<lambda>r.
                if r = None then Inr False
                else check_string_loop string n (i + (count - 1) + 1)))
        else check_string_loop string n (i + 1))
      else Inr True)"
  by pat_completeness auto
termination by (relation "measure (\<lambda>(string, n, i). n - i)") auto

declare check_string_loop.simps [simp del]

text \<open>A length of -1 asks for \<open>strlen\<close>.\<close>

definition utf8_check_string :: "byte list \<Rightarrow> int \<Rightarrow> bool outcome" where
  "utf8_check_string string len =
     check_string_loop string (if len = -1 then length (takeWhile (\<lambda>b. b \<noteq> 0) string) else nat len) 0"

section \<open>The encoding they implement\<close>

definition utf8_bytes :: "int \<Rightarrow> byte list" where
  "utf8_bytes c = map word_of_int
     (if c < 0x80 then [c]
      else if c < 0x800 then [0xC0 + c div 64, 0x80 + c mod 64]
      else if c < 0x10000 then [0xE0 + c div 4096, 0x80 + c div 64 mod 64, 0x80 + c mod 64]
      else [0xF0 + c div 262144, 0x80 + c div 4096 mod 64, 0x80 + c div 64 mod 64, 0x80 + c mod 64])"

text \<open>Unicode scalar values: the code points that are not halves of a surrogate pair.\<close>

definition scalar_value :: "int \<Rightarrow> bool" where
  "scalar_value c \<longleftrightarrow> 0 \<le> c \<and> c \<le> 0x10FFFF \<and> \<not> (0xD800 \<le> c \<and> c \<le> 0xDFFF)"

lemma bits_arith:
  "drop_bit 6 (c AND 0x7C0) = c div 64 mod 32" "c AND 0x3F = c mod 64"
  "drop_bit 12 (c AND 0xF000) = c div 4096 mod 16" "drop_bit 6 (c AND 0xFC0) = c div 64 mod 64"
  "drop_bit 18 (c AND 0x1C0000) = c div 262144 mod 8" "drop_bit 12 (c AND 0x3F000) = c div 4096 mod 64"
  "c AND 0x1F = c mod 32" "c AND 0xF = c mod 16" "c AND 7 = c mod 8"
  "push_bit 6 c = c * 64"
  for c :: int
proof -
  have m: "c AND 7 = c mod 8" "c AND 0xF = c mod 16" "c AND 0x1F = c mod 32" "c AND 0x3F = c mod 64" for c :: int
    using take_bit_eq_mask[of 3 c] take_bit_eq_mask[of 4 c] take_bit_eq_mask[of 5 c]
      take_bit_eq_mask[of 6 c]
    by (simp_all add: take_bit_eq_mod mask_eq_exp_minus_1)
  show "c AND 7 = c mod 8" "c AND 0xF = c mod 16" "c AND 0x1F = c mod 32" "c AND 0x3F = c mod 64"
    by (rule m)+
  show "push_bit 6 c = c * 64" by (simp add: push_bit_eq_mult)
  show "drop_bit 6 (c AND 0x7C0) = c div 64 mod 32" "drop_bit 12 (c AND 0xF000) = c div 4096 mod 16"
    "drop_bit 6 (c AND 0xFC0) = c div 64 mod 64" "drop_bit 18 (c AND 0x1C0000) = c div 262144 mod 8"
    "drop_bit 12 (c AND 0x3F000) = c div 4096 mod 64"
    by (simp_all only: drop_bit_and) (simp_all add: drop_bit_eq_div m)
qed

lemma utf8_encode_spec:
  "utf8_encode c = (if 0 \<le> c \<and> c \<le> 0x10FFFF then Some (utf8_bytes c) else None)"
proof -
  have small: "0 \<le> c \<Longrightarrow> c < 64 * 32 \<Longrightarrow> c div 64 mod 32 = c div 64"
    "0 \<le> c \<Longrightarrow> c < 0x10000 \<Longrightarrow> c div 4096 mod 16 = c div 4096"
    "0 \<le> c \<Longrightarrow> c \<le> 0x10FFFF \<Longrightarrow> c div 262144 mod 8 = c div 262144" by auto
  then show ?thesis
    by (auto simp: utf8_encode_def utf8_bytes_def to_char_def bits_arith simp del: drop_bit_and)
qed


section \<open>One sequence\<close>

definition is_cont :: "byte \<Rightarrow> bool" where
  "is_cont b \<longleftrightarrow> 0x80 \<le> uint b \<and> uint b \<le> 0xBF"

lemma uint_byte_bounds: "0 \<le> uint b" "uint b < 256" for b :: byte
  using uint_lt2p[of b] by simp_all

lemma cstr_at_Cons [simp]:
  "cstr_at (b # bs) 0 = Inr b" "cstr_at (b # bs) (Suc i) = cstr_at bs i" "cstr_at [] 0 = Inr 0"
  by (simp_all add: cstr_at_def)

lemma div_mod_64:
  "0 \<le> a \<Longrightarrow> a < 64 \<Longrightarrow> (q * 64 + a) div 64 = q"
  "0 \<le> a \<Longrightarrow> a < 64 \<Longrightarrow> (q * 64 + a) mod 64 = a" for a q :: int
  by simp_all

lemma div_4096: "v div 4096 = v div 64 div 64" for v :: int
  using zdiv_zmult2_eq[of 64 v 64] by simp

lemma div_262144: "v div 262144 = v div 64 div 64 div 64" for v :: int
  using zdiv_zmult2_eq[of 64 v 4096] by (simp add: div_4096)

lemma digits_3:
  fixes x y z v :: int
  assumes "0 \<le> y" "y < 64" "0 \<le> z" "z < 64" "v = (x * 64 + y) * 64 + z"
  shows "v div 4096 = x \<and> v div 64 mod 64 = y \<and> v mod 64 = z"
  by (simp only: assms(5) div_4096 div_mod_64[OF assms(3,4)] div_mod_64[OF assms(1,2)] simp_thms)

lemma digits_4:
  fixes x y z u v :: int
  assumes "0 \<le> y" "y < 64" "0 \<le> z" "z < 64" "0 \<le> u" "u < 64"
    and "v = ((x * 64 + y) * 64 + z) * 64 + u"
  shows "v div 262144 = x \<and> v div 4096 mod 64 = y \<and> v div 64 mod 64 = z \<and> v mod 64 = u"
  by (simp only: assms(7) div_4096 div_262144 div_mod_64[OF assms(5,6)] div_mod_64[OF assms(3,4)]
      div_mod_64[OF assms(1,2)] simp_thms)

lemma recombine:
  "(v div 4096 * 64 + v div 64 mod 64) * 64 + v mod 64 = v"
  "((v div 262144 * 64 + v div 4096 mod 64) * 64 + v div 64 mod 64) * 64 + v mod 64 = v"
  for v :: int
  by (simp_all only: div_4096 div_262144 div_mult_mod_eq)

lemma check_full_loop_simps:
  "check_full_loop (b0 # b1 # bs) 1 1 v = Inr (if is_cont b1 then Some (v * 64 + uint b1 mod 64) else None)"
  "check_full_loop (b0 # b1 # b2 # bs) 1 2 v = Inr (if is_cont b1 \<and> is_cont b2
     then Some ((v * 64 + uint b1 mod 64) * 64 + uint b2 mod 64) else None)"
  "check_full_loop (b0 # b1 # b2 # b3 # bs) 1 3 v = Inr (if is_cont b1 \<and> is_cont b2 \<and> is_cont b3
     then Some (((v * 64 + uint b1 mod 64) * 64 + uint b2 mod 64) * 64 + uint b3 mod 64) else None)"
  by (simp_all add: bits_arith is_cont_def eval_nat_numeral Let_def)

lemma check_full_2:
  assumes "V = uint b0 mod 32 * 64 + uint b1 mod 64"
  shows "utf8_check_full (b0 # b1 # bs) 2 = Inr (if is_cont b1 \<and> 0x80 \<le> V then Some V else None)"
proof -
  have "V < 2048"
    using pos_mod_bound[of 32 "uint b0"] pos_mod_bound[of 64 "uint b1"] by (simp add: assms)
  moreover have "check_full_loop (b0 # b1 # bs) 1 (2 - 1) (uint b0 mod 32) =
      Inr (if is_cont b1 then Some V else None)"
    using check_full_loop_simps(1) by (simp add: assms)
  ultimately show ?thesis by (simp add: utf8_check_full_def bits_arith)
qed

lemma check_full_3:
  assumes "V = (uint b0 mod 16 * 64 + uint b1 mod 64) * 64 + uint b2 mod 64"
  shows "utf8_check_full (b0 # b1 # b2 # bs) 3 = Inr (if is_cont b1 \<and> is_cont b2 \<and> 0x800 \<le> V \<and>
     scalar_value V then Some V else None)"
proof -
  have "V < 65536"
    using pos_mod_bound[of 16 "uint b0"] pos_mod_bound[of 64 "uint b1"]
      pos_mod_bound[of 64 "uint b2"] by (simp add: assms)
  moreover have "check_full_loop (b0 # b1 # b2 # bs) 1 (3 - 1) (uint b0 mod 16) =
      Inr (if is_cont b1 \<and> is_cont b2 then Some V else None)"
    using check_full_loop_simps(2) by (simp add: assms)
  ultimately show ?thesis by (simp add: utf8_check_full_def bits_arith scalar_value_def)
qed

lemma check_full_4:
  assumes "V = ((uint b0 mod 8 * 64 + uint b1 mod 64) * 64 + uint b2 mod 64) * 64 + uint b3 mod 64"
  shows "utf8_check_full (b0 # b1 # b2 # b3 # bs) 4 = Inr (if is_cont b1 \<and> is_cont b2 \<and> is_cont b3 \<and>
     0x10000 \<le> V \<and> V \<le> 0x10FFFF then Some V else None)"
proof -
  have "check_full_loop (b0 # b1 # b2 # b3 # bs) 1 (4 - 1) (uint b0 mod 8) =
      Inr (if is_cont b1 \<and> is_cont b2 \<and> is_cont b3 then Some V else None)"
    using check_full_loop_simps(3) by (simp add: assms)
  then show ?thesis by (simp add: utf8_check_full_def bits_arith)
qed

lemma word_of_int_uint_eq: "x = uint b \<Longrightarrow> word_of_int x = b" for b :: byte
  by simp

lemma cont_mod: "is_cont b \<Longrightarrow> uint b mod 64 = uint b - 0x80"
proof -
  assume "is_cont b"
  then have "uint b mod 64 = (uint b - 0x80) mod 64" "0 \<le> uint b - 0x80" "uint b - 0x80 < 64"
    by (simp_all add: is_cont_def mod_diff_eq[of _ 64 "0x80", symmetric])
  then show ?thesis by simp
qed

lemma uint_to_byte: "0 \<le> x \<Longrightarrow> x < 256 \<Longrightarrow> uint (word_of_int x :: byte) = x"
  by (simp add: uint_word_of_int)

lemma uint_cont_byte: "uint (word_of_int (0x80 + x mod 64) :: byte) = 0x80 + x mod 64"
  using pos_mod_bound[of 64 x] by (intro uint_to_byte) simp_all

lemma uint_lead_byte: "0 \<le> x \<Longrightarrow> x < 16 \<Longrightarrow> uint (word_of_int (0xF0 + x) :: byte) = 0xF0 + x"
  by (intro uint_to_byte) simp_all

lemma utf8_bytes_long:
  "0x10000 \<le> c \<Longrightarrow> utf8_bytes c = [word_of_int (0xF0 + c div 262144),
     word_of_int (0x80 + c div 4096 mod 64), word_of_int (0x80 + c div 64 mod 64),
     word_of_int (0x80 + c mod 64)]"
  by (simp add: utf8_bytes_def)

lemma sequence_2:
  assumes "0xC2 \<le> uint b0" "uint b0 \<le> 0xDF"
  shows "utf8_check_full (b0 # b1 # bs) 2 = Inr (Some v) \<longleftrightarrow>
    0x80 \<le> v \<and> v < 0x800 \<and> [b0, b1] = utf8_bytes v"
proof -
  have m: "uint b0 mod 32 = uint b0 - 0xC0"
    using assms mod_pos_pos_trivial[of "uint b0 - 0xC0" 32]
    by (simp add: mod_diff_eq[of _ 32 "0xC0", symmetric])
  show ?thesis
  proof
    assume "utf8_check_full (b0 # b1 # bs) 2 = Inr (Some v)"
    then have v: "is_cont b1" "v = (uint b0 - 0xC0) * 64 + (uint b1 - 0x80)"
      by (auto simp: check_full_2[OF refl] m cont_mod split: if_splits)
    from v(1) have "v div 64 = uint b0 - 0xC0" "v mod 64 = uint b1 - 0x80"
      unfolding v(2) is_cont_def by (intro div_mod_64; simp)+
    with v assms show "0x80 \<le> v \<and> v < 0x800 \<and> [b0, b1] = utf8_bytes v"
      by (auto simp: utf8_bytes_def is_cont_def)
  next
    assume v: "0x80 \<le> v \<and> v < 0x800 \<and> [b0, b1] = utf8_bytes v"
    then have "uint b0 = 0xC0 + v div 64" "uint b1 = 0x80 + v mod 64"
      by (auto simp: utf8_bytes_def uint_word_of_int)
    with v show "utf8_check_full (b0 # b1 # bs) 2 = Inr (Some v)"
      using m cont_mod[of b1] by (simp add: check_full_2[OF refl] is_cont_def)
  qed
qed


lemma sequence_3:
  assumes "0xE0 \<le> uint b0" "uint b0 \<le> 0xEF"
  shows "utf8_check_full (b0 # b1 # b2 # bs) 3 = Inr (Some v) \<longleftrightarrow>
    0x800 \<le> v \<and> v < 0x10000 \<and> scalar_value v \<and> [b0, b1, b2] = utf8_bytes v"
proof -
  have m: "uint b0 mod 16 = uint b0 - 0xE0"
    using assms mod_pos_pos_trivial[of "uint b0 - 0xE0" 16]
    by (simp add: mod_diff_eq[of _ 16 "0xE0", symmetric])
  show ?thesis
  proof
    assume "utf8_check_full (b0 # b1 # b2 # bs) 3 = Inr (Some v)"
    then have c: "is_cont b1" "is_cont b2" and ge: "0x800 \<le> v" "scalar_value v"
      and v: "v = ((uint b0 - 0xE0) * 64 + (uint b1 - 0x80)) * 64 + (uint b2 - 0x80)"
      by (auto simp: check_full_3[OF refl] m cont_mod split: if_splits)
    from c have "v div 4096 = uint b0 - 0xE0 \<and> v div 64 mod 64 = uint b1 - 0x80 \<and>
        v mod 64 = uint b2 - 0x80"
      by (intro digits_3[OF _ _ _ _ v]) (simp_all add: is_cont_def)
    moreover have "v < 0x10000" using v c assms by (simp add: is_cont_def)
    ultimately show "0x800 \<le> v \<and> v < 0x10000 \<and> scalar_value v \<and> [b0, b1, b2] = utf8_bytes v"
      using ge by (simp add: utf8_bytes_def)
  next
    assume v: "0x800 \<le> v \<and> v < 0x10000 \<and> scalar_value v \<and> [b0, b1, b2] = utf8_bytes v"
    then have b: "uint b0 = 0xE0 + v div 4096" "uint b1 = 0x80 + v div 64 mod 64" "uint b2 = 0x80 + v mod 64"
      by (auto simp: utf8_bytes_def uint_word_of_int)
    have c: "is_cont b1" "is_cont b2"
      unfolding is_cont_def b using pos_mod_bound[of 64] by (simp_all add: algebra_simps)
    have "v = (uint b0 mod 16 * 64 + uint b1 mod 64) * 64 + uint b2 mod 64"
      using recombine(1)[of v, symmetric] by (simp only: m cont_mod[OF c(1)] cont_mod[OF c(2)]) (simp only: b add_diff_cancel_left')
    from check_full_3[OF this] v c show "utf8_check_full (b0 # b1 # b2 # bs) 3 = Inr (Some v)"
      by simp
  qed
qed

lemma sequence_4:
  assumes "0xF0 \<le> uint b0" "uint b0 \<le> 0xF4"
  shows "utf8_check_full (b0 # b1 # b2 # b3 # bs) 4 = Inr (Some v) \<longleftrightarrow>
    0x10000 \<le> v \<and> v \<le> 0x10FFFF \<and> [b0, b1, b2, b3] = utf8_bytes v"
proof -
  have m: "uint b0 mod 8 = uint b0 - 0xF0"
    using assms mod_pos_pos_trivial[of "uint b0 - 0xF0" 8]
    by (simp add: mod_diff_eq[of _ 8 "0xF0", symmetric])
  show ?thesis
  proof
    assume *: "utf8_check_full (b0 # b1 # b2 # b3 # bs) 4 = Inr (Some v)"
    obtain V where V: "V = ((uint b0 mod 8 * 64 + uint b1 mod 64) * 64 + uint b2 mod 64) * 64 + uint b3 mod 64"
      by blast
    from * check_full_4[OF V] have c: "is_cont b1" "is_cont b2" "is_cont b3" and ge: "0x10000 \<le> v" "v \<le> 0x10FFFF"
      and "V = v"
      by (simp_all split: if_splits)
    then have v: "v = (((uint b0 - 0xF0) * 64 + (uint b1 - 0x80)) * 64 + (uint b2 - 0x80)) * 64 + (uint b3 - 0x80)"
      using V by (simp only: m cont_mod)
    from c have "v div 262144 = uint b0 - 0xF0 \<and> v div 4096 mod 64 = uint b1 - 0x80 \<and>
        v div 64 mod 64 = uint b2 - 0x80 \<and> v mod 64 = uint b3 - 0x80"
      by (intro digits_4[OF _ _ _ _ _ _ v]) (simp_all add: is_cont_def)
    then show "0x10000 \<le> v \<and> v \<le> 0x10FFFF \<and> [b0, b1, b2, b3] = utf8_bytes v"
      using ge by (simp add: utf8_bytes_def)
  next
    assume v: "0x10000 \<le> v \<and> v \<le> 0x10FFFF \<and> [b0, b1, b2, b3] = utf8_bytes v"
    have "0 \<le> v div 262144" "v div 262144 < 16"
      using v zdiv_mono1[of v "0x10FFFF" 262144] by (simp_all add: pos_imp_zdiv_nonneg_iff)
    moreover from v have "[b0, b1, b2, b3] = [word_of_int (0xF0 + v div 262144),
        word_of_int (0x80 + v div 4096 mod 64), word_of_int (0x80 + v div 64 mod 64),
        word_of_int (0x80 + v mod 64)]"
      by (simp only: utf8_bytes_long)
    ultimately have b: "uint b0 = 0xF0 + v div 262144" "uint b1 = 0x80 + v div 4096 mod 64"
      "uint b2 = 0x80 + v div 64 mod 64" "uint b3 = 0x80 + v mod 64"
      by (simp_all only: list.inject uint_cont_byte uint_lead_byte simp_thms)
    have c: "is_cont b1" "is_cont b2" "is_cont b3"
      unfolding is_cont_def b using pos_mod_bound[of 64] by (simp_all add: algebra_simps)
    have "v = ((uint b0 mod 8 * 64 + uint b1 mod 64) * 64 + uint b2 mod 64) * 64 + uint b3 mod 64"
      using recombine(2)[of v, symmetric]
      by (simp only: m cont_mod[OF c(1)] cont_mod[OF c(2)] cont_mod[OF c(3)]) (simp only: b
          add_diff_cancel_left')
    from check_full_4[OF this] v c show "utf8_check_full (b0 # b1 # b2 # b3 # bs) 4 = Inr (Some v)"
      by simp
  qed
qed


lemma check_first_cases:
  "utf8_check_first b = (if uint b < 0x80 then 1 else if 0xC2 \<le> uint b \<and> uint b \<le> 0xDF then 2
     else if 0xE0 \<le> uint b \<and> uint b \<le> 0xEF then 3
     else if 0xF0 \<le> uint b \<and> uint b \<le> 0xF4 then 4 else 0)"
  by (auto simp: utf8_check_first_def Let_def)

lemma length_utf8_bytes:
  "length (utf8_bytes c) = (if c < 0x80 then 1 else if c < 0x800 then 2 else if c < 0x10000 then 3 else 4)"
  by (simp add: utf8_bytes_def)

lemma utf8_bytes_nonempty [simp]: "utf8_bytes c \<noteq> []"
  by (simp add: utf8_bytes_def)

lemma uint_hd_utf8_bytes:
  assumes "scalar_value c"
  shows "uint (hd (utf8_bytes c)) = (if c < 0x80 then c else if c < 0x800 then 0xC0 + c div 64
    else if c < 0x10000 then 0xE0 + c div 4096 else 0xF0 + c div 262144)"
proof -
  have "0 \<le> c" "c \<le> 0x10FFFF" using assms by (auto simp: scalar_value_def)
  moreover from this have "0 \<le> c div 64" "0 \<le> c div 4096" "0 \<le> c div 262144" "c div 262144 \<le> 4"
    using zdiv_mono1[of c "0x10FFFF" 262144] by (simp_all add: pos_imp_zdiv_nonneg_iff)
  moreover have "c < 0x800 \<Longrightarrow> c div 64 < 32" "c < 0x10000 \<Longrightarrow> c div 4096 < 16" by simp_all
  ultimately show ?thesis
    by (auto simp: utf8_bytes_def uint_to_byte simp del: of_int_add of_int_numeral)
qed

lemma check_first_hd:
  assumes "scalar_value c"
  shows "utf8_check_first (hd (utf8_bytes c)) = length (utf8_bytes c)"
proof -
  have "0 \<le> c" "c \<le> 0x10FFFF" using assms by (auto simp: scalar_value_def)
  moreover from this have "c div 262144 \<le> 4" "0x10000 \<le> c \<Longrightarrow> 0 \<le> c div 262144"
    "0x80 \<le> c \<Longrightarrow> 2 \<le> c div 64" "0 \<le> c div 4096"
    using zdiv_mono1[of c "0x10FFFF" 262144] zdiv_mono1[of "0x80" c 64]
    by (simp_all add: pos_imp_zdiv_nonneg_iff)
  moreover have "c < 0x800 \<Longrightarrow> c div 64 < 32" "c < 0x10000 \<Longrightarrow> c div 4096 < 16" by simp_all
  ultimately show ?thesis
    unfolding check_first_cases uint_hd_utf8_bytes[OF assms] length_utf8_bytes by auto
qed

lemma scalar_value_nonneg: "scalar_value c \<Longrightarrow> 0 \<le> c"
  by (simp add: scalar_value_def)

lemma check_sequence:
  assumes "utf8_check_first (hd bs) = n" "1 < n" "n \<le> length bs"
  shows "utf8_check_full bs n = Inr (Some v) \<longleftrightarrow>
    scalar_value v \<and> length (utf8_bytes v) = n \<and> take n bs = utf8_bytes v"
proof -
  obtain b0 b1 r where bs: "bs = b0 # b1 # r"
    using assms by (cases bs; cases "tl bs") (auto simp: Suc_le_eq)
  from assms(1,2) bs consider "n = 2" "0xC2 \<le> uint b0" "uint b0 \<le> 0xDF"
    | "n = 3" "0xE0 \<le> uint b0" "uint b0 \<le> 0xEF" | "n = 4" "0xF0 \<le> uint b0" "uint b0 \<le> 0xF4"
    by (auto simp: check_first_cases split: if_splits)
  then show ?thesis
  proof cases
    case 1
    then show ?thesis using sequence_2[of b0 b1 r v] bs
      by (auto simp: length_utf8_bytes scalar_value_def numeral_2_eq_2 split: if_splits)
  next
    case 2
    with assms(3) bs obtain b2 r' where "r = b2 # r'" by (cases r) auto
    with 2 sequence_3[of b0 b1 b2 r' v] bs show ?thesis
      by (auto simp: length_utf8_bytes scalar_value_def numeral_3_eq_3 split: if_splits)
  next
    case 3
    with assms(3) bs obtain b2 r1 where "r = b2 # r1" by (cases r) auto
    moreover from this assms(3) 3 bs obtain b3 r2 where "r1 = b3 # r2" by (cases r1) auto
    ultimately show ?thesis using 3 sequence_4[of b0 b1 b2 b3 r2 v] bs
      by (auto simp: length_utf8_bytes scalar_value_def eval_nat_numeral split: if_splits)
  qed
qed


text \<open>A string that ends inside a sequence is cut by its terminator, never read past.\<close>

lemma check_full_loop_returns:
  "i \<le> length bs \<Longrightarrow> \<exists>r. check_full_loop bs i k v = Inr r \<and> (length bs < i + k \<longrightarrow> r = None)"
proof (induction k arbitrary: i v)
  case (Suc k)
  show ?case
  proof (cases "i < length bs")
    case True
    with Suc.IH[of "Suc i"] show ?thesis by (simp add: cstr_at_def Let_def)
  next
    case False
    with Suc.prems show ?thesis by (simp add: cstr_at_def Let_def)
  qed
qed simp

lemma check_full_returns:
  assumes "bs \<noteq> []"
  shows "\<exists>r. utf8_check_full bs n = Inr r \<and> (length bs < n \<longrightarrow> r = None)"
proof (cases "n \<noteq> 2 \<and> n \<noteq> 3 \<and> n \<noteq> 4")
  case True
  with assms show ?thesis by (simp add: utf8_check_full_def cstr_at_def Let_def)
next
  case False
  obtain b bs' where bs: "bs = b # bs'" using assms by (cases bs) auto
  let ?w = "if n = 2 then uint b AND 0x1F else if n = 3 then uint b AND 0xF else uint b AND 0x7"
  obtain r where "check_full_loop bs 1 (n - 1) ?w = Inr r" "length bs < 1 + (n - 1) \<longrightarrow> r = None"
    using check_full_loop_returns[of 1 bs "n - 1" ?w] bs by (auto simp del: check_full_loop.simps)
  moreover have "1 + (n - 1) = n" using False by auto
  ultimately have r: "check_full_loop bs 1 (n - 1) ?w = Inr r" "length bs < n \<longrightarrow> r = None" by auto
  have b: "cstr_at bs 0 = Inr b" by (simp add: bs)
  show ?thesis
    unfolding utf8_check_full_def b obind_Inr Let_def r(1)
    using False r(2) by (cases r) auto
qed

text \<open>Well-formed UTF-8: a sequence of encoded scalar values.\<close>

definition utf8_valid :: "byte list \<Rightarrow> bool" where
  "utf8_valid bs \<longleftrightarrow> (\<exists>cs. (\<forall>c \<in> set cs. scalar_value c) \<and> bs = concat (map utf8_bytes cs))"

lemma utf8_valid_Nil [simp]: "utf8_valid []"
  unfolding utf8_valid_def by (rule exI[of _ "[]"]) simp

lemma utf8_valid_append_iff:
  assumes "bs \<noteq> []"
  shows "utf8_valid bs \<longleftrightarrow> (\<exists>c r. scalar_value c \<and> bs = utf8_bytes c @ r \<and> utf8_valid r)"
proof
  assume "utf8_valid bs"
  then obtain cs where cs: "\<forall>c \<in> set cs. scalar_value c" "bs = concat (map utf8_bytes cs)"
    by (auto simp: utf8_valid_def)
  with assms obtain c cs' where "cs = c # cs'" by (cases cs) auto
  with cs show "\<exists>c r. scalar_value c \<and> bs = utf8_bytes c @ r \<and> utf8_valid r"
    unfolding utf8_valid_def by auto
next
  assume "\<exists>c r. scalar_value c \<and> bs = utf8_bytes c @ r \<and> utf8_valid r"
  then obtain c cs where "scalar_value c" "\<forall>c \<in> set cs. scalar_value c"
    "bs = utf8_bytes c @ concat (map utf8_bytes cs)" by (auto simp: utf8_valid_def)
  then show "utf8_valid bs" unfolding utf8_valid_def by (intro exI[of _ "c # cs"]) auto
qed

lemma utf8_valid_step:
  assumes "bs \<noteq> []" "n = utf8_check_first (hd bs)"
  shows "utf8_valid bs \<longleftrightarrow> n \<noteq> 0 \<and> n \<le> length bs \<and> utf8_valid (drop n bs) \<and>
    (\<exists>c. scalar_value c \<and> length (utf8_bytes c) = n \<and> take n bs = utf8_bytes c)"
proof
  assume "utf8_valid bs"
  then obtain c r where c: "scalar_value c" "bs = utf8_bytes c @ r" "utf8_valid r"
    using utf8_valid_append_iff[OF assms(1)] by blast
  then have "n = length (utf8_bytes c)" using check_first_hd[OF c(1)] assms(2) by simp
  with c show "n \<noteq> 0 \<and> n \<le> length bs \<and> utf8_valid (drop n bs) \<and>
    (\<exists>c. scalar_value c \<and> length (utf8_bytes c) = n \<and> take n bs = utf8_bytes c)" by auto
next
  assume "n \<noteq> 0 \<and> n \<le> length bs \<and> utf8_valid (drop n bs) \<and>
    (\<exists>c. scalar_value c \<and> length (utf8_bytes c) = n \<and> take n bs = utf8_bytes c)"
  then show "utf8_valid bs"
    unfolding utf8_valid_append_iff[OF assms(1)] by (metis append_take_drop_id)
qed

lemma ascii_sequence:
  assumes "utf8_check_first b = 1"
  shows "scalar_value (uint b)" "utf8_bytes (uint b) = [b]"
  using assms uint_byte_bounds[of b]
  by (auto simp: check_first_cases scalar_value_def utf8_bytes_def split: if_splits)

lemma check_string_loop_spec:
  "i \<le> length string \<Longrightarrow> check_string_loop string (length string) i = Inr (utf8_valid (drop i string))"
proof (induction "length string - i" arbitrary: i rule: less_induct)
  case less
  show ?case
  proof (cases "i < length string")
    case False
    with less.prems show ?thesis by (simp add: check_string_loop.simps)
  next
    case True
    let ?bs = "drop i string" and ?n = "utf8_check_first (string ! i)"
    from True have ne: "?bs \<noteq> []" and hd: "hd ?bs = string ! i" by (simp_all add: hd_drop_conv_nth)
    have at: "cstr_at string i = Inr (string ! i)" using True by (simp add: cstr_at_def)
    note valid = utf8_valid_step[OF ne, unfolded hd, OF refl]
    consider "?n = 0" | "?n = 1" | "1 < ?n" "length string < i + ?n" | "1 < ?n" "i + ?n \<le> length string"
      by linarith
    then show ?thesis
    proof cases
      case 1
      with True at valid show ?thesis by (subst check_string_loop.simps) simp
    next
      case 2
      have "take 1 ?bs = [string ! i]" using ne hd by (cases ?bs) auto
      with ascii_sequence[OF 2] 2 True valid have "utf8_valid ?bs \<longleftrightarrow> utf8_valid (drop (Suc i) string)"
        by auto
      with less.hyps[of "Suc i"] True 2 at show ?thesis by (subst check_string_loop.simps) simp
    next
      case 3
      then have "\<not> ?n \<le> length ?bs" by simp
      then have "\<not> utf8_valid ?bs" using valid by blast
      with 3 True at show ?thesis by (subst check_string_loop.simps) simp
    next
      case 4
      from check_full_returns[OF ne] obtain r where r: "utf8_check_full ?bs ?n = Inr r" by blast
      have "?n \<le> length ?bs" using 4 by simp
      from check_sequence[OF _ 4(1) this, unfolded hd, OF refl] r
      have r_eq: "r = Some c \<longleftrightarrow> scalar_value c \<and> length (utf8_bytes c) = ?n \<and> take ?n ?bs = utf8_bytes c" for c
        by auto
      have IH: "check_string_loop string (length string) (i + ?n) = Inr (utf8_valid (drop (i + ?n) string))"
        using less.hyps[of "i + ?n"] 4 by simp
      show ?thesis
      proof (cases r)
        case None
        with r_eq valid have "\<not> utf8_valid ?bs" by auto
        with None True at 4 r show ?thesis by (subst check_string_loop.simps) simp
      next
        case (Some c)
        with r_eq valid 4 have "utf8_valid ?bs \<longleftrightarrow> utf8_valid (drop (i + ?n) string)"
          by (auto simp: add.commute)
        with Some True at 4 r IH show ?thesis by (subst check_string_loop.simps) simp
      qed
    qed
  qed
qed


text \<open>One step of \<open>utf8_iterate\<close> decodes the first scalar value, when there is one.\<close>

lemma utf8_iterate_spec:
  assumes "bs \<noteq> []" "hd bs \<noteq> 0"
  shows "\<exists>r. utf8_iterate bs = Inr r \<and>
    (\<forall>c. r = Some (Some c, rest) \<longleftrightarrow> scalar_value c \<and> bs = utf8_bytes c @ rest) \<and>
    (\<forall>rest'. r \<noteq> Some (None, rest'))"
proof -
  let ?n = "utf8_check_first (hd bs)"
  have at: "cstr_at bs 0 = Inr (hd bs)" using assms(1) by (cases bs) auto
  have first: "scalar_value c \<and> bs = utf8_bytes c @ rest \<longleftrightarrow>
      scalar_value c \<and> length (utf8_bytes c) = ?n \<and> take ?n bs = utf8_bytes c \<and> rest = drop ?n bs" for c
  proof
    assume c: "scalar_value c \<and> bs = utf8_bytes c @ rest"
    then have "?n = length (utf8_bytes c)" using check_first_hd[of c] by simp
    with c show "scalar_value c \<and> length (utf8_bytes c) = ?n \<and> take ?n bs = utf8_bytes c \<and>
      rest = drop ?n bs" by simp
  next
    assume "scalar_value c \<and> length (utf8_bytes c) = ?n \<and> take ?n bs = utf8_bytes c \<and>
      rest = drop ?n bs"
    then show "scalar_value c \<and> bs = utf8_bytes c @ rest" by (metis append_take_drop_id)
  qed
  consider "?n = 0" | "?n = 1" | "1 < ?n" by linarith
  then show ?thesis
  proof cases
    case 1
    then show ?thesis using at assms(2) first by (auto simp: utf8_iterate_def)
  next
    case 2
    have "take 1 bs = [hd bs]" using assms(1) by (cases bs) auto
    moreover have "utf8_bytes c = [hd bs] \<and> scalar_value c \<longleftrightarrow> c = uint (hd bs)" for c
      using uint_hd_utf8_bytes[of c] length_utf8_bytes[of c] ascii_sequence[OF 2]
      by (auto split: if_splits)
    ultimately have "scalar_value c \<and> bs = utf8_bytes c @ rest \<longleftrightarrow> c = uint (hd bs) \<and> rest = drop 1 bs" for c
      unfolding first 2 by (metis length_Cons list.size(3) One_nat_def)
    then show ?thesis using 2 at assms(2) by (auto simp: utf8_iterate_def Let_def)
  next
    case 3
    obtain r where r: "utf8_check_full bs ?n = Inr r" "length bs < ?n \<longrightarrow> r = None"
      using check_full_returns[OF assms(1)] by blast
    have "r = Some c \<longleftrightarrow> scalar_value c \<and> length (utf8_bytes c) = ?n \<and> take ?n bs = utf8_bytes c" for c
    proof (cases "length bs < ?n")
      case True
      then have "length (take ?n bs) \<noteq> ?n" by simp
      then have "\<not> (length (utf8_bytes c) = ?n \<and> take ?n bs = utf8_bytes c)" by metis
      with True r(2) show ?thesis by simp
    next
      case False
      with check_sequence[OF refl 3, of c] r(1) show ?thesis by simp
    qed
    with r(1) 3 at assms(2) first show ?thesis
      by (cases r) (auto simp: utf8_iterate_def Let_def)
  qed
qed

lemma scalar_value_hd_nonzero:
  assumes "scalar_value c" "c \<noteq> 0"
  shows "hd (utf8_bytes c) \<noteq> 0"
proof
  assume "hd (utf8_bytes c) = 0"
  then have "uint (hd (utf8_bytes c)) = 0" by simp
  moreover have "0 \<le> c div 64" "0 \<le> c div 4096" "0 \<le> c div 262144"
    using scalar_value_nonneg[OF assms(1)] by (simp_all add: pos_imp_zdiv_nonneg_iff)
  ultimately show False using uint_hd_utf8_bytes[OF assms(1)] assms(2) by (simp split: if_splits)
qed

section \<open>The properties\<close>

text \<open>C10: \<open>utf8_encode\<close> and \<open>utf8_iterate\<close> are inverse.  Every scalar value but NUL
  encodes to bytes that \<open>utf8_iterate\<close> decodes to it, wherever they stand in a string; and it
  decodes nothing else: what it accepts is the encoding of what it answers.\<close>

theorem utf8_roundtrip:
  assumes "scalar_value c" "c \<noteq> 0"
  shows "\<exists>bs. utf8_encode c = Some bs \<and> utf8_iterate (bs @ rest) = Inr (Some (Some c, rest)) \<and>
    (\<forall>str. str \<noteq> [] \<longrightarrow> hd str \<noteq> 0 \<longrightarrow>
      utf8_iterate str = Inr (Some (Some c, rest)) \<longrightarrow> str = bs @ rest)"
proof (intro exI conjI allI impI)
  show "utf8_encode c = Some (utf8_bytes c)"
    using assms by (simp add: utf8_encode_spec scalar_value_def)
  have "utf8_bytes c @ rest \<noteq> []" "hd (utf8_bytes c @ rest) \<noteq> 0"
    using scalar_value_hd_nonzero[OF assms] by simp_all
  from utf8_iterate_spec[OF this, of rest] assms(1)
  show "utf8_iterate (utf8_bytes c @ rest) = Inr (Some (Some c, rest))" by auto
next
  fix str :: "byte list"
  assume "str \<noteq> []" "hd str \<noteq> 0" and it: "utf8_iterate str = Inr (Some (Some c, rest))"
  from utf8_iterate_spec[OF this(1,2), of rest] it show "str = utf8_bytes c @ rest" by auto
qed

theorem utf8_roundtrip_witness:
  "utf8_encode 0x20AC = Some [0xE2, 0x82, 0xAC] \<and>
   utf8_iterate [0xE2, 0x82, 0xAC, 0x21] = Inr (Some (Some 0x20AC, [0x21]))"
  using utf8_roundtrip[of "0x20AC" "[0x21]"]
  by (auto simp: scalar_value_def utf8_encode_spec utf8_bytes_def)



end
