(* ===== verification/Strbuffer.thy ===== *)
theory Strbuffer
  imports C_Base
begin

text \<open>
  \<open>src/lib/jansson-2.4/src/strbuffer.c\<close>: the growing byte buffer of the parser and the
  printer.  A block of memory is a list of cells, \<open>None\<close> being a byte that was allocated but
  never written; sizes are 64-bit words, so that the overflow checks of the code mean what they
  mean in C.  \<open>ok n\<close> says whether an allocation of \<open>n\<close> bytes succeeds.
\<close>

type_synonym block = "byte option list"

record strbuffer_t =
  sb_value :: "block option"
  sb_length :: size_t
  sb_size :: size_t

section \<open>Blocks of memory\<close>

definition jsonp_malloc :: "(size_t \<Rightarrow> bool) \<Rightarrow> size_t \<Rightarrow> block option" where
  "jsonp_malloc ok n = (if n \<noteq> 0 \<and> ok n then Some (replicate (unat n) None) else None)"

definition store_byte :: "block \<Rightarrow> nat \<Rightarrow> byte \<Rightarrow> block outcome" where
  "store_byte b i x = (if i < length b then Inr (b[i := Some x]) else Inl Out_Of_Bounds)"

definition load_byte :: "block \<Rightarrow> nat \<Rightarrow> byte outcome" where
  "load_byte b i =
     (if i < length b then (case b ! i of Some x \<Rightarrow> Inr x | None \<Rightarrow> Inl Out_Of_Bounds)
      else Inl Out_Of_Bounds)"

definition memcpy :: "block \<Rightarrow> nat \<Rightarrow> block \<Rightarrow> nat \<Rightarrow> block outcome" where
  "memcpy dst off src n =
     (if length src < n \<or> length dst < off + n then Inl Out_Of_Bounds
      else Inr (take off dst @ take n src @ drop (off + n) dst))"

definition need :: "'a option \<Rightarrow> 'a outcome" where
  "need p = (case p of None \<Rightarrow> Inl Null_Deref | Some b \<Rightarrow> Inr b)"

lemma need_simps [simp]: "need None = Inl Null_Deref" "need (Some b) = Inr b"
  by (simp_all add: need_def)

section \<open>The operations\<close>

definition STRBUFFER_MIN_SIZE :: size_t where
  "STRBUFFER_MIN_SIZE = 16"

definition STRBUFFER_FACTOR :: size_t where
  "STRBUFFER_FACTOR = 2"

definition STRBUFFER_SIZE_MAX :: size_t where
  "STRBUFFER_SIZE_MAX = - 1"

text \<open>Every operation that may fail returns 0 or -1 beside the buffer.\<close>

definition strbuffer_init :: "(size_t \<Rightarrow> bool) \<Rightarrow> strbuffer_t \<Rightarrow> (int \<times> strbuffer_t) outcome" where
  "strbuffer_init ok strbuff =
     (let strbuff = strbuff\<lparr>sb_size := STRBUFFER_MIN_SIZE, sb_length := 0,
        sb_value := jsonp_malloc ok STRBUFFER_MIN_SIZE\<rparr>
      in case sb_value strbuff of None \<Rightarrow> Inr (-1, strbuff)
         | Some b \<Rightarrow> obind (store_byte b 0 0) (\<lambda>b. Inr (0, strbuff\<lparr>sb_value := Some b\<rparr>)))"

definition strbuffer_close :: "strbuffer_t \<Rightarrow> strbuffer_t" where
  "strbuffer_close strbuff = strbuff\<lparr>sb_value := None, sb_size := 0, sb_length := 0\<rparr>"

definition strbuffer_clear :: "strbuffer_t \<Rightarrow> strbuffer_t outcome" where
  "strbuffer_clear strbuff =
     obind (need (sb_value strbuff)) (\<lambda>b.
     obind (store_byte b 0 0) (\<lambda>b.
     Inr (strbuff\<lparr>sb_length := 0, sb_value := Some b\<rparr>)))"

definition strbuffer_value :: "strbuffer_t \<Rightarrow> block option" where
  "strbuffer_value strbuff = sb_value strbuff"

definition strbuffer_steal_value ::
    "(size_t \<Rightarrow> bool) \<Rightarrow> strbuffer_t \<Rightarrow> (block option \<times> strbuffer_t) outcome" where
  "strbuffer_steal_value ok strbuff =
     (let result = sb_value strbuff
      in obind (strbuffer_init ok strbuff) (\<lambda>(_, strbuff). Inr (result, strbuff)))"

text \<open>
  The two halves of \<open>strbuffer_append_bytes\<close>: making room (\<open>None\<close> is the early return of
  -1, which leaves the buffer as it is), and writing.
\<close>

definition append_reserve ::
    "(size_t \<Rightarrow> bool) \<Rightarrow> strbuffer_t \<Rightarrow> size_t \<Rightarrow> strbuffer_t option outcome" where
  "append_reserve ok strbuff n =
     (if n \<ge> sb_size strbuff - sb_length strbuff
      then if sb_size strbuff > STRBUFFER_SIZE_MAX div STRBUFFER_FACTOR
          \<or> n > STRBUFFER_SIZE_MAX - 1
          \<or> sb_length strbuff > STRBUFFER_SIZE_MAX - 1 - n
        then Inr None
        else let new_size = max (sb_size strbuff * STRBUFFER_FACTOR) (sb_length strbuff + n + 1)
          in case jsonp_malloc ok new_size of None \<Rightarrow> Inr None
             | Some new_value \<Rightarrow>
                 obind (need (sb_value strbuff)) (\<lambda>old.
                 obind (memcpy new_value 0 old (unat (sb_length strbuff))) (\<lambda>new_value.
                 Inr (Some (strbuff\<lparr>sb_value := Some new_value, sb_size := new_size\<rparr>))))
      else Inr (Some strbuff))"

definition append_write :: "strbuffer_t \<Rightarrow> byte list \<Rightarrow> size_t \<Rightarrow> strbuffer_t outcome" where
  "append_write strbuff data n =
     obind (need (sb_value strbuff)) (\<lambda>b.
     obind (memcpy b (unat (sb_length strbuff)) (map Some data) (unat n)) (\<lambda>b.
     let new_length = sb_length strbuff + n
     in obind (store_byte b (unat new_length) 0) (\<lambda>b.
     Inr (strbuff\<lparr>sb_value := Some b, sb_length := new_length\<rparr>))))"

definition strbuffer_append_bytes ::
    "(size_t \<Rightarrow> bool) \<Rightarrow> strbuffer_t \<Rightarrow> byte list \<Rightarrow> size_t \<Rightarrow> (int \<times> strbuffer_t) outcome" where
  "strbuffer_append_bytes ok strbuff data n =
     obind (append_reserve ok strbuff n) (\<lambda>r.
     case r of None \<Rightarrow> Inr (-1, strbuff)
     | Some strbuff \<Rightarrow> obind (append_write strbuff data n) (\<lambda>strbuff. Inr (0, strbuff)))"

definition strbuffer_append ::
    "(size_t \<Rightarrow> bool) \<Rightarrow> strbuffer_t \<Rightarrow> byte list \<Rightarrow> (int \<times> strbuffer_t) outcome" where
  "strbuffer_append ok strbuff string = strbuffer_append_bytes ok strbuff string (of_nat (length string))"

definition strbuffer_append_byte ::
    "(size_t \<Rightarrow> bool) \<Rightarrow> strbuffer_t \<Rightarrow> byte \<Rightarrow> (int \<times> strbuffer_t) outcome" where
  "strbuffer_append_byte ok strbuff b = strbuffer_append_bytes ok strbuff [b] 1"

definition strbuffer_pop :: "strbuffer_t \<Rightarrow> (byte \<times> strbuffer_t) outcome" where
  "strbuffer_pop strbuff =
     (if sb_length strbuff > 0
      then let new_length = sb_length strbuff - 1
        in obind (need (sb_value strbuff)) (\<lambda>b.
           obind (load_byte b (unat new_length)) (\<lambda>c.
           obind (store_byte b (unat new_length) 0) (\<lambda>b.
           Inr (c, strbuff\<lparr>sb_value := Some b, sb_length := new_length\<rparr>))))
      else Inr (0, strbuff))"

section \<open>What a buffer holds\<close>

text \<open>The contents: as many written bytes as the length says, then the terminator.\<close>

definition sb_holds :: "strbuffer_t \<Rightarrow> byte list \<Rightarrow> bool" where
  "sb_holds sb bs \<longleftrightarrow> unat (sb_length sb) = length bs \<and>
     (\<exists>rest. sb_value sb = Some (map Some (bs @ [0]) @ rest) \<and>
        unat (sb_size sb) = Suc (length bs) + length rest)"

lemma sb_holdsE:
  assumes "sb_holds sb bs"
  obtains b where "sb_value sb = Some b" "length b = unat (sb_size sb)" "length bs < length b"
    "take (Suc (length bs)) b = map Some (bs @ [0])" "unat (sb_length sb) = length bs"
proof -
  from assms obtain rest where "sb_value sb = Some (map Some (bs @ [0]) @ rest)"
    "unat (sb_size sb) = Suc (length bs) + length rest" "unat (sb_length sb) = length bs"
    by (auto simp: sb_holds_def)
  then show thesis using that[of "map Some (bs @ [0]) @ rest"] by simp
qed

lemma sb_holdsI:
  assumes "sb_value sb = Some b" "length b = unat (sb_size sb)" "length bs < length b"
    "take (Suc (length bs)) b = map Some (bs @ [0])" "unat (sb_length sb) = length bs"
  shows "sb_holds sb bs"
  unfolding sb_holds_def
proof (intro conjI exI)
  show "sb_value sb = Some (map Some (bs @ [0]) @ drop (Suc (length bs)) b)"
    by (simp only: assms(1) assms(4)[symmetric] append_take_drop_id)
  show "unat (sb_size sb) = Suc (length bs) + length (drop (Suc (length bs)) b)"
    using assms(2,3) by simp
qed (rule assms)

lemma sb_holds_init:
  assumes "ok STRBUFFER_MIN_SIZE"
  shows "\<exists>sb'. strbuffer_init ok sb = Inr (0, sb') \<and> sb_holds sb' []"
proof -
  let ?b = "(replicate 16 None)[0 := Some (0 :: byte)]"
  have m: "jsonp_malloc ok STRBUFFER_MIN_SIZE = Some (replicate 16 None)"
    using assms by (simp add: jsonp_malloc_def STRBUFFER_MIN_SIZE_def)
  have "replicate 16 (None :: byte option) = None # replicate 15 None"
    using replicate_Suc[of 15 "None :: byte option"] by simp
  then have "take (Suc 0) ?b = [Some 0]" by (simp only: list_update.simps nat.case take_Suc_Cons take_0)
  then have "sb_holds (sb\<lparr>sb_size := STRBUFFER_MIN_SIZE, sb_length := 0, sb_value := Some ?b\<rparr>) []"
    by (intro sb_holdsI[of _ ?b]) (simp_all add: STRBUFFER_MIN_SIZE_def)
  then show ?thesis by (simp add: strbuffer_init_def m store_byte_def)
qed

lemma sb_holds_clear:
  assumes "sb_holds sb bs"
  shows "\<exists>sb'. strbuffer_clear sb = Inr sb' \<and> sb_holds sb' []"
proof -
  from assms obtain b where b: "sb_value sb = Some b" "length b = unat (sb_size sb)"
    "length bs < length b" by (rule sb_holdsE)
  then obtain x r where "b = x # r" by (cases b) auto
  with b have "sb_holds (sb\<lparr>sb_length := 0, sb_value := Some (b[0 := Some 0])\<rparr>) []"
    by (intro sb_holdsI[of _ "b[0 := Some 0]"]) auto
  with b show ?thesis by (auto simp: strbuffer_clear_def store_byte_def)
qed

lemma sb_holds_pop:
  assumes "sb_holds sb bs"
  shows "\<exists>sb'. strbuffer_pop sb = Inr (if bs = [] then 0 else last bs, sb') \<and> sb_holds sb' (butlast bs)"
proof (cases bs rule: rev_cases)
  case Nil
  with assms have "sb_length sb = 0" by (simp add: sb_holds_def unat_eq_0)
  with Nil assms show ?thesis by (simp add: strbuffer_pop_def)
next
  case (snoc ys y)
  with assms have len: "unat (sb_length sb) = Suc (length ys)" by (simp add: sb_holds_def)
  then have "sb_length sb \<noteq> 0" by auto
  then have "unat (sb_length sb - 1) = length ys" "0 < sb_length sb"
    using len by (simp_all add: unat_minus_one word_gt_0)
  with snoc assms show ?thesis
    by (auto simp: sb_holds_def strbuffer_pop_def load_byte_def store_byte_def nth_append
        list_update_append)
qed

lemma append_write_spec:
  assumes "sb_value sb = Some b" "length b = unat (sb_size sb)" "take (length bs) b = map Some bs"
    "length bs + length data < length b" "unat (sb_length sb) = length bs"
  shows "\<exists>sb'. append_write sb data (of_nat (length data)) = Inr sb' \<and> sb_holds sb' (bs @ data)"
proof -
  let ?b' = "map Some (bs @ data) @ drop (length bs + length data) b"
  let ?r = "drop (length bs + length data) b"
  from assms(4) obtain x r where r: "?r = x # r" by (cases ?r) auto
  have lr: "Suc (length bs + length data) + length r = length b"
    using arg_cong[OF r, of length] assms(4) by simp
  have m: "memcpy b (length bs) (map Some data) (length data) = Inr ?b'"
    using assms by (simp add: memcpy_def)
  let ?b'' = "map Some (bs @ data @ [0]) @ r"
  have st: "store_byte ?b' (length bs + length data) 0 = Inr ?b''"
    unfolding r by (simp add: store_byte_def list_update_append)
  have lt: "length bs + length data < 2 ^ 64"
    using assms(2,4) unat_lt_64[of "sb_size sb"] by simp
  have n: "unat (of_nat (length data) :: size_t) = length data" using lt by (simp add: unat_of_nat)
  have l: "unat (sb_length sb + of_nat (length data)) = length bs + length data"
    using lt assms(5) n by (simp add: unat_word_ariths)
  then have "sb_holds (sb\<lparr>sb_value := Some ?b'', sb_length := sb_length sb + of_nat (length data)\<rparr>) (bs @ data)"
    using lr assms(2) by (intro sb_holdsI[of _ ?b'']) simp_all
  moreover have "append_write sb data (of_nat (length data)) =
      Inr (sb\<lparr>sb_value := Some ?b'', sb_length := sb_length sb + of_nat (length data)\<rparr>)"
    unfolding append_write_def Let_def assms(1,5) need_simps obind_Inr n m l st by simp
  ultimately show ?thesis by blast
qed

text \<open>Whether the buffer can take \<open>n\<close> more bytes: there is room, or it can grow.\<close>

definition sb_grown :: "strbuffer_t \<Rightarrow> nat \<Rightarrow> nat" where
  "sb_grown sb n = max (2 * unat (sb_size sb)) (unat (sb_length sb) + n + 1)"

definition sb_accepts :: "(size_t \<Rightarrow> bool) \<Rightarrow> strbuffer_t \<Rightarrow> nat \<Rightarrow> bool" where
  "sb_accepts ok sb n \<longleftrightarrow> unat (sb_length sb) + n < unat (sb_size sb) \<or>
     sb_grown sb n < 2 ^ 64 \<and> ok (of_nat (sb_grown sb n))"

lemma sb_checks:
  assumes "unat (sb_length sb) < unat (sb_size sb)" "n < 2 ^ 64"
  shows "(of_nat n \<ge> sb_size sb - sb_length sb) \<longleftrightarrow> \<not> unat (sb_length sb) + n < unat (sb_size sb)"
    and "sb_size sb > STRBUFFER_SIZE_MAX div STRBUFFER_FACTOR \<or> (of_nat n :: size_t) > STRBUFFER_SIZE_MAX - 1 \<or>
      sb_length sb > STRBUFFER_SIZE_MAX - 1 - of_nat n \<longleftrightarrow> \<not> sb_grown sb n < 2 ^ 64"
    and "sb_grown sb n < 2 ^ 64 \<Longrightarrow>
      max (sb_size sb * STRBUFFER_FACTOR) (sb_length sb + of_nat n + 1) = of_nat (sb_grown sb n)"
proof -
  have n: "unat (of_nat n :: size_t) = n" using assms(2) by (simp add: unat_of_nat)
  have "sb_length sb \<le> sb_size sb" using assms(1) by (simp add: word_le_nat_alt)
  then have d: "unat (sb_size sb - sb_length sb) = unat (sb_size sb) - unat (sb_length sb)"
    by (simp add: unat_sub)
  show "(of_nat n \<ge> sb_size sb - sb_length sb) \<longleftrightarrow> \<not> unat (sb_length sb) + n < unat (sb_size sb)"
    using assms(1) by (auto simp: word_le_nat_alt n d)
  have half: "unat (STRBUFFER_SIZE_MAX div STRBUFFER_FACTOR) = 2 ^ 63 - 1"
    by (simp add: STRBUFFER_SIZE_MAX_def STRBUFFER_FACTOR_def unat_div)
  have mx: "unat (STRBUFFER_SIZE_MAX - 1) = 2 ^ 64 - 2"
    by (simp add: STRBUFFER_SIZE_MAX_def)
  show "sb_size sb > STRBUFFER_SIZE_MAX div STRBUFFER_FACTOR \<or> (of_nat n :: size_t) > STRBUFFER_SIZE_MAX - 1 \<or>
      sb_length sb > STRBUFFER_SIZE_MAX - 1 - of_nat n \<longleftrightarrow> \<not> sb_grown sb n < 2 ^ 64"
  proof (cases "n \<le> 2 ^ 64 - 2")
    case True
    then have "of_nat n \<le> STRBUFFER_SIZE_MAX - 1" by (simp add: word_le_nat_alt n mx)
    then have "unat (STRBUFFER_SIZE_MAX - 1 - of_nat n) = 2 ^ 64 - 2 - n"
      by (simp add: unat_sub mx n)
    with True show ?thesis
      by (auto simp: word_less_nat_alt half mx n sb_grown_def)
  next
    case False
    then show ?thesis by (auto simp: word_less_nat_alt mx n sb_grown_def)
  qed
  assume g: "sb_grown sb n < 2 ^ 64"
  have "unat (sb_size sb * STRBUFFER_FACTOR) = 2 * unat (sb_size sb)"
    using g by (simp add: unat_word_ariths STRBUFFER_FACTOR_def sb_grown_def)
  moreover have "unat (sb_length sb + of_nat n + 1) = unat (sb_length sb) + n + 1"
    using g n by (simp add: unat_word_ariths sb_grown_def)
  ultimately have "unat (max (sb_size sb * STRBUFFER_FACTOR) (sb_length sb + of_nat n + 1)) = sb_grown sb n"
    by (simp add: max_def word_le_nat_alt sb_grown_def)
  then show "max (sb_size sb * STRBUFFER_FACTOR) (sb_length sb + of_nat n + 1) = of_nat (sb_grown sb n)"
    using g by (simp add: word_unat_eq_iff unat_of_nat)
qed

lemma append_reserve_spec:
  assumes "sb_value sb = Some b" "length b = unat (sb_size sb)" "length bs < length b"
    "take (length bs) b = map Some bs" "unat (sb_length sb) = length bs" "n < 2 ^ 64"
  shows "if sb_accepts ok sb n
    then \<exists>sb' b'. append_reserve ok sb (of_nat n) = Inr (Some sb') \<and> sb_value sb' = Some b' \<and>
      length b' = unat (sb_size sb') \<and> length bs + n < length b' \<and>
      take (length bs) b' = map Some bs \<and> unat (sb_length sb') = length bs
    else append_reserve ok sb (of_nat n) = Inr None"
proof -
  have lt: "unat (sb_length sb) < unat (sb_size sb)" using assms by simp
  note chk = sb_checks[OF lt assms(6)]
  consider "unat (sb_length sb) + n < unat (sb_size sb)"
    | "\<not> unat (sb_length sb) + n < unat (sb_size sb)" "\<not> sb_grown sb n < 2 ^ 64"
    | "\<not> unat (sb_length sb) + n < unat (sb_size sb)" "sb_grown sb n < 2 ^ 64" by blast
  then show ?thesis
  proof cases
    case 1
    with assms show ?thesis by (simp add: append_reserve_def chk(1) sb_accepts_def)
  next
    case 2
    then show ?thesis by (simp add: append_reserve_def chk(1) chk(2) sb_accepts_def)
  next
    case 3
    let ?g = "sb_grown sb n" and ?w = "of_nat (sb_grown sb n) :: size_t"
    have g: "unat ?w = ?g" using 3 by (simp add: unat_of_nat)
    have pos: "?w \<noteq> 0"
    proof
      assume "?w = 0"
      then have "?g = 0" using g by simp
      then show False by (simp add: sb_grown_def)
    qed
    have ge: "length bs + n < ?g" using assms(5) by (simp add: sb_grown_def)
    let ?nb = "take (length bs) b @ drop (length bs) (replicate ?g None)"
    have m: "memcpy (replicate ?g None) 0 b (length bs) = Inr ?nb"
      using ge assms(3) by (simp add: memcpy_def)
    have res: "append_reserve ok sb (of_nat n) = (if ok ?w
        then Inr (Some (sb\<lparr>sb_value := Some ?nb, sb_size := ?w\<rparr>)) else Inr None)"
      unfolding append_reserve_def chk(1) chk(2) chk(3)[OF 3(2)] Let_def
      using 3 pos by (simp add: jsonp_malloc_def g assms(1,5) m)
    show ?thesis
      using 3 res assms(3-5) ge g by (simp add: sb_accepts_def)
  qed
qed

lemma strbuffer_append_bytes_spec:
  assumes "sb_holds sb bs" "length data < 2 ^ 64"
  shows "if sb_accepts ok sb (length data)
    then \<exists>sb'. strbuffer_append_bytes ok sb data (of_nat (length data)) = Inr (0, sb') \<and>
      sb_holds sb' (bs @ data)
    else strbuffer_append_bytes ok sb data (of_nat (length data)) = Inr (-1, sb)"
proof -
  from assms(1) obtain b where b: "sb_value sb = Some b" "length b = unat (sb_size sb)"
    "length bs < length b" "take (Suc (length bs)) b = map Some (bs @ [0])"
    "unat (sb_length sb) = length bs" by (rule sb_holdsE)
  have tk: "take (length bs) b = map Some bs"
    using arg_cong[OF b(4), of "take (length bs)"] by (simp add: min_def)
  note reserve = append_reserve_spec[OF b(1-3) tk b(5) assms(2), of ok]
  show ?thesis
  proof (cases "sb_accepts ok sb (length data)")
    case True
    with reserve obtain sb' b' where r:
      "append_reserve ok sb (of_nat (length data)) = Inr (Some sb')" "sb_value sb' = Some b'"
      "length b' = unat (sb_size sb')" "length bs + length data < length b'"
      "take (length bs) b' = map Some bs" "unat (sb_length sb') = length bs" by auto
    from append_write_spec[OF r(2,3,5,4,6)] r(1) True show ?thesis
      by (auto simp: strbuffer_append_bytes_def)
  next
    case False
    with reserve show ?thesis by (simp add: strbuffer_append_bytes_def)
  qed
qed


text \<open>A sequence of appends, stopping at the first that fails.\<close>

fun append_all ::
    "(size_t \<Rightarrow> bool) \<Rightarrow> strbuffer_t \<Rightarrow> byte list list \<Rightarrow> (int \<times> strbuffer_t) outcome" where
  "append_all ok sb [] = Inr (0, sb)"
| "append_all ok sb (d # ds) =
     obind (strbuffer_append ok sb d) (\<lambda>(r, sb).
       if r = 0 then append_all ok sb ds else Inr (r, sb))"

lemma strbuffer_append_bytes_size:
  assumes "strbuffer_append_bytes ok sb data (of_nat (length data)) = Inr (r, sb')"
    and "sb_holds sb bs" "length data < 2 ^ 64"
  shows "unat (sb_size sb') = unat (sb_size sb) \<or>
    unat (sb_size sb') = sb_grown sb (length data) \<and> unat (sb_size sb) \<le> length bs + length data"
proof -
  from assms(2) have lt: "unat (sb_length sb) < unat (sb_size sb)" and
    l: "unat (sb_length sb) = length bs" by (auto simp: sb_holds_def)
  note chk = sb_checks[OF lt assms(3)]
  have w: "append_write sb1 data n = Inr sb2 \<Longrightarrow> sb_size sb2 = sb_size sb1" for sb1 sb2 n
    by (auto simp: append_write_def obind_eq_Inr Let_def)
  have g: "sb_grown sb (length data) < 2 ^ 64 \<Longrightarrow>
      unat (of_nat (sb_grown sb (length data)) :: size_t) = sb_grown sb (length data)"
    by (simp add: unat_of_nat)
  from assms(1) show ?thesis
    unfolding strbuffer_append_bytes_def append_reserve_def chk(1) chk(2) Let_def
    using l g chk(3)
    by (auto simp: obind_eq_Inr dest!: w split: if_splits option.splits)
qed

lemma append_all_returns:
  assumes "\<And>n. ok n" "T < 2 ^ 61"
  shows "sb_holds sb bs \<Longrightarrow> length bs + length (concat ds) \<le> T \<Longrightarrow> unat (sb_size sb) \<le> 2 * T + 16 \<Longrightarrow>
    \<exists>sb'. append_all ok sb ds = Inr (0, sb') \<and> sb_holds sb' (bs @ concat ds)"
proof (induction ds arbitrary: sb bs)
  case (Cons d ds)
  have d: "length d < 2 ^ 64" "length bs + length d \<le> T" using Cons.prems(2) assms(2) by simp_all
  have l: "unat (sb_length sb) = length bs" using Cons.prems(1) by (auto simp: sb_holds_def)
  have "sb_accepts ok sb (length d)"
    using assms Cons.prems(3) d by (simp add: sb_accepts_def sb_grown_def l)
  with strbuffer_append_bytes_spec[OF Cons.prems(1) d(1), of ok] obtain sb1 where
    s1: "strbuffer_append ok sb d = Inr (0, sb1)" "sb_holds sb1 (bs @ d)"
    by (auto simp: strbuffer_append_def)
  have "unat (sb_size sb1) \<le> 2 * T + 16"
    using strbuffer_append_bytes_size[OF s1(1)[unfolded strbuffer_append_def] Cons.prems(1) d(1)]
      Cons.prems(3) d(2) by (auto simp: sb_grown_def l)
  with Cons.IH[OF s1(2)] Cons.prems(2) s1(1) show ?case by simp
qed simp

section \<open>The properties\<close>

text \<open>C12: a string buffer that holds \<open>bs\<close> accepts \<open>data\<close> exactly when there is room or the
  doubled or fitted size stays below 2 to the 64 and can be allocated; it then holds
  \<open>bs @ data\<close>, NUL-terminated, and otherwise returns -1 with nothing changed.  No size
  computation wraps around and no byte is written outside the block.\<close>

theorem strbuffer_append_bytes_correct:
  assumes "sb_holds sb bs" "length data < 2 ^ 64"
  shows "if sb_accepts ok sb (length data)
    then \<exists>sb'. strbuffer_append_bytes ok sb data (of_nat (length data)) = Inr (0, sb') \<and>
      sb_holds sb' (bs @ data)
    else strbuffer_append_bytes ok sb data (of_nat (length data)) = Inr (-1, sb)"
  by (rule strbuffer_append_bytes_spec[OF assms])

theorem strbuffer_append_bytes_correct_witness:
  "strbuffer_append_bytes (\<lambda>_. False)
     \<lparr>sb_value = Some [Some 7, Some 0, None], sb_length = 1, sb_size = 3\<rparr> [8, 9] 2 =
   Inr (-1, \<lparr>sb_value = Some [Some 7, Some 0, None], sb_length = 1, sb_size = 3\<rparr>)"
proof -
  let ?sb = "\<lparr>sb_value = Some [Some 7, Some 0, None], sb_length = 1, sb_size = 3\<rparr> :: strbuffer_t"
  have "sb_holds ?sb [7]" "\<not> sb_accepts (\<lambda>_. False) ?sb (length [8 :: byte, 9])"
    by (simp_all add: sb_holds_def sb_accepts_def)
  from strbuffer_append_bytes_correct[OF this(1), of "[8, 9]" "\<lambda>_. False"] this(2)
  show ?thesis by simp
qed

text \<open>C13: a fresh buffer takes any sequence of strings of less than 2 to the 61 bytes together
  as long as memory lasts, and then holds their concatenation.\<close>

theorem strbuffer_build_string:
  assumes "\<And>n. ok n" "length (concat ds) < 2 ^ 61"
  shows "\<exists>sb0 sb'. strbuffer_init ok sb = Inr (0, sb0) \<and> append_all ok sb0 ds = Inr (0, sb') \<and>
    sb_holds sb' (concat ds)"
proof -
  from sb_holds_init[of ok sb] assms(1) obtain sb0 where
    sb0: "strbuffer_init ok sb = Inr (0, sb0)" "sb_holds sb0 []" by blast
  have "unat (sb_size sb0) = 16"
    using sb0(1) assms(1)
    by (auto simp: strbuffer_init_def jsonp_malloc_def STRBUFFER_MIN_SIZE_def store_byte_def)
  with append_all_returns[of ok, OF assms(1) assms(2) sb0(2), of ds] sb0(1) show ?thesis by auto
qed

theorem strbuffer_build_string_witness:
  "\<exists>sb0 sb'. strbuffer_init (\<lambda>_. True) \<lparr>sb_value = None, sb_length = 0, sb_size = 0\<rparr> = Inr (0, sb0) \<and>
     append_all (\<lambda>_. True) sb0 [cstr ''ab'', cstr ''c''] = Inr (0, sb') \<and> sb_holds sb' (cstr ''abc'')"
  using strbuffer_build_string[of "\<lambda>_. True" "[cstr ''ab'', cstr ''c'']"
      "\<lparr>sb_value = None, sb_length = 0, sb_size = 0\<rparr>"] by simp

end
