(* ===== verification/Hashtable.thy ===== *)
theory Hashtable
  imports C_Base "HOL-Library.Multiset"
begin

text \<open>
  \<open>src/lib/jansson-2.4/src/hashtable.c\<close>: the hash table under a JSON object.  The pairs form
  one circular doubly linked list through the table's own list head; a bucket is a stretch of
  that ring, given by its first and last node.  Memory is explicit: address 0 is the list head
  \<open>&hashtable->list\<close>, every other address is the \<open>list\<close> member of a pair, and an access
  through an address that holds no pair is a fault.  The table is generic in its values.
  \<open>size_t\<close> counters are natural numbers (one per allocated pair, they cannot wrap); hashes are
  64-bit words, which do wrap.

  What the code calls outside this file is passed in: \<open>try_malloc\<close> says whether the next
  allocation succeeds, and \<open>release\<close> is \<open>json_decref\<close>, which is defined over the tables
  themselves in \<open>value.c\<close>.  Both act on a state of the caller.
\<close>

unbundle bit_operations_syntax

section \<open>The structs\<close>


record 'v pair_t =
  pair_hash :: size_t
  pair_prev :: nat
  pair_next :: nat
  pair_value :: 'v
  pair_serial :: nat
  pair_key :: "byte list"

record bucket_t =
  first_node :: nat
  last_node :: nat

text \<open>
  \<open>pairs\<close> holds the live pairs and \<open>next_pair\<close> the next address for one; \<open>buckets\<close> is
  \<open>None\<close> when the pointer is null.
\<close>

record 'v hashtable_t =
  ht_size :: nat
  buckets :: "bucket_t list option"
  num_buckets_index :: nat
  list_prev :: nat
  list_next :: nat
  pairs :: "nat \<rightharpoonup> 'v pair_t"
  next_pair :: nat

record ('v, 's) runtime =
  try_malloc :: "'s \<Rightarrow> bool \<times> 's"
  release :: "'v \<Rightarrow> 's \<Rightarrow> 's outcome"

section \<open>Hashing\<close>

text \<open>\<open>char\<close> is signed: the conversion to \<open>size_t\<close> extends the sign.\<close>

fun hash_loop :: "byte list \<Rightarrow> size_t \<Rightarrow> size_t" where
  "hash_loop [] hash = hash"
| "hash_loop (c # str) hash =
     (if c = 0 then hash else hash_loop str ((push_bit 5 hash + hash) + scast c))"

definition hash_str :: "byte list \<Rightarrow> size_t" where
  "hash_str str = hash_loop str 5381"

section \<open>The ring\<close>

definition get_pair :: "'v hashtable_t \<Rightarrow> nat \<Rightarrow> 'v pair_t outcome" where
  "get_pair ht a =
     (if a = 0 then Inl Out_Of_Bounds
      else case pairs ht a of None \<Rightarrow> Inl Use_After_Free | Some p \<Rightarrow> Inr p)"

definition get_next :: "'v hashtable_t \<Rightarrow> nat \<Rightarrow> nat outcome" where
  "get_next ht a = (if a = 0 then Inr (list_next ht) else obind (get_pair ht a) (\<lambda>p. Inr (pair_next p)))"

definition get_prev :: "'v hashtable_t \<Rightarrow> nat \<Rightarrow> nat outcome" where
  "get_prev ht a = (if a = 0 then Inr (list_prev ht) else obind (get_pair ht a) (\<lambda>p. Inr (pair_prev p)))"

definition set_next :: "nat \<Rightarrow> nat \<Rightarrow> 'v hashtable_t \<Rightarrow> 'v hashtable_t outcome" where
  "set_next a b ht =
     (if a = 0 then Inr (ht\<lparr>list_next := b\<rparr>)
      else obind (get_pair ht a) (\<lambda>p. Inr (ht\<lparr>pairs := (pairs ht)(a \<mapsto> p\<lparr>pair_next := b\<rparr>)\<rparr>)))"

definition set_prev :: "nat \<Rightarrow> nat \<Rightarrow> 'v hashtable_t \<Rightarrow> 'v hashtable_t outcome" where
  "set_prev a b ht =
     (if a = 0 then Inr (ht\<lparr>list_prev := b\<rparr>)
      else obind (get_pair ht a) (\<lambda>p. Inr (ht\<lparr>pairs := (pairs ht)(a \<mapsto> p\<lparr>pair_prev := b\<rparr>)\<rparr>)))"

definition list_init :: "nat \<Rightarrow> 'v hashtable_t \<Rightarrow> 'v hashtable_t outcome" where
  "list_init list ht = obind (set_next list list ht) (set_prev list list)"

definition list_insert :: "nat \<Rightarrow> nat \<Rightarrow> 'v hashtable_t \<Rightarrow> 'v hashtable_t outcome" where
  "list_insert list node ht =
     obind (set_next node list ht) (\<lambda>ht.
     obind (get_prev ht list) (\<lambda>p.
     obind (set_prev node p ht) (\<lambda>ht.
     obind (get_prev ht list) (\<lambda>p.
     obind (set_next p node ht) (\<lambda>ht.
     set_prev list node ht)))))"

definition list_remove :: "nat \<Rightarrow> 'v hashtable_t \<Rightarrow> 'v hashtable_t outcome" where
  "list_remove list ht =
     obind (get_prev ht list) (\<lambda>p.
     obind (get_next ht list) (\<lambda>n.
     obind (set_next p n ht) (\<lambda>ht.
     obind (get_next ht list) (\<lambda>n.
     obind (get_prev ht list) (\<lambda>p.
     set_prev n p ht)))))"

section \<open>Buckets\<close>

definition bucket_is_empty :: "bucket_t \<Rightarrow> bool" where
  "bucket_is_empty bucket \<longleftrightarrow> first_node bucket = 0 \<and> first_node bucket = last_node bucket"

definition get_bucket :: "'v hashtable_t \<Rightarrow> nat \<Rightarrow> bucket_t outcome" where
  "get_bucket ht i =
     (case buckets ht of None \<Rightarrow> Inl Null_Deref
      | Some bs \<Rightarrow> if i < length bs then Inr (bs ! i) else Inl Out_Of_Bounds)"

definition set_bucket :: "nat \<Rightarrow> bucket_t \<Rightarrow> 'v hashtable_t \<Rightarrow> 'v hashtable_t outcome" where
  "set_bucket i b ht =
     obind (get_bucket ht i) (\<lambda>_. case buckets ht of None \<Rightarrow> Inl Null_Deref
       | Some bs \<Rightarrow> Inr (ht\<lparr>buckets := Some (bs[i := b])\<rparr>))"

definition insert_to_bucket :: "nat \<Rightarrow> nat \<Rightarrow> 'v hashtable_t \<Rightarrow> 'v hashtable_t outcome" where
  "insert_to_bucket index list ht =
     obind (get_bucket ht index) (\<lambda>bucket.
       if bucket_is_empty bucket
       then obind (list_insert 0 list ht) (set_bucket index \<lparr>first_node = list, last_node = list\<rparr>)
       else obind (list_insert (first_node bucket) list ht)
              (set_bucket index (bucket\<lparr>first_node := list\<rparr>)))"

definition primes :: "nat list" where
  "primes = [5, 13, 23, 53, 97, 193, 389, 769, 1543, 3079, 6151, 12289, 24593, 49157, 98317,
     196613, 393241, 786433, 1572869, 3145739, 6291469, 12582917, 25165843, 50331653, 100663319,
     201326611, 402653189, 805306457, 1610612741]"

definition num_buckets :: "'v hashtable_t \<Rightarrow> nat outcome" where
  "num_buckets ht =
     (if num_buckets_index ht < length primes then Inr (primes ! num_buckets_index ht)
      else Inl Out_Of_Bounds)"

text \<open>The walk of \<open>hashtable_find_pair\<close>; null is \<open>None\<close>.\<close>

fun find_pair_loop :: "nat \<Rightarrow> 'v hashtable_t \<Rightarrow> nat \<Rightarrow> nat \<Rightarrow> byte list \<Rightarrow> size_t \<Rightarrow> nat option outcome" where
  "find_pair_loop 0 ht list end_node key hash = Inl Diverges"
| "find_pair_loop (Suc n) ht list end_node key hash =
     obind (get_pair ht list) (\<lambda>pair.
       if pair_hash pair = hash \<and> pair_key pair = key then Inr (Some list)
       else if list = end_node then Inr None
       else obind (get_next ht list) (\<lambda>list. find_pair_loop n ht list end_node key hash))"

definition hashtable_find_pair ::
    "'v hashtable_t \<Rightarrow> bucket_t \<Rightarrow> byte list \<Rightarrow> size_t \<Rightarrow> nat option outcome" where
  "hashtable_find_pair ht bucket key hash =
     (if bucket_is_empty bucket then Inr None
      else find_pair_loop (Suc (next_pair ht)) ht (first_node bucket) (last_node bucket) key hash)"

section \<open>The operations\<close>

text \<open>\<open>hash % num_buckets(hashtable)\<close> and the bucket there.\<close>

definition bucket_index :: "'v hashtable_t \<Rightarrow> size_t \<Rightarrow> nat outcome" where
  "bucket_index ht hash = obind (num_buckets ht) (\<lambda>n. Inr (unat hash mod n))"

text \<open>Every function that can fail returns 0 or -1 first, like the code.\<close>

definition hashtable_do_del ::
    "('v, 's) runtime \<Rightarrow> byte list \<Rightarrow> size_t \<Rightarrow> 'v hashtable_t \<Rightarrow> 's \<Rightarrow> (int \<times> 'v hashtable_t \<times> 's) outcome" where
  "hashtable_do_del rt key hash ht s =
     obind (bucket_index ht hash) (\<lambda>index.
     obind (get_bucket ht index) (\<lambda>bucket.
     obind (hashtable_find_pair ht bucket key hash) (\<lambda>found.
       case found of None \<Rightarrow> Inr (-1, ht, s)
       | Some node \<Rightarrow>
           obind (get_pair ht node) (\<lambda>pair.
           obind (if node = first_node bucket \<and> node = last_node bucket
                  then set_bucket index \<lparr>first_node = 0, last_node = 0\<rparr> ht
                  else if node = first_node bucket
                  then set_bucket index (bucket\<lparr>first_node := pair_next pair\<rparr>) ht
                  else if node = last_node bucket
                  then set_bucket index (bucket\<lparr>last_node := pair_prev pair\<rparr>) ht
                  else Inr ht) (\<lambda>ht.
           obind (list_remove node ht) (\<lambda>ht.
           obind (release rt (pair_value pair) s) (\<lambda>s.
           Inr (0, ht\<lparr>pairs := (pairs ht)(node := None), ht_size := ht_size ht - 1\<rparr>, s))))))))"

fun do_clear_loop :: "nat \<Rightarrow> ('v, 's) runtime \<Rightarrow> nat \<Rightarrow> 'v hashtable_t \<Rightarrow> 's \<Rightarrow> ('v hashtable_t \<times> 's) outcome" where
  "do_clear_loop 0 rt list ht s = Inl Diverges"
| "do_clear_loop (Suc n) rt list ht s =
     (if list = 0 then Inr (ht, s)
      else obind (get_next ht list) (\<lambda>next.
        obind (get_pair ht list) (\<lambda>pair.
        obind (release rt (pair_value pair) s) (\<lambda>s.
        do_clear_loop n rt next (ht\<lparr>pairs := (pairs ht)(list := None)\<rparr>) s))))"

definition hashtable_do_clear ::
    "('v, 's) runtime \<Rightarrow> 'v hashtable_t \<Rightarrow> 's \<Rightarrow> ('v hashtable_t \<times> 's) outcome" where
  "hashtable_do_clear rt ht s = do_clear_loop (Suc (next_pair ht)) rt (list_next ht) ht s"

definition empty_buckets :: "nat \<Rightarrow> bucket_t list" where
  "empty_buckets n = replicate n \<lparr>first_node = 0, last_node = 0\<rparr>"

fun rehash_loop :: "nat \<Rightarrow> nat \<Rightarrow> nat \<Rightarrow> 'v hashtable_t \<Rightarrow> 'v hashtable_t outcome" where
  "rehash_loop 0 new_size list ht = Inl Diverges"
| "rehash_loop (Suc n) new_size list ht =
     (if list = 0 then Inr ht
      else obind (get_next ht list) (\<lambda>next.
        obind (get_pair ht list) (\<lambda>pair.
        obind (insert_to_bucket (unat (pair_hash pair) mod new_size) list ht) (\<lambda>ht.
        rehash_loop n new_size next ht))))"

definition hashtable_do_rehash ::
    "('v, 's) runtime \<Rightarrow> 'v hashtable_t \<Rightarrow> 's \<Rightarrow> (int \<times> 'v hashtable_t \<times> 's) outcome" where
  "hashtable_do_rehash rt ht s =
     (let ht = ht\<lparr>num_buckets_index := Suc (num_buckets_index ht)\<rparr>
      in obind (num_buckets ht) (\<lambda>new_size.
         let (ok, s) = try_malloc rt s
         in if \<not> ok then Inr (-1, ht\<lparr>buckets := None\<rparr>, s)
            else let ht = ht\<lparr>buckets := Some (empty_buckets new_size)\<rparr>; list = list_next ht
              in obind (list_init 0 ht) (\<lambda>ht.
                 obind (rehash_loop (Suc (next_pair ht)) new_size list ht) (\<lambda>ht.
                 Inr (0, ht, s)))))"

definition hashtable_init :: "('v, 's) runtime \<Rightarrow> 's \<Rightarrow> (int \<times> 'v hashtable_t \<times> 's) outcome" where
  "hashtable_init rt s =
     (let ht = \<lparr>ht_size = 0, buckets = None, num_buckets_index = 0, list_prev = 0, list_next = 0,
        pairs = Map.empty, next_pair = 1\<rparr>
      in obind (num_buckets ht) (\<lambda>n.
         let (ok, s) = try_malloc rt s
         in if \<not> ok then Inr (-1, ht, s)
            else obind (list_init 0 (ht\<lparr>buckets := Some (empty_buckets n)\<rparr>)) (\<lambda>ht. Inr (0, ht, s))))"

definition hashtable_close :: "('v, 's) runtime \<Rightarrow> 'v hashtable_t \<Rightarrow> 's \<Rightarrow> ('v hashtable_t \<times> 's) outcome" where
  "hashtable_close rt ht s =
     obind (hashtable_do_clear rt ht s) (\<lambda>(ht, s). Inr (ht\<lparr>buckets := None\<rparr>, s))"

definition set_value :: "nat \<Rightarrow> 'v \<Rightarrow> 'v hashtable_t \<Rightarrow> 'v hashtable_t outcome" where
  "set_value a v ht =
     obind (get_pair ht a) (\<lambda>p. Inr (ht\<lparr>pairs := (pairs ht)(a \<mapsto> p\<lparr>pair_value := v\<rparr>)\<rparr>))"

definition hashtable_set ::
    "('v, 's) runtime \<Rightarrow> byte list \<Rightarrow> nat \<Rightarrow> 'v \<Rightarrow> 'v hashtable_t \<Rightarrow> 's \<Rightarrow> (int \<times> 'v hashtable_t \<times> 's) outcome" where
  "hashtable_set rt key serial value ht s =
     obind (num_buckets ht) (\<lambda>n.
     obind (if ht_size ht \<ge> n then hashtable_do_rehash rt ht s else Inr (0, ht, s)) (\<lambda>(r, ht, s).
       if r \<noteq> 0 then Inr (-1, ht, s)
       else let hash = hash_str key
         in obind (bucket_index ht hash) (\<lambda>index.
            obind (get_bucket ht index) (\<lambda>bucket.
            obind (hashtable_find_pair ht bucket key hash) (\<lambda>found.
              case found of
                Some node \<Rightarrow>
                  obind (get_pair ht node) (\<lambda>pair.
                  obind (release rt (pair_value pair) s) (\<lambda>s.
                  obind (set_value node value ht) (\<lambda>ht. Inr (0, ht, s))))
              | None \<Rightarrow>
                  (let (ok, s) = try_malloc rt s
                   in if \<not> ok then Inr (-1, ht, s)
                      else let node = next_pair ht;
                          pair = \<lparr>pair_hash = hash, pair_prev = node, pair_next = node,
                            pair_value = value, pair_serial = serial, pair_key = key\<rparr>;
                          ht = ht\<lparr>pairs := (pairs ht)(node \<mapsto> pair), next_pair := Suc node\<rparr>
                        in obind (list_init node ht) (\<lambda>ht.
                           obind (insert_to_bucket index node ht) (\<lambda>ht.
                           Inr (0, ht\<lparr>ht_size := Suc (ht_size ht)\<rparr>, s)))))))))"

text \<open>The node of a key, as \<open>hashtable_get\<close>, \<open>hashtable_iter_at\<close> look it up.\<close>

definition hashtable_iter_at :: "'v hashtable_t \<Rightarrow> byte list \<Rightarrow> nat option outcome" where
  "hashtable_iter_at ht key =
     (let hash = hash_str key
      in obind (bucket_index ht hash) (\<lambda>index.
         obind (get_bucket ht index) (\<lambda>bucket.
         hashtable_find_pair ht bucket key hash)))"

definition hashtable_get :: "'v hashtable_t \<Rightarrow> byte list \<Rightarrow> 'v option outcome" where
  "hashtable_get ht key =
     (let hash = hash_str key
      in obind (bucket_index ht hash) (\<lambda>index.
         obind (get_bucket ht index) (\<lambda>bucket.
         obind (hashtable_find_pair ht bucket key hash) (\<lambda>found.
           case found of None \<Rightarrow> Inr None
           | Some node \<Rightarrow> obind (get_pair ht node) (\<lambda>pair. Inr (Some (pair_value pair)))))))"

definition hashtable_del ::
    "('v, 's) runtime \<Rightarrow> byte list \<Rightarrow> 'v hashtable_t \<Rightarrow> 's \<Rightarrow> (int \<times> 'v hashtable_t \<times> 's) outcome" where
  "hashtable_del rt key ht s = hashtable_do_del rt key (hash_str key) ht s"

definition hashtable_clear :: "('v, 's) runtime \<Rightarrow> 'v hashtable_t \<Rightarrow> 's \<Rightarrow> ('v hashtable_t \<times> 's) outcome" where
  "hashtable_clear rt ht s =
     obind (hashtable_do_clear rt ht s) (\<lambda>(ht, s).
     obind (num_buckets ht) (\<lambda>n.
     case buckets ht of None \<Rightarrow> Inl Null_Deref
     | Some bs \<Rightarrow> if length bs < n then Inl Out_Of_Bounds
         else obind (list_init 0 (ht\<lparr>buckets := Some (empty_buckets n @ drop n bs)\<rparr>)) (\<lambda>ht.
           Inr (ht\<lparr>ht_size := 0\<rparr>, s))))"

definition hashtable_iter_next :: "'v hashtable_t \<Rightarrow> nat \<Rightarrow> nat option outcome" where
  "hashtable_iter_next ht iter =
     obind (get_next ht iter) (\<lambda>n. if n = 0 then Inr None else Inr (Some n))"

definition hashtable_iter :: "'v hashtable_t \<Rightarrow> nat option outcome" where
  "hashtable_iter ht = hashtable_iter_next ht 0"

definition hashtable_iter_key :: "'v hashtable_t \<Rightarrow> nat \<Rightarrow> byte list outcome" where
  "hashtable_iter_key ht iter = obind (get_pair ht iter) (\<lambda>pair. Inr (pair_key pair))"

definition hashtable_iter_serial :: "'v hashtable_t \<Rightarrow> nat \<Rightarrow> nat outcome" where
  "hashtable_iter_serial ht iter = obind (get_pair ht iter) (\<lambda>pair. Inr (pair_serial pair))"

definition hashtable_iter_value :: "'v hashtable_t \<Rightarrow> nat \<Rightarrow> 'v outcome" where
  "hashtable_iter_value ht iter = obind (get_pair ht iter) (\<lambda>pair. Inr (pair_value pair))"

definition hashtable_iter_set ::
    "('v, 's) runtime \<Rightarrow> nat \<Rightarrow> 'v \<Rightarrow> 'v hashtable_t \<Rightarrow> 's \<Rightarrow> ('v hashtable_t \<times> 's) outcome" where
  "hashtable_iter_set rt iter value ht s =
     obind (get_pair ht iter) (\<lambda>pair.
     obind (release rt (pair_value pair) s) (\<lambda>s.
     obind (set_value iter value ht) (\<lambda>ht. Inr (ht, s))))"

section \<open>The ring as a list\<close>

definition live :: "'v hashtable_t \<Rightarrow> nat \<Rightarrow> bool" where
  "live ht a \<longleftrightarrow> a = 0 \<or> pairs ht a \<noteq> None"

definition nxt :: "'v hashtable_t \<Rightarrow> nat \<Rightarrow> nat" where
  "nxt ht a = (if a = 0 then list_next ht else pair_next (the (pairs ht a)))"

definition prv :: "'v hashtable_t \<Rightarrow> nat \<Rightarrow> nat" where
  "prv ht a = (if a = 0 then list_prev ht else pair_prev (the (pairs ht a)))"

text \<open>What a pair holds beside its links.\<close>

definition payload :: "'v hashtable_t \<Rightarrow> nat \<Rightarrow> (size_t \<times> byte list \<times> nat \<times> 'v) option" where
  "payload ht a = (if a = 0 then None
     else map_option (\<lambda>p. (pair_hash p, pair_key p, pair_serial p, pair_value p)) (pairs ht a))"

text \<open>Two tables that differ in the links of the ring only.\<close>

definition relinked :: "'v hashtable_t \<Rightarrow> 'v hashtable_t \<Rightarrow> bool" where
  "relinked ht ht' \<longleftrightarrow> payload ht' = payload ht \<and> live ht' = live ht \<and> ht_size ht' = ht_size ht \<and>
     buckets ht' = buckets ht \<and> num_buckets_index ht' = num_buckets_index ht \<and>
     next_pair ht' = next_pair ht"

lemma relinked_refl [simp]: "relinked ht ht"
  by (simp add: relinked_def)

lemma relinked_trans: "relinked a b \<Longrightarrow> relinked b c \<Longrightarrow> relinked a c"
  by (simp add: relinked_def)

lemma live_0 [simp]: "live ht 0"
  by (simp add: live_def)

lemma live_payload: "live ht a \<longleftrightarrow> a = 0 \<or> payload ht a \<noteq> None"
  by (simp add: live_def payload_def)

lemma get_next_live [simp]: "live ht a \<Longrightarrow> get_next ht a = Inr (nxt ht a)"
  by (auto simp: get_next_def live_def nxt_def get_pair_def)

lemma get_prev_live [simp]: "live ht a \<Longrightarrow> get_prev ht a = Inr (prv ht a)"
  by (auto simp: get_prev_def live_def prv_def get_pair_def)

lemma set_next_live:
  assumes "live ht a"
  shows "\<exists>ht'. set_next a b ht = Inr ht' \<and> nxt ht' = (nxt ht)(a := b) \<and> prv ht' = prv ht \<and> relinked ht ht'"
proof (cases "a = 0")
  case True
  then show ?thesis
    by (auto simp: set_next_def nxt_def prv_def relinked_def payload_def live_def fun_eq_iff)
next
  case False
  with assms obtain p where "pairs ht a = Some p" by (auto simp: live_def)
  with False show ?thesis
    by (auto simp: set_next_def get_pair_def nxt_def prv_def relinked_def payload_def live_def fun_eq_iff)
qed

lemma set_prev_live:
  assumes "live ht a"
  shows "\<exists>ht'. set_prev a b ht = Inr ht' \<and> prv ht' = (prv ht)(a := b) \<and> nxt ht' = nxt ht \<and> relinked ht ht'"
proof (cases "a = 0")
  case True
  then show ?thesis
    by (auto simp: set_prev_def nxt_def prv_def relinked_def payload_def live_def fun_eq_iff)
next
  case False
  with assms obtain p where "pairs ht a = Some p" by (auto simp: live_def)
  with False show ?thesis
    by (auto simp: set_prev_def get_pair_def nxt_def prv_def relinked_def payload_def live_def fun_eq_iff)
qed

lemma list_init_live:
  assumes "live ht a"
  shows "\<exists>ht'. list_init a ht = Inr ht' \<and> nxt ht' = (nxt ht)(a := a) \<and> prv ht' = (prv ht)(a := a) \<and>
    relinked ht ht'"
proof -
  from set_next_live[OF assms, of a] obtain h1 where
    h1: "set_next a a ht = Inr h1" "nxt h1 = (nxt ht)(a := a)" "prv h1 = prv ht" "relinked ht h1" by blast
  with assms have "live h1 a" by (simp add: relinked_def)
  from set_prev_live[OF this, of a] obtain h2 where
    h2: "set_prev a a h1 = Inr h2" "prv h2 = (prv h1)(a := a)" "nxt h2 = nxt h1" "relinked h1 h2" by blast
  from h1 h2 relinked_trans[OF h1(4) h2(4)] show ?thesis by (simp add: list_init_def)
qed

lemma list_insert_live:
  assumes "live ht a" "live ht l" "live ht (prv ht l)" "a \<noteq> l" "prv ht l \<noteq> a"
  shows "\<exists>ht'. list_insert l a ht = Inr ht' \<and> nxt ht' = (nxt ht)(a := l, prv ht l := a) \<and>
    prv ht' = (prv ht)(a := prv ht l, l := a) \<and> relinked ht ht'"
proof -
  let ?p = "prv ht l"
  from set_next_live[OF assms(1), of l] obtain h1 where
    h1: "set_next a l ht = Inr h1" "nxt h1 = (nxt ht)(a := l)" "prv h1 = prv ht" "relinked ht h1" by blast
  then have l1: "live h1 = live ht" by (simp add: relinked_def)
  from set_prev_live[of h1 a ?p] l1 assms obtain h2 where
    h2: "set_prev a ?p h1 = Inr h2" "prv h2 = (prv h1)(a := ?p)" "nxt h2 = nxt h1" "relinked h1 h2" by auto
  then have l2: "live h2 = live ht" using l1 by (simp add: relinked_def)
  from set_next_live[of h2 ?p a] l2 assms obtain h3 where
    h3: "set_next ?p a h2 = Inr h3" "nxt h3 = (nxt h2)(?p := a)" "prv h3 = prv h2" "relinked h2 h3" by auto
  then have l3: "live h3 = live ht" using l2 by (simp add: relinked_def)
  from set_prev_live[of h3 l a] l3 assms obtain h4 where
    h4: "set_prev l a h3 = Inr h4" "prv h4 = (prv h3)(l := a)" "nxt h4 = nxt h3" "relinked h3 h4" by auto
  have "relinked ht h4"
    using h1(4) h2(4) h3(4) h4(4) by (blast intro: relinked_trans)
  with h1 h2 h3 h4 l1 l2 assms show ?thesis
    by (simp add: list_insert_def)
qed

lemma list_remove_live:
  assumes "live ht a" "live ht (prv ht a)" "live ht (nxt ht a)" "prv ht a \<noteq> a" "nxt ht a \<noteq> a"
  shows "\<exists>ht'. list_remove a ht = Inr ht' \<and> nxt ht' = (nxt ht)(prv ht a := nxt ht a) \<and>
    prv ht' = (prv ht)(nxt ht a := prv ht a) \<and> relinked ht ht'"
proof -
  let ?p = "prv ht a" and ?n = "nxt ht a"
  from set_next_live[OF assms(2), of ?n] obtain h1 where
    h1: "set_next ?p ?n ht = Inr h1" "nxt h1 = (nxt ht)(?p := ?n)" "prv h1 = prv ht" "relinked ht h1" by blast
  then have l1: "live h1 = live ht" by (simp add: relinked_def)
  from set_prev_live[of h1 ?n ?p] l1 assms obtain h2 where
    h2: "set_prev ?n ?p h1 = Inr h2" "prv h2 = (prv h1)(?n := ?p)" "nxt h2 = nxt h1" "relinked h1 h2" by auto
  have "relinked ht h2" using h1(4) h2(4) by (rule relinked_trans)
  with h1 h2 l1 assms show ?thesis by (simp add: list_remove_def)
qed

section \<open>Chains\<close>

text \<open>The nodes of the list are linked both ways; the ring is the chain from 0 back to 0.\<close>

definition chain :: "(nat \<Rightarrow> nat) \<Rightarrow> (nat \<Rightarrow> nat) \<Rightarrow> nat list \<Rightarrow> bool" where
  "chain n p ys \<longleftrightarrow> successively (\<lambda>a b. n a = b \<and> p b = a) ys"

lemma chain_simps [simp]: "chain n p []" "chain n p [a]"
  "chain n p (a # b # ys) \<longleftrightarrow> n a = b \<and> p b = a \<and> chain n p (b # ys)"
  by (simp_all add: chain_def)

lemma chain_append:
  "xs \<noteq> [] \<Longrightarrow> ys \<noteq> [] \<Longrightarrow> chain n p (xs @ ys) \<longleftrightarrow>
     chain n p xs \<and> chain n p ys \<and> n (last xs) = hd ys \<and> p (hd ys) = last xs"
  by (auto simp: chain_def successively_append_iff)

lemma chain_cong:
  "chain n p ys \<Longrightarrow> (\<And>x. x \<in> set (butlast ys) \<Longrightarrow> n' x = n x) \<Longrightarrow>
     (\<And>x. x \<in> set (tl ys) \<Longrightarrow> p' x = p x) \<Longrightarrow> chain n' p' ys"
proof (induction ys rule: induct_list012)
  case (3 a b ys)
  then show ?case by (cases ys) auto
qed simp_all

lemma chain_insert:
  assumes "chain n p (xs @ ys)" "xs \<noteq> []" "ys \<noteq> []" "distinct (butlast (xs @ ys))" "hd xs = last ys"
    "a \<notin> set (xs @ ys)" "distinct (tl (xs @ ys))"
  shows "chain (n(a := hd ys, last xs := a)) (p(a := last xs, hd ys := a)) (xs @ a # ys)"
proof -
  from assms(1-3) have c: "chain n p xs" "chain n p ys" by (simp_all add: chain_append)
  have "butlast (xs @ ys) = butlast xs @ last xs # butlast ys"
    using assms(2,3) by (simp add: butlast_append)
  with assms(4) have d1: "last xs \<notin> set (butlast xs)" "last xs \<notin> set (butlast ys)" by auto
  have "tl (xs @ ys) = tl xs @ hd ys # tl ys" using assms(2,3) by (cases ys) auto
  with assms(7) have d2: "hd ys \<notin> set (tl xs)" "hd ys \<notin> set (tl ys)" by auto
  have sub: "set (butlast xs) \<subseteq> set xs" "set (butlast ys) \<subseteq> set ys" "set (tl xs) \<subseteq> set xs" "set (tl ys) \<subseteq> set ys"
    using assms(2,3) by (auto dest: in_set_butlastD intro: list.set_sel(2))
  have 1: "chain (n(a := hd ys, last xs := a)) (p(a := last xs, hd ys := a)) xs"
    by (rule chain_cong[OF c(1)]) (use assms(6) d1 d2 sub in auto)
  have 2: "chain (n(a := hd ys, last xs := a)) (p(a := last xs, hd ys := a)) ys"
    by (rule chain_cong[OF c(2)]) (use assms(6) d1 d2 sub in auto)
  have ne: "a \<noteq> last xs" "a \<noteq> hd ys" using assms(2,3,6) by auto
  obtain y ys' where ys: "ys = y # ys'" using assms(3) by (cases ys) auto
  with 2 ne have "chain (n(a := hd ys, last xs := a)) (p(a := last xs, hd ys := a)) (a # ys)" by simp
  with 1 ne assms(2) show ?thesis by (subst chain_append) auto
qed


lemma chain_delete:
  assumes "chain n p (xs @ a # ys)" "xs \<noteq> []" "ys \<noteq> []"
    "distinct (butlast (xs @ ys))" "distinct (tl (xs @ ys))" 
  shows "n a = hd ys" "p a = last xs" "chain (n(last xs := hd ys)) (p(hd ys := last xs)) (xs @ ys)"
proof -
  obtain y ys' where ys: "ys = y # ys'" using assms(3) by (cases ys) auto
  from assms(1,2) have c: "chain n p xs" "chain n p (a # ys)" "p a = last xs"
    by (simp_all add: chain_append)
  then have c2: "chain n p ys" "n a = hd ys" by (simp_all add: ys)
  show "n a = hd ys" "p a = last xs" by (rule c2 c)+
  have "butlast (xs @ ys) = butlast xs @ last xs # butlast ys"
    using assms(2,3) by (simp add: butlast_append)
  with assms(4) have d1: "last xs \<notin> set (butlast xs)" "last xs \<notin> set (butlast ys)" by auto
  have "tl (xs @ ys) = tl xs @ hd ys # tl ys" using assms(2,3) by (cases ys) auto
  with assms(5) have d2: "hd ys \<notin> set (tl xs)" "hd ys \<notin> set (tl ys)" by auto
  have 1: "chain (n(last xs := hd ys)) (p(hd ys := last xs)) xs"
    by (rule chain_cong[OF c(1)]) (use d1 d2 in auto)
  have 2: "chain (n(last xs := hd ys)) (p(hd ys := last xs)) ys"
    by (rule chain_cong[OF c2(1)]) (use d1 d2 in auto)
  from 1 2 assms(2,3) show "chain (n(last xs := hd ys)) (p(hd ys := last xs)) (xs @ ys)"
    by (simp add: chain_append)
qed

definition ring :: "'v hashtable_t \<Rightarrow> nat list \<Rightarrow> bool" where
  "ring ht xs \<longleftrightarrow> chain (nxt ht) (prv ht) (0 # xs @ [0]) \<and> distinct xs \<and>
     (\<forall>a \<in> set xs. a \<noteq> 0 \<and> live ht a)"

lemma ring_ends:
  assumes "ring ht xs"
  shows "nxt ht 0 = hd (xs @ [0])" "prv ht 0 = last (0 # xs)"
proof -
  have c: "chain (nxt ht) (prv ht) (0 # xs @ [0])" using assms by (simp add: ring_def)
  show "nxt ht 0 = hd (xs @ [0])" using c by (cases xs) auto
  show "prv ht 0 = last (0 # xs)"
    using c chain_append[of "0 # xs" "[0]" "nxt ht" "prv ht"] by simp
qed

lemma ring_insert:
  assumes "ring ht (xs @ ys)" "a \<noteq> 0" "live ht a" "a \<notin> set (xs @ ys)"
  shows "\<exists>ht'. list_insert (hd (ys @ [0])) a ht = Inr ht' \<and> ring ht' (xs @ a # ys) \<and> relinked ht ht' \<and>
    (\<forall>x. x \<notin> set (0 # a # xs @ ys) \<longrightarrow> nxt ht' x = nxt ht x)"
proof -
  let ?l = "hd (ys @ [0])" and ?X = "0 # xs" and ?Y = "ys @ [0]"
  have c: "chain (nxt ht) (prv ht) (?X @ ?Y)" and d: "distinct (xs @ ys)" and
    lv: "\<forall>a \<in> set (xs @ ys). a \<noteq> 0 \<and> live ht a" using assms(1) by (simp_all add: ring_def)
  have b: "butlast (?X @ ?Y) = 0 # xs @ ys" "tl (?X @ ?Y) = xs @ ys @ [0]"
    by (simp_all add: butlast_append)
  have p: "prv ht ?l = last ?X" using c by (subst (asm) chain_append) auto
  have l: "?l = 0 \<or> ?l \<in> set (xs @ ys)" "last ?X = 0 \<or> last ?X \<in> set (xs @ ys)"
    by (cases ys; simp) (cases xs rule: rev_cases; simp)
  have "live ht ?l" "live ht (last ?X)" "a \<noteq> ?l" "last ?X \<noteq> a" using l lv assms(2,4) by auto
  then obtain ht' where h: "list_insert ?l a ht = Inr ht'"
    "nxt ht' = (nxt ht)(a := ?l, last ?X := a)" "prv ht' = (prv ht)(a := last ?X, ?l := a)"
    "relinked ht ht'" using list_insert_live[OF assms(3), of ?l] p by auto
  have "chain (nxt ht') (prv ht') (?X @ a # ?Y)"
    unfolding h(2,3)
  proof (rule chain_insert[OF c])
    show "distinct (butlast (?X @ ?Y))" unfolding b using d lv by auto
    show "distinct (tl (?X @ ?Y))" unfolding b using d lv by auto
    show "a \<notin> set (?X @ ?Y)" using assms(2,4) by simp
  qed simp_all
  moreover have "live ht' = live ht" using h(4) by (simp add: relinked_def)
  ultimately have "ring ht' (xs @ a # ys)" using d lv assms(2-4) by (auto simp: ring_def)
  moreover have "\<forall>x. x \<notin> set (0 # a # xs @ ys) \<longrightarrow> nxt ht' x = nxt ht x"
    using h(2) l(2) by (auto simp del: last.simps)
  ultimately show ?thesis using h by blast
qed

lemma ring_remove:
  assumes "ring ht (xs @ a # ys)"
  shows "\<exists>ht'. list_remove a ht = Inr ht' \<and> ring ht' (xs @ ys) \<and> relinked ht ht'"
    and "nxt ht a = hd (ys @ [0])" "prv ht a = last (0 # xs)"
proof -
  let ?X = "0 # xs" and ?Y = "ys @ [0]"
  have c: "chain (nxt ht) (prv ht) (?X @ a # ?Y)" and d: "distinct (xs @ a # ys)" and
    lv: "\<forall>a \<in> set (xs @ a # ys). a \<noteq> 0 \<and> live ht a" using assms(1) by (simp_all add: ring_def)
  have b: "butlast (?X @ ?Y) = 0 # xs @ ys" "tl (?X @ ?Y) = xs @ ys @ [0]"
    by (simp_all add: butlast_append)
  have del: "nxt ht a = hd ?Y" "prv ht a = last ?X"
    "chain ((nxt ht)(last ?X := hd ?Y)) ((prv ht)(hd ?Y := last ?X)) (?X @ ?Y)"
    using d lv by (intro chain_delete[OF c]; simp only: b; auto)+
  then show "nxt ht a = hd ?Y" "prv ht a = last ?X" by simp_all
  have l: "hd ?Y = 0 \<or> hd ?Y \<in> set (xs @ ys)" "last ?X = 0 \<or> last ?X \<in> set (xs @ ys)"
    by (cases ys; simp) (cases xs rule: rev_cases; simp)
  have "live ht (hd ?Y)" "live ht (last ?X)" "a \<noteq> hd ?Y" "last ?X \<noteq> a" "live ht a"
    using l lv d by auto
  then obtain ht' where h: "list_remove a ht = Inr ht'"
    "nxt ht' = (nxt ht)(last ?X := hd ?Y)" "prv ht' = (prv ht)(hd ?Y := last ?X)"
    "relinked ht ht'" using list_remove_live[of ht a] del(1,2) by auto
  with del(3) d lv have "ring ht' (xs @ ys)" by (auto simp: ring_def relinked_def)
  with h show "\<exists>ht'. list_remove a ht = Inr ht' \<and> ring ht' (xs @ ys) \<and> relinked ht ht'" by blast
qed

section \<open>Buckets as blocks of the ring\<close>

text \<open>
  The ring is cut into blocks, one for each bucket that is not empty; \<open>bucket_of\<close> is the
  bucket the code must hold for an index.
\<close>

type_synonym blocks = "(nat \<times> nat list) list"

definition ring_nodes :: "blocks \<Rightarrow> nat list" where
  "ring_nodes bl = concat (map snd bl)"

lemma ring_nodes_simps [simp]:
  "ring_nodes [] = []" "ring_nodes ((i, seg) # bl) = seg @ ring_nodes bl"
  "ring_nodes (bl @ bl') = ring_nodes bl @ ring_nodes bl'"
  by (simp_all add: ring_nodes_def)

definition bucket_of :: "blocks \<Rightarrow> nat \<Rightarrow> bucket_t" where
  "bucket_of bl i = (case map_of bl i of None \<Rightarrow> \<lparr>first_node = 0, last_node = 0\<rparr>
     | Some seg \<Rightarrow> \<lparr>first_node = hd seg, last_node = last seg\<rparr>)"

definition hash_of :: "'v hashtable_t \<Rightarrow> nat \<Rightarrow> size_t" where
  "hash_of ht a = fst (the (payload ht a))"

definition key_of :: "'v hashtable_t \<Rightarrow> nat \<Rightarrow> byte list" where
  "key_of ht a = fst (snd (the (payload ht a)))"

definition entry_of :: "'v hashtable_t \<Rightarrow> nat \<Rightarrow> nat \<times> 'v" where
  "entry_of ht a = snd (snd (the (payload ht a)))"

definition blocks_ok :: "'v hashtable_t \<Rightarrow> nat \<Rightarrow> blocks \<Rightarrow> bool" where
  "blocks_ok ht n bl \<longleftrightarrow> distinct (map fst bl) \<and>
     (\<forall>(i, seg) \<in> set bl. seg \<noteq> [] \<and> i < n \<and> (\<forall>a \<in> set seg. unat (hash_of ht a) mod n = i))"

definition table_shape :: "'v hashtable_t \<Rightarrow> nat \<Rightarrow> blocks \<Rightarrow> bool" where
  "table_shape ht n bl \<longleftrightarrow> ring ht (ring_nodes bl) \<and> blocks_ok ht n bl \<and>
     buckets ht = Some (map (bucket_of bl) [0..<n])"

text \<open>Two tables that agree on everything but the shape of the ring and the buckets.\<close>

definition kept :: "'v hashtable_t \<Rightarrow> 'v hashtable_t \<Rightarrow> bool" where
  "kept ht ht' \<longleftrightarrow> payload ht' = payload ht \<and> live ht' = live ht \<and> ht_size ht' = ht_size ht \<and>
     num_buckets_index ht' = num_buckets_index ht \<and> next_pair ht' = next_pair ht"

lemma kept_refl [simp]: "kept ht ht"
  by (simp add: kept_def)

lemma kept_trans: "kept a b \<Longrightarrow> kept b c \<Longrightarrow> kept a c"
  by (simp add: kept_def)

lemma relinked_kept: "relinked ht ht' \<Longrightarrow> kept ht ht' \<and> buckets ht' = buckets ht"
  by (simp add: relinked_def kept_def)

lemma kept_data:
  "kept ht ht' \<Longrightarrow> hash_of ht' = hash_of ht \<and> key_of ht' = key_of ht \<and> entry_of ht' = entry_of ht"
  by (auto simp: kept_def hash_of_def key_of_def entry_of_def fun_eq_iff)

lemma kept_blocks_ok: "kept ht ht' \<Longrightarrow> blocks_ok ht' n bl = blocks_ok ht n bl"
  by (simp add: blocks_ok_def kept_data)

lemma set_bucket_shape:
  assumes "buckets ht = Some (map f [0..<n])" "i < n"
  shows "set_bucket i b ht = Inr (ht\<lparr>buckets := Some (map (f(i := b)) [0..<n])\<rparr>)"
proof -
  have "(map f [0..<n])[i := b] = map (f(i := b)) [0..<n]"
    using assms(2) by (intro nth_equalityI) (auto simp: nth_list_update)
  with assms show ?thesis by (simp add: set_bucket_def get_bucket_def)
qed

lemma get_bucket_shape:
  "table_shape ht n bl \<Longrightarrow> i < n \<Longrightarrow> get_bucket ht i = Inr (bucket_of bl i)"
  by (simp add: table_shape_def get_bucket_def)

lemma view_update [simp]:
  "nxt (ht\<lparr>buckets := b\<rparr>) = nxt ht" "prv (ht\<lparr>buckets := b\<rparr>) = prv ht"
  "live (ht\<lparr>buckets := b\<rparr>) = live ht" "payload (ht\<lparr>buckets := b\<rparr>) = payload ht"
  "nxt (ht\<lparr>num_buckets_index := k\<rparr>) = nxt ht" "prv (ht\<lparr>num_buckets_index := k\<rparr>) = prv ht"
  "live (ht\<lparr>num_buckets_index := k\<rparr>) = live ht" "payload (ht\<lparr>num_buckets_index := k\<rparr>) = payload ht"
  "nxt (ht\<lparr>ht_size := k\<rparr>) = nxt ht" "prv (ht\<lparr>ht_size := k\<rparr>) = prv ht"
  "live (ht\<lparr>ht_size := k\<rparr>) = live ht" "payload (ht\<lparr>ht_size := k\<rparr>) = payload ht"
  by (simp_all add: fun_eq_iff nxt_def prv_def live_def payload_def)

lemma ring_update [simp]:
  "ring (ht\<lparr>buckets := b\<rparr>) xs = ring ht xs"
  "ring (ht\<lparr>num_buckets_index := k\<rparr>) xs = ring ht xs"
  "ring (ht\<lparr>ht_size := k\<rparr>) xs = ring ht xs"
  by (simp_all add: ring_def)

lemma kept_buckets_update: "kept ht ht' \<Longrightarrow> kept ht (ht'\<lparr>buckets := b\<rparr>)"
  by (simp add: kept_def)

lemma blocks_split:
  assumes "map_of bl i = Some seg"
  obtains bl1 bl2 where "bl = bl1 @ (i, seg) # bl2" "i \<notin> fst ` set bl1"
proof -
  have "\<exists>bl1 bl2. bl = bl1 @ (i, seg) # bl2 \<and> i \<notin> fst ` set bl1"
    using assms
  proof (induction bl)
    case (Cons b bl)
    show ?case
    proof (cases "fst b = i")
      case True
      with Cons.prems have "b = (i, seg)" by (cases b) auto
      then show ?thesis by (intro exI[of _ "[]"] exI[of _ bl]) simp
    next
      case False
      with Cons obtain bl1 bl2 where "bl = bl1 @ (i, seg) # bl2" "i \<notin> fst ` set bl1"
        by (cases b) auto
      with False show ?thesis by (intro exI[of _ "b # bl1"] exI[of _ bl2]) auto
    qed
  qed simp
  then show thesis using that by blast
qed

lemma bucket_of_block:
  assumes "i \<notin> fst ` set bl1"
  shows "bucket_of (bl1 @ (i, seg) # bl2) = (bucket_of (bl1 @ bl2))(i := \<lparr>first_node = hd seg, last_node = last seg\<rparr>)"
proof -
  have "map_of bl1 i = None" using assms by (simp add: map_of_eq_None_iff)
  then show ?thesis
    by (auto simp: bucket_of_def fun_eq_iff map_add_def split: option.splits)
qed

lemma bucket_of_fresh: "i \<notin> fst ` set bl \<Longrightarrow> bucket_of bl i = \<lparr>first_node = 0, last_node = 0\<rparr>"
  using map_of_eq_None_iff[of bl i] by (simp add: bucket_of_def)

lemma insert_to_bucket_shape:
  assumes sh: "table_shape ht n bl" and "i < n" "a \<noteq> 0" "live ht a" "a \<notin> set (ring_nodes bl)"
    "unat (hash_of ht a) mod n = i"
  shows "\<exists>ht' bl'. insert_to_bucket i a ht = Inr ht' \<and> table_shape ht' n bl' \<and> kept ht ht' \<and>
    mset (ring_nodes bl') = add_mset a (mset (ring_nodes bl)) \<and>
    (\<forall>x. x \<notin> set (0 # a # ring_nodes bl) \<longrightarrow> nxt ht' x = nxt ht x)"
proof (cases "map_of bl i")
  case None
  then have fresh: "i \<notin> fst ` set bl" by (simp add: map_of_eq_None_iff)
  from sh have r: "ring ht (ring_nodes bl @ [])" and ok: "blocks_ok ht n bl"
    and b: "buckets ht = Some (map (bucket_of bl) [0..<n])" by (simp_all add: table_shape_def)
  from ring_insert[OF r assms(3,4)] assms(5) obtain h1 where
    h1: "list_insert 0 a ht = Inr h1" "ring h1 (ring_nodes bl @ [a])" "relinked ht h1"
    "\<forall>x. x \<notin> set (0 # a # ring_nodes bl) \<longrightarrow> nxt h1 x = nxt ht x" by auto
  let ?h = "h1\<lparr>buckets := Some (map (bucket_of (bl @ [(i, [a])])) [0..<n])\<rparr>"
  have "buckets h1 = Some (map (bucket_of bl) [0..<n])" using h1(3) b by (simp add: relinked_def)
  from set_bucket_shape[OF this assms(2)] bucket_of_block[OF fresh, of "[a]" "[]"]
  have "insert_to_bucket i a ht = Inr ?h"
    using get_bucket_shape[OF sh assms(2)] h1(1) bucket_of_fresh[OF fresh]
    by (simp add: insert_to_bucket_def bucket_is_empty_def)
  moreover have k: "kept ht ?h" using relinked_kept[OF h1(3)] by (simp add: kept_buckets_update)
  moreover have "blocks_ok ?h n (bl @ [(i, [a])])"
    unfolding kept_blocks_ok[OF k] using ok fresh assms(2,6) by (auto simp: blocks_ok_def)
  then have "table_shape ?h n (bl @ [(i, [a])])" using h1(2) by (simp add: table_shape_def)
  ultimately show ?thesis by (intro exI[of _ ?h] exI[of _ "bl @ [(i, [a])]"])
      (simp add: h1(4))
next
  case (Some seg)
  then obtain bl1 bl2 where bl: "bl = bl1 @ (i, seg) # bl2" "i \<notin> fst ` set bl1" by (rule blocks_split)
  from sh have r0: "ring ht (ring_nodes bl)" and ok: "blocks_ok ht n bl"
    and b: "buckets ht = Some (map (bucket_of bl) [0..<n])" by (simp_all add: table_shape_def)
  from r0 bl(1) have r: "ring ht (ring_nodes bl1 @ (seg @ ring_nodes bl2))" by simp
  have seg: "seg \<noteq> []" using ok bl(1) by (auto simp: blocks_ok_def)
  then have hd: "hd ((seg @ ring_nodes bl2) @ [0]) = hd seg" by simp
  have hd0: "hd seg \<noteq> 0" using r seg by (auto simp: ring_def)
  from ring_insert[OF r assms(3,4)] assms(5) bl(1) hd obtain h1 where
    h1: "list_insert (hd seg) a ht = Inr h1" "ring h1 (ring_nodes bl1 @ a # seg @ ring_nodes bl2)"
      "relinked ht h1" "\<forall>x. x \<notin> set (0 # a # ring_nodes bl) \<longrightarrow> nxt h1 x = nxt ht x" by auto
  let ?bl = "bl1 @ (i, a # seg) # bl2"
  let ?h = "h1\<lparr>buckets := Some (map (bucket_of ?bl) [0..<n])\<rparr>"
  have "buckets h1 = Some (map (bucket_of bl) [0..<n])" using h1(3) b by (simp add: relinked_def)
  from set_bucket_shape[OF this assms(2), of "\<lparr>first_node = a, last_node = last seg\<rparr>"] seg
  have "set_bucket i \<lparr>first_node = a, last_node = last seg\<rparr> h1 = Inr ?h"
    unfolding bl(1) bucket_of_block[OF bl(2)] by simp
  moreover have "bucket_of bl i = \<lparr>first_node = hd seg, last_node = last seg\<rparr>"
    unfolding bl(1) bucket_of_block[OF bl(2)] by simp
  ultimately have "insert_to_bucket i a ht = Inr ?h"
    using get_bucket_shape[OF sh assms(2)] h1(1) hd0
    by (simp add: insert_to_bucket_def bucket_is_empty_def)
  moreover have k: "kept ht ?h" using relinked_kept[OF h1(3)] by (simp add: kept_buckets_update)
  moreover have "blocks_ok ?h n ?bl"
    unfolding kept_blocks_ok[OF k] using ok bl(1) assms(2,6) by (auto simp: blocks_ok_def)
  then have "table_shape ?h n ?bl" using h1(2) by (simp add: table_shape_def)
  ultimately show ?thesis using bl(1) h1(4) by (intro exI[of _ ?h] exI[of _ ?bl]) simp
qed

section \<open>Looking up\<close>

lemma get_pair_live:
  "live ht a \<Longrightarrow> a \<noteq> 0 \<Longrightarrow> \<exists>p. get_pair ht a = Inr p \<and> pair_hash p = hash_of ht a \<and> pair_key p = key_of ht a \<and>
     (pair_serial p, pair_value p) = entry_of ht a \<and> pair_next p = nxt ht a \<and> pair_prev p = prv ht a"
  by (auto simp: get_pair_def live_def hash_of_def key_of_def entry_of_def payload_def nxt_def prv_def)

lemma ring_next:
  assumes "ring ht (xs @ a # ys)"
  shows "nxt ht a = hd (ys @ [0])"
  by (rule ring_remove(2)[OF assms])

lemma find_pair_loop_spec:
  "ring ht (xs @ seg @ ys) \<Longrightarrow> seg \<noteq> [] \<Longrightarrow> length seg \<le> n \<Longrightarrow>
     find_pair_loop n ht (hd seg) (last seg) key hash =
       Inr (List.find (\<lambda>a. hash_of ht a = hash \<and> key_of ht a = key) seg)"
proof (induction seg arbitrary: xs n)
  case (Cons a seg)
  then obtain k where n: "n = Suc k" by (cases n) auto
  have a: "a \<noteq> 0" "live ht a" "a \<notin> set seg" using Cons.prems(1) by (auto simp: ring_def)
  from get_pair_live[OF a(2,1)] obtain p where
    p: "get_pair ht a = Inr p" "pair_hash p = hash_of ht a" "pair_key p = key_of ht a" by blast
  show ?case
  proof (cases "hash_of ht a = hash \<and> key_of ht a = key")
    case True
    with n p show ?thesis by simp
  next
    case no: False
    show ?thesis
    proof (cases "seg = []")
      case True
      with n p no show ?thesis by simp
    next
      case False
      then have "last (a # seg) \<noteq> a" using a(3) by auto
      moreover have "nxt ht a = hd seg" using ring_next[of ht xs a "seg @ ys"] Cons.prems(1) False by simp
      moreover have "ring ht ((xs @ [a]) @ seg @ ys)" using Cons.prems(1) by simp
      from Cons.IH[OF this False, of k] Cons.prems(3) n
      have "find_pair_loop k ht (hd seg) (last seg) key hash =
        Inr (List.find (\<lambda>a. hash_of ht a = hash \<and> key_of ht a = key) seg)" by simp
      ultimately show ?thesis using n p no a False by auto
    qed
  qed
qed simp

section \<open>Well-formed tables and the map they stand for\<close>

definition ht_wf :: "'v hashtable_t \<Rightarrow> blocks \<Rightarrow> bool" where
  "ht_wf ht bl \<longleftrightarrow> (\<exists>n. num_buckets ht = Inr n \<and> table_shape ht n bl) \<and>
     (\<forall>a. live ht a \<longleftrightarrow> a = 0 \<or> a \<in> set (ring_nodes bl)) \<and> 0 < next_pair ht \<and>
     (\<forall>a \<in> set (ring_nodes bl). a < next_pair ht \<and> hash_of ht a = hash_str (key_of ht a)) \<and>
     inj_on (key_of ht) (set (ring_nodes bl)) \<and> ht_size ht = length (ring_nodes bl)"

text \<open>The entries in ring order: key, serial number, value.\<close>

definition entries :: "'v hashtable_t \<Rightarrow> blocks \<Rightarrow> (byte list \<times> nat \<times> 'v) list" where
  "entries ht bl = map (\<lambda>a. (key_of ht a, entry_of ht a)) (ring_nodes bl)"

text \<open>The abstraction: a table represents a finite map from keys to serial number and value.\<close>

definition ht_rep :: "'v hashtable_t \<Rightarrow> (byte list \<rightharpoonup> nat \<times> 'v) \<Rightarrow> bool" where
  "ht_rep ht M \<longleftrightarrow> (\<exists>bl. ht_wf ht bl \<and> M = map_of (entries ht bl))"

lemma primes_pos: "i < length primes \<Longrightarrow> 0 < primes ! i"
  using nth_mem[of i primes] by (auto simp: primes_def)

lemma num_buckets_pos: "num_buckets ht = Inr n \<Longrightarrow> 0 < n"
  using primes_pos by (auto simp: num_buckets_def split: if_splits)

lemma ht_wfE:
  assumes "ht_wf ht bl"
  obtains n where "num_buckets ht = Inr n" "0 < n" "table_shape ht n bl" "ring ht (ring_nodes bl)"
    "blocks_ok ht n bl" "distinct (ring_nodes bl)"
proof -
  from assms obtain n where n: "num_buckets ht = Inr n" "table_shape ht n bl" by (auto simp: ht_wf_def)
  show thesis by (rule that[OF n(1) num_buckets_pos[OF n(1)] n(2)])
    (use n(2) in \<open>simp_all add: table_shape_def ring_def\<close>)
qed

lemma wf_node:
  assumes "ht_wf ht bl" "a \<in> set (ring_nodes bl)"
  shows "a \<noteq> 0" "live ht a" "a < next_pair ht" "hash_of ht a = hash_str (key_of ht a)"
  using assms by (auto simp: ht_wf_def table_shape_def ring_def)

lemma wf_fuel:
  assumes "ht_wf ht bl"
  shows "length (ring_nodes bl) \<le> next_pair ht"
proof -
  from assms have "distinct (ring_nodes bl)" by (rule ht_wfE)
  then have "length (ring_nodes bl) = card (set (ring_nodes bl))" by (simp add: distinct_card)
  also have "\<dots> \<le> card {..<next_pair ht}"
    using wf_node(3)[OF assms] by (intro card_mono) auto
  finally show ?thesis by simp
qed

lemma find_unique:
  assumes "\<And>a b. a \<in> set xs \<Longrightarrow> b \<in> set xs \<Longrightarrow> P a \<Longrightarrow> P b \<Longrightarrow> a = b"
  shows "List.find P xs = Some a \<longleftrightarrow> a \<in> set xs \<and> P a"
  using assms by (induction xs) auto

text \<open>Looking in the bucket of the hash finds the node of the key if there is one at all.\<close>

lemma find_in_bucket:
  assumes wf: "ht_wf ht bl" and n: "num_buckets ht = Inr n"
  shows "\<exists>r. hashtable_find_pair ht (bucket_of bl (unat (hash_str key) mod n)) key (hash_str key) = Inr r \<and>
    (\<forall>a. r = Some a \<longleftrightarrow> a \<in> set (ring_nodes bl) \<and> key_of ht a = key)"
proof -
  let ?i = "unat (hash_str key) mod n"
  from wf obtain n' where n': "num_buckets ht = Inr n'" "table_shape ht n' bl" "ring ht (ring_nodes bl)"
    "blocks_ok ht n' bl" by (rule ht_wfE)
  with n have [simp]: "n' = n" by simp
  have inj: "inj_on (key_of ht) (set (ring_nodes bl))" using wf by (simp add: ht_wf_def)
  have idx: "(i, seg) \<in> set bl \<Longrightarrow> a \<in> set seg \<Longrightarrow> key_of ht a = key \<Longrightarrow> i = ?i" for i seg a
    using n'(4) wf_node(4)[OF wf, of a] by (force simp: blocks_ok_def ring_nodes_def)
  show ?thesis
  proof (cases "map_of bl ?i")
    case None
    then have fresh: "?i \<notin> fst ` set bl" by (simp add: map_of_eq_None_iff)
    then have "\<not> (a \<in> set (ring_nodes bl) \<and> key_of ht a = key)" for a
      using idx by (force simp: ring_nodes_def)
    then show ?thesis
      using bucket_of_fresh[OF fresh] by (simp add: hashtable_find_pair_def bucket_is_empty_def)
  next
    case (Some seg)
    then obtain bl1 bl2 where bl: "bl = bl1 @ (?i, seg) # bl2" "?i \<notin> fst ` set bl1" by (rule blocks_split)
    have seg: "seg \<noteq> []" "set seg \<subseteq> set (ring_nodes bl)" using n'(4) bl(1) by (auto simp: blocks_ok_def)
    have r: "ring ht (ring_nodes bl1 @ seg @ ring_nodes bl2)" using n'(3) bl(1) by simp
    have b: "bucket_of bl ?i = \<lparr>first_node = hd seg, last_node = last seg\<rparr>"
      unfolding bl(1) bucket_of_block[OF bl(2)] by simp
    have "length seg \<le> Suc (next_pair ht)" using wf_fuel[OF wf] bl(1) by simp
    from find_pair_loop_spec[OF r seg(1) this, of key "hash_str key"]
    moreover have "hd seg \<noteq> 0" using r hd_in_set[OF seg(1)] by (auto simp: ring_def)
    ultimately have *: "hashtable_find_pair ht (bucket_of bl ?i) key (hash_str key) =
        Inr (List.find (\<lambda>a. hash_of ht a = hash_str key \<and> key_of ht a = key) seg)"
      using b by (simp add: hashtable_find_pair_def bucket_is_empty_def)
    have "List.find (\<lambda>a. hash_of ht a = hash_str key \<and> key_of ht a = key) seg = Some a \<longleftrightarrow>
        a \<in> set seg \<and> hash_of ht a = hash_str key \<and> key_of ht a = key" for a
      by (rule find_unique) (use inj seg(2) in \<open>auto dest: inj_onD\<close>)
    moreover have "a \<in> set seg \<and> hash_of ht a = hash_str key \<and> key_of ht a = key \<longleftrightarrow>
        a \<in> set (ring_nodes bl) \<and> key_of ht a = key" for a
    proof
      assume a: "a \<in> set (ring_nodes bl) \<and> key_of ht a = key"
      then obtain i seg' where s: "(i, seg') \<in> set bl" "a \<in> set seg'" by (auto simp: ring_nodes_def)
      with idx a have "i = ?i" by blast
      moreover have "distinct (map fst bl)" using n'(4) by (simp add: blocks_ok_def)
      ultimately have "seg' = seg" using s(1) Some by (auto dest: map_of_is_SomeI)
      with s a wf_node(4)[OF wf] show "a \<in> set seg \<and> hash_of ht a = hash_str key \<and> key_of ht a = key" by auto
    qed (use seg(2) in auto)
    ultimately show ?thesis using * by auto
  qed
qed

lemma map_of_entries:
  assumes "ht_wf ht bl"
  shows "map_of (entries ht bl) key = Some e \<longleftrightarrow>
    (\<exists>a \<in> set (ring_nodes bl). key_of ht a = key \<and> entry_of ht a = e)"
proof -
  have "inj_on (key_of ht) (set (ring_nodes bl))" using assms by (simp add: ht_wf_def)
  moreover from assms have "distinct (ring_nodes bl)" by (rule ht_wfE)
  ultimately have "distinct (map fst (entries ht bl))"
    by (simp add: entries_def comp_def distinct_map)
  then show ?thesis by (auto simp: entries_def)
qed

lemma map_of_entries_None:
  assumes "ht_wf ht bl"
  shows "map_of (entries ht bl) key = None \<longleftrightarrow> (\<forall>a \<in> set (ring_nodes bl). key_of ht a \<noteq> key)"
  by (auto simp: map_of_eq_None_iff entries_def image_image)

text \<open>A lookup in one step, for every operation that starts with one.\<close>

lemma lookup_spec:
  assumes "ht_wf ht bl" "num_buckets ht = Inr n"
  shows "\<exists>r. bucket_index ht (hash_str key) = Inr (unat (hash_str key) mod n) \<and>
    get_bucket ht (unat (hash_str key) mod n) = Inr (bucket_of bl (unat (hash_str key) mod n)) \<and>
    hashtable_find_pair ht (bucket_of bl (unat (hash_str key) mod n)) key (hash_str key) = Inr r \<and>
    (case r of None \<Rightarrow> map_of (entries ht bl) key = None
     | Some a \<Rightarrow> a \<in> set (ring_nodes bl) \<and> key_of ht a = key \<and> map_of (entries ht bl) key = Some (entry_of ht a))"
proof -
  from find_in_bucket[OF assms, of key] obtain r where
    r: "hashtable_find_pair ht (bucket_of bl (unat (hash_str key) mod n)) key (hash_str key) = Inr r"
      "\<And>a. r = Some a \<longleftrightarrow> a \<in> set (ring_nodes bl) \<and> key_of ht a = key" by blast
  from assms(1) obtain n' where n': "num_buckets ht = Inr n'" "0 < n'" "table_shape ht n' bl" by (rule ht_wfE)
  with assms(2) have "n' = n" by simp
  with n' have "get_bucket ht (unat (hash_str key) mod n) = Inr (bucket_of bl (unat (hash_str key) mod n))"
    by (simp add: get_bucket_shape)
  moreover have "case r of None \<Rightarrow> map_of (entries ht bl) key = None
     | Some a \<Rightarrow> a \<in> set (ring_nodes bl) \<and> key_of ht a = key \<and> map_of (entries ht bl) key = Some (entry_of ht a)"
  proof (cases r)
    case None
    with r(2) show ?thesis by (auto simp: map_of_entries_None[OF assms(1)])
  next
    case (Some a)
    with r(2)[of a] show ?thesis by (auto simp: map_of_entries[OF assms(1)])
  qed
  ultimately show ?thesis using r(1) assms(2) by (simp add: bucket_index_def)
qed

lemma hashtable_get_correct:
  assumes "ht_rep ht M"
  shows "hashtable_get ht key = Inr (map_option snd (M key))"
proof -
  from assms obtain bl where wf: "ht_wf ht bl" and M: "M = map_of (entries ht bl)" by (auto simp: ht_rep_def)
  from wf obtain n where n: "num_buckets ht = Inr n" by (rule ht_wfE)
  from lookup_spec[OF wf n, of key] obtain r where
    r: "bucket_index ht (hash_str key) = Inr (unat (hash_str key) mod n)"
      "get_bucket ht (unat (hash_str key) mod n) = Inr (bucket_of bl (unat (hash_str key) mod n))"
      "hashtable_find_pair ht (bucket_of bl (unat (hash_str key) mod n)) key (hash_str key) = Inr r"
      "case r of None \<Rightarrow> map_of (entries ht bl) key = None
       | Some a \<Rightarrow> a \<in> set (ring_nodes bl) \<and> key_of ht a = key \<and> map_of (entries ht bl) key = Some (entry_of ht a)"
    by blast
  show ?thesis
  proof (cases r)
    case None
    with r M show ?thesis by (simp add: hashtable_get_def)
  next
    case (Some a)
    with r(4) have a: "a \<in> set (ring_nodes bl)" "M key = Some (entry_of ht a)" using M by simp_all
    from get_pair_live[OF wf_node(2,1)[OF wf a(1)]] obtain p where
      p: "get_pair ht a = Inr p" "(pair_serial p, pair_value p) = entry_of ht a" by blast
    then have "pair_value p = snd (entry_of ht a)" by (metis snd_conv)
    with Some r p a(2) show ?thesis by (simp add: hashtable_get_def)
  qed
qed

section \<open>Rehashing\<close>

fun path :: "(nat \<Rightarrow> nat) \<Rightarrow> nat list \<Rightarrow> bool" where
  "path n [] \<longleftrightarrow> True"
| "path n (a # as) \<longleftrightarrow> n a = hd (as @ [0]) \<and> path n as"

lemma path_cong: "path n as \<Longrightarrow> (\<And>a. a \<in> set as \<Longrightarrow> n' a = n a) \<Longrightarrow> path n' as"
  by (induction as) auto

lemma ring_path: "ring ht xs \<Longrightarrow> path (nxt ht) xs"
proof -
  have "chain n p (as @ [0]) \<Longrightarrow> path n as" for n :: "nat \<Rightarrow> nat" and p as
    by (induction as) (auto simp: neq_Nil_conv chain_def successively_Cons split: list.splits)
  moreover assume "ring ht xs"
  then have "chain (nxt ht) (prv ht) (xs @ [0])" by (cases xs) (auto simp: ring_def)
  ultimately show ?thesis by blast
qed

lemma rehash_loop_spec:
  "table_shape ht n bl \<Longrightarrow> 0 < n \<Longrightarrow> path (nxt ht) zs \<Longrightarrow> distinct zs \<Longrightarrow>
     (\<forall>a \<in> set zs. a \<noteq> 0 \<and> live ht a \<and> a \<notin> set (ring_nodes bl)) \<Longrightarrow> length zs < k \<Longrightarrow>
     \<exists>ht' bl'. rehash_loop k n (hd (zs @ [0])) ht = Inr ht' \<and> table_shape ht' n bl' \<and> kept ht ht' \<and>
       mset (ring_nodes bl') = mset zs + mset (ring_nodes bl)"
proof (induction zs arbitrary: ht bl k)
  case Nil
  then show ?case by (cases k) auto
next
  case (Cons a zs)
  obtain k' where k: "k = Suc k'" using Cons.prems(6) by (cases k) auto
  have a: "a \<noteq> 0" "live ht a" "a \<notin> set (ring_nodes bl)" "nxt ht a = hd (zs @ [0])" using Cons.prems by auto
  from get_pair_live[OF a(2,1)] obtain p where p: "get_pair ht a = Inr p" "pair_hash p = hash_of ht a" by blast
  let ?i = "unat (hash_of ht a) mod n"
  have "?i < n" using Cons.prems(2) by simp
  from insert_to_bucket_shape[OF Cons.prems(1) this a(1,2,3) refl] obtain h1 bl1 where
    h1: "insert_to_bucket ?i a ht = Inr h1" "table_shape h1 n bl1" "kept ht h1"
      "mset (ring_nodes bl1) = add_mset a (mset (ring_nodes bl))"
      "\<forall>x. x \<notin> set (0 # a # ring_nodes bl) \<longrightarrow> nxt h1 x = nxt ht x" by blast
  have nodes: "set (ring_nodes bl1) = insert a (set (ring_nodes bl))"
    using arg_cong[OF h1(4), of set_mset] by simp
  have "path (nxt h1) zs"
    by (rule path_cong[of "nxt ht"]) (use Cons.prems h1(5) in auto)
  moreover have "\<forall>b \<in> set zs. b \<noteq> 0 \<and> live h1 b \<and> b \<notin> set (ring_nodes bl1)"
    using Cons.prems(4,5) nodes h1(3) by (auto simp: kept_def)
  ultimately obtain h2 bl2 where
    h2: "rehash_loop k' n (hd (zs @ [0])) h1 = Inr h2" "table_shape h2 n bl2" "kept h1 h2"
      "mset (ring_nodes bl2) = mset zs + mset (ring_nodes bl1)"
    using Cons.IH[OF h1(2) Cons.prems(2), of k'] Cons.prems(4,6) k by auto
  have "rehash_loop k n (hd ((a # zs) @ [0])) ht = Inr h2"
    using k a p h1(1) h2(1) by simp
  with h2 h1(4) kept_trans[OF h1(3) h2(3)] show ?case by auto
qed

lemma shape_frame:
  assumes "table_shape ht n bl" "buckets ht' = buckets ht"
    "\<And>a. a = 0 \<or> a \<in> set (ring_nodes bl) \<Longrightarrow> nxt ht' a = nxt ht a \<and> prv ht' a = prv ht a"
    "\<And>a. a \<in> set (ring_nodes bl) \<Longrightarrow> live ht' a \<and> hash_of ht' a = hash_of ht a"
  shows "table_shape ht' n bl"
proof -
  let ?ys = "0 # ring_nodes bl @ [0]"
  have r: "ring ht (ring_nodes bl)" and ok: "blocks_ok ht n bl" using assms(1) by (simp_all add: table_shape_def)
  have sub: "x \<in> set ?ys \<Longrightarrow> x = 0 \<or> x \<in> set (ring_nodes bl)" for x by auto
  have "chain (nxt ht') (prv ht') ?ys"
  proof (rule chain_cong)
    show "chain (nxt ht) (prv ht) ?ys" using r by (simp add: ring_def)
  qed (use assms(3) in \<open>auto simp: butlast_append\<close>)
  then have "ring ht' (ring_nodes bl)" using r assms(4) by (auto simp: ring_def)
  moreover have "blocks_ok ht' n bl"
    using ok assms(4) unfolding blocks_ok_def ring_nodes_def by fastforce
  ultimately show ?thesis using assms(1,2) by (simp add: table_shape_def)
qed

lemma num_buckets_cong:
  "num_buckets_index ht' = num_buckets_index ht \<Longrightarrow> num_buckets ht' = num_buckets ht"
  by (simp add: num_buckets_def)

lemma wf_transfer:
  assumes wf: "ht_wf ht bl" and "num_buckets ht' = Inr n" "table_shape ht' n bl'"
    "payload ht' = payload ht" "live ht' = live ht" "ht_size ht' = ht_size ht" "next_pair ht' = next_pair ht"
    "mset (ring_nodes bl') = mset (ring_nodes bl)"
  shows "ht_wf ht' bl'" "map_of (entries ht' bl') = map_of (entries ht bl)"
proof -
  have data: "hash_of ht' = hash_of ht" "key_of ht' = key_of ht" "entry_of ht' = entry_of ht"
    using assms(4) by (auto simp: hash_of_def key_of_def entry_of_def fun_eq_iff)
  have nodes: "set (ring_nodes bl') = set (ring_nodes bl)" "length (ring_nodes bl') = length (ring_nodes bl)"
    using assms(8) by (metis set_mset_mset, metis size_mset)
  show wf': "ht_wf ht' bl'"
    using wf assms(2,3,5-7) unfolding ht_wf_def data nodes by auto
  have eq: "map_of (entries ht' bl') k = Some e \<longleftrightarrow> map_of (entries ht bl) k = Some e" for k e
    by (simp add: map_of_entries[OF wf] map_of_entries[OF wf'] data nodes)
  show "map_of (entries ht' bl') = map_of (entries ht bl)"
    by (rule map_eqI, rule eq)
qed

lemma hashtable_do_rehash_spec:
  assumes wf: "ht_wf ht bl" and idx: "Suc (num_buckets_index ht) < length primes"
    and m: "try_malloc rt s = (ok, s')"
  shows "if ok then \<exists>ht' bl'. hashtable_do_rehash rt ht s = Inr (0, ht', s') \<and> ht_wf ht' bl' \<and>
      kept (ht\<lparr>num_buckets_index := Suc (num_buckets_index ht)\<rparr>) ht' \<and>
      map_of (entries ht' bl') = map_of (entries ht bl) \<and> set (ring_nodes bl') = set (ring_nodes bl)
    else \<exists>ht'. hashtable_do_rehash rt ht s = Inr (-1, ht', s') \<and> buckets ht' = None"
proof (cases ok)
  case False
  with assms show ?thesis by (simp add: hashtable_do_rehash_def num_buckets_def)
next
  case True
  let ?n = "primes ! Suc (num_buckets_index ht)"
  let ?h0 = "ht\<lparr>num_buckets_index := Suc (num_buckets_index ht), buckets := Some (empty_buckets ?n)\<rparr>"
  from list_init_live[of ?h0 0] obtain h1 where
    h1: "list_init 0 ?h0 = Inr h1" "nxt h1 = (nxt ht)(0 := 0)" "prv h1 = (prv ht)(0 := 0)" "relinked ?h0 h1"
    by auto
  have n: "0 < ?n" "num_buckets h1 = Inr ?n" using idx primes_pos[OF idx] h1(4)
    by (simp_all add: num_buckets_def relinked_def)
  have r: "ring ht (ring_nodes bl)" and d: "distinct (ring_nodes bl)"
    using wf by (auto elim: ht_wfE)
  have "bucket_of [] = (\<lambda>_. \<lparr>first_node = 0, last_node = 0\<rparr>)" by (simp add: bucket_of_def fun_eq_iff)
  then have "table_shape h1 ?n []"
    using h1(2-4) by (simp add: table_shape_def ring_def blocks_ok_def relinked_def empty_buckets_def
        map_replicate_const)
  moreover have "path (nxt h1) (ring_nodes bl)"
    by (rule path_cong[OF ring_path[OF r]]) (use r h1(2) in \<open>auto simp: ring_def\<close>)
  moreover have "live h1 = live ht" using h1(4) by (simp add: relinked_def)
  moreover have "length (ring_nodes bl) < Suc (next_pair h1)"
    using wf_fuel[OF wf] h1(4) by (simp add: relinked_def)
  ultimately obtain h2 bl2 where
    h2: "rehash_loop (Suc (next_pair h1)) ?n (hd (ring_nodes bl @ [0])) h1 = Inr h2"
      "table_shape h2 ?n bl2" "kept h1 h2" "mset (ring_nodes bl2) = mset (ring_nodes bl)"
    using rehash_loop_spec[of h1 ?n "[]" "ring_nodes bl" "Suc (next_pair h1)"] n(1) d r
    by (auto simp: ring_def)
  have "list_next ht = hd (ring_nodes bl @ [0])" using ring_ends(1)[OF r] by (simp add: nxt_def)
  then have run: "hashtable_do_rehash rt ht s = Inr (0, h2, s')"
    using True m idx h1(1) h2(1) 
    by (simp add: hashtable_do_rehash_def num_buckets_def Let_def del: rehash_loop.simps)
  have k: "kept (ht\<lparr>num_buckets_index := Suc (num_buckets_index ht)\<rparr>) h2"
    using h1(4) h2(3) by (simp add: relinked_def kept_def)
  have "num_buckets h2 = Inr ?n" using n(2) h2(3) num_buckets_cong[of h2 h1] by (simp add: kept_def)
  note w = wf_transfer[OF wf this h2(2) _ _ _ _ h2(4)]
  have "ht_wf h2 bl2" "map_of (entries h2 bl2) = map_of (entries ht bl)"
    by (rule w; use k in \<open>simp add: kept_def\<close>)+
  moreover have "set (ring_nodes bl2) = set (ring_nodes bl)" using h2(4) by (metis set_mset_mset)
  ultimately show ?thesis using True run k by auto
qed

section \<open>Setting a key\<close>

lemma set_value_spec:
  assumes wf: "ht_wf ht bl" and a: "a \<in> set (ring_nodes bl)"
  shows "\<exists>ht'. set_value a v ht = Inr ht' \<and> ht_wf ht' bl \<and> ht_size ht' = ht_size ht \<and>
    map_of (entries ht' bl) = (map_of (entries ht bl))(key_of ht a \<mapsto> (fst (entry_of ht a), v))"
proof -
  from wf obtain n where n: "num_buckets ht = Inr n" "table_shape ht n bl" by (rule ht_wfE)
  have a0: "a \<noteq> 0" "live ht a" using wf_node[OF wf a] by simp_all
  then obtain p where p: "pairs ht a = Some p" by (auto simp: live_def)
  let ?h = "ht\<lparr>pairs := (pairs ht)(a \<mapsto> p\<lparr>pair_value := v\<rparr>)\<rparr>"
  have run: "set_value a v ht = Inr ?h" using a0 p by (simp add: set_value_def get_pair_def)
  have view: "nxt ?h = nxt ht" "prv ?h = prv ht" "live ?h = live ht" "hash_of ?h = hash_of ht"
    "key_of ?h = key_of ht"
    using p a0 by (auto simp: fun_eq_iff nxt_def prv_def live_def hash_of_def key_of_def payload_def)
  have e: "entry_of ?h = (entry_of ht)(a := (fst (entry_of ht a), v))"
    using p a0 by (auto simp: fun_eq_iff entry_of_def payload_def)
  have "table_shape ?h n bl"
    by (rule shape_frame[OF n(2)]) (use wf_node[OF wf] view in \<open>auto\<close>)
  moreover have "num_buckets ?h = Inr n" using n num_buckets_cong[of ?h ht] by simp
  ultimately have wf': "ht_wf ?h bl" using wf n by (simp add: ht_wf_def view)
  have inj: "inj_on (key_of ht) (set (ring_nodes bl))" using wf by (simp add: ht_wf_def)
  have eq: "map_of (entries ?h bl) k = Some x \<longleftrightarrow>
      ((map_of (entries ht bl))(key_of ht a \<mapsto> (fst (entry_of ht a), v))) k = Some x" for k x
    unfolding map_of_entries[OF wf'] e view
    using a inj map_of_entries[OF wf, of k x] by (cases "k = key_of ht a") (auto dest: inj_onD)
  have "map_of (entries ?h bl) = (map_of (entries ht bl))(key_of ht a \<mapsto> (fst (entry_of ht a), v))"
    by (rule map_eqI, rule eq)
  with run wf' show ?thesis by auto
qed

lemma add_pair_spec:
  fixes ht :: "'v hashtable_t" and v :: 'v and serial :: nat
  assumes wf: "ht_wf ht bl" and n: "num_buckets ht = Inr n" and fresh: "map_of (entries ht bl) key = None"
  defines "ht1 \<equiv> ht\<lparr>pairs := (pairs ht)(next_pair ht \<mapsto> \<lparr>pair_hash = hash_str key, pair_prev = next_pair ht,
      pair_next = next_pair ht, pair_value = v, pair_serial = serial, pair_key = key\<rparr>),
      next_pair := Suc (next_pair ht)\<rparr>"
  shows "\<exists>ht' bl'. obind (list_init (next_pair ht) ht1)
      (insert_to_bucket (unat (hash_str key) mod n) (next_pair ht)) = Inr ht' \<and>
    ht_wf (ht'\<lparr>ht_size := Suc (ht_size ht')\<rparr>) bl' \<and> ht_size ht' = ht_size ht \<and>
    map_of (entries (ht'\<lparr>ht_size := Suc (ht_size ht')\<rparr>) bl') = (map_of (entries ht bl))(key \<mapsto> (serial, v))"
proof -
  let ?a = "next_pair ht" and ?i = "unat (hash_str key) mod n"
  from wf obtain n' where n': "num_buckets ht = Inr n'" "0 < n'" "table_shape ht n' bl" by (rule ht_wfE)
  with n have [simp]: "n' = n" by simp
  have a: "?a \<noteq> 0" "?a \<notin> set (ring_nodes bl)" using wf wf_node(3)[OF wf, of ?a] by (auto simp: ht_wf_def)
  have view: "x \<noteq> ?a \<Longrightarrow> nxt ht1 x = nxt ht x \<and> prv ht1 x = prv ht x \<and> live ht1 x = live ht x \<and>
      payload ht1 x = payload ht x" for x
    by (simp add: ht1_def nxt_def prv_def live_def payload_def)
  have new: "live ht1 ?a" "payload ht1 ?a = Some (hash_str key, key, serial, v)"
    using a by (simp_all add: ht1_def live_def payload_def)
  from list_init_live[OF new(1)] obtain h2 where
    h2: "list_init ?a ht1 = Inr h2" "nxt h2 = (nxt ht1)(?a := ?a)" "prv h2 = (prv ht1)(?a := ?a)"
      "relinked ht1 h2" by blast
  have pay2: "payload h2 = payload ht1" "live h2 = live ht1" "buckets h2 = buckets ht"
    using h2(4) by (simp_all add: relinked_def ht1_def)
  have "table_shape h2 n bl"
  proof (rule shape_frame[of ht])
    show "table_shape ht n bl" using n' by simp
    show "nxt h2 x = nxt ht x \<and> prv h2 x = prv ht x" if "x = 0 \<or> x \<in> set (ring_nodes bl)" for x
      using that a view[of x] h2(2,3) by (metis fun_upd_other)
    show "live h2 x \<and> hash_of h2 x = hash_of ht x" if "x \<in> set (ring_nodes bl)" for x
      using that a view[of x] pay2 wf_node(2)[OF wf that] by (metis hash_of_def)
  qed (rule pay2)
  moreover have "unat (hash_of h2 ?a) mod n = ?i" using pay2(1) new(2) by (simp add: hash_of_def)
  moreover have "?i < n" using n' by simp
  ultimately obtain h3 bl3 where
    h3: "insert_to_bucket ?i ?a h2 = Inr h3" "table_shape h3 n bl3" "kept h2 h3"
      "mset (ring_nodes bl3) = add_mset ?a (mset (ring_nodes bl))"
    using insert_to_bucket_shape[of h2 n bl ?i ?a] a new(1) pay2 by metis
  let ?h = "h3\<lparr>ht_size := Suc (ht_size h3)\<rparr>"
  have pay: "payload ?h = payload ht1" "live ?h = live ht1" "next_pair ?h = Suc ?a" "ht_size ?h = Suc (ht_size ht)"
    "num_buckets_index ?h = num_buckets_index ht"
    using h3(3) h2(4) by (simp_all add: kept_def relinked_def ht1_def)
  have n3: "num_buckets ?h = Inr n" using n num_buckets_cong[OF pay(5)] by simp
  have nodes: "set (ring_nodes bl3) = insert ?a (set (ring_nodes bl))"
    "length (ring_nodes bl3) = Suc (length (ring_nodes bl))"
    using arg_cong[OF h3(4), of set_mset] arg_cong[OF h3(4), of size] by simp_all
  have data: "hash_of ?h x = hash_of ht x \<and> key_of ?h x = key_of ht x \<and> entry_of ?h x = entry_of ht x"
    if "x \<in> set (ring_nodes bl)" for x
    using that a view[of x] pay(1) by (metis hash_of_def key_of_def entry_of_def)
  have da: "hash_of ?h ?a = hash_str key" "key_of ?h ?a = key" "entry_of ?h ?a = (serial, v)"
    using new(2) pay(1) by (simp_all add: hash_of_def key_of_def entry_of_def)
  have nokey: "x \<in> set (ring_nodes bl) \<Longrightarrow> key_of ht x \<noteq> key" for x
    using fresh map_of_entries_None[OF wf] by auto
  have sh: "table_shape ?h n bl3"
    using h3(2) by (simp add: table_shape_def blocks_ok_def hash_of_def)
  have lv: "live ?h x \<longleftrightarrow> x = 0 \<or> x \<in> set (ring_nodes bl3)" for x
    using view[of x] wf new(1) unfolding pay nodes ht_wf_def by auto
  have inj: "inj_on (key_of ?h) (set (ring_nodes bl3))"
  proof -
    have "inj_on (key_of ?h) (set (ring_nodes bl))"
      using wf data by (auto simp: ht_wf_def inj_on_def)
    moreover have "key_of ?h ?a \<notin> key_of ?h ` set (ring_nodes bl)"
    proof
      assume "key_of ?h ?a \<in> key_of ?h ` set (ring_nodes bl)"
      then obtain x where x: "x \<in> set (ring_nodes bl)" "key_of ?h ?a = key_of ?h x" by blast
      with data[OF x(1)] da(2) nokey[OF x(1)] show False by simp
    qed
    ultimately show ?thesis unfolding nodes using a(2) by simp
  qed
  have wf': "ht_wf ?h bl3"
    unfolding ht_wf_def
  proof (intro conjI)
    show "\<exists>n. num_buckets ?h = Inr n \<and> table_shape ?h n bl3" using sh n3 by blast
    show "\<forall>x. live ?h x \<longleftrightarrow> x = 0 \<or> x \<in> set (ring_nodes bl3)" using lv by blast
    show "0 < next_pair ?h" using pay(3) by simp
    show "\<forall>x \<in> set (ring_nodes bl3). x < next_pair ?h \<and> hash_of ?h x = hash_str (key_of ?h x)"
    proof
      fix x assume "x \<in> set (ring_nodes bl3)"
      then consider "x = ?a" | "x \<in> set (ring_nodes bl)" unfolding nodes by blast
      then show "x < next_pair ?h \<and> hash_of ?h x = hash_str (key_of ?h x)"
      proof cases
        case 1
        then show ?thesis using da pay(3) by simp
      next
        case 2
        then show ?thesis using data[OF 2] wf_node[OF wf 2] pay(3) by simp
      qed
    qed
    show "inj_on (key_of ?h) (set (ring_nodes bl3))" by (rule inj)
    show "ht_size ?h = length (ring_nodes bl3)" using pay(4) nodes(2) wf by (simp add: ht_wf_def)
  qed
  have eq: "map_of (entries ?h bl3) k = Some x \<longleftrightarrow> ((map_of (entries ht bl))(key \<mapsto> (serial, v))) k = Some x" for k x
    using nokey data da by (auto simp: map_of_entries[OF wf] map_of_entries[OF wf'] nodes)
  have "map_of (entries ?h bl3) = (map_of (entries ht bl))(key \<mapsto> (serial, v))"
    by (rule map_eqI, rule eq)
  moreover have "obind (list_init ?a ht1) (insert_to_bucket ?i ?a) = Inr h3" using h2(1) h3(1) by simp
  moreover have "ht_size h3 = ht_size ht" using pay(4) by simp
  ultimately show ?thesis using wf' by blast
qed

lemma hashtable_set_spec:
  assumes rep: "ht_rep ht M" and room: "ht_size ht < 1610612741"
    and alloc: "fst (try_malloc rt s)" "fst (try_malloc rt (snd (try_malloc rt s)))"
  shows "\<exists>s1 ht'. (s1 = s \<or> s1 = snd (try_malloc rt s)) \<and>
    hashtable_set rt key serial v ht s =
      (case M key of Some (_, old) \<Rightarrow> obind (release rt old s1) (\<lambda>s2. Inr (0, ht', s2))
       | None \<Rightarrow> Inr (0, ht', snd (try_malloc rt s1))) \<and>
    ht_rep ht' (M(key \<mapsto> (case M key of Some (ser, _) \<Rightarrow> ser | None \<Rightarrow> serial, v))) \<and>
    ht_size ht' = (if M key = None then Suc (ht_size ht) else ht_size ht)"
proof -
  from rep obtain bl where wf: "ht_wf ht bl" and M: "M = map_of (entries ht bl)" by (auto simp: ht_rep_def)
  from wf obtain n where n: "num_buckets ht = Inr n" by (rule ht_wfE)
  let ?re = "if ht_size ht \<ge> n then hashtable_do_rehash rt ht s else Inr (0, ht, s)"
  have "\<exists>s1 h1 bl1. ?re = Inr (0, h1, s1) \<and> (s1 = s \<or> s1 = snd (try_malloc rt s)) \<and> ht_wf h1 bl1 \<and>
      map_of (entries h1 bl1) = M \<and> ht_size h1 = ht_size ht"
  proof (cases "ht_size ht \<ge> n")
    case True
    have "n \<in> set primes" "num_buckets_index ht < length primes" "n = primes ! num_buckets_index ht"
      using n by (auto simp: num_buckets_def split: if_splits)
    moreover have "num_buckets_index ht \<noteq> 28"
      using True room calculation(3) by (auto simp: primes_def)
    ultimately have "Suc (num_buckets_index ht) < length primes" by (simp add: primes_def)
    moreover obtain s' where "try_malloc rt s = (True, s')" using alloc(1) by (cases "try_malloc rt s") auto
    ultimately show ?thesis
      using hashtable_do_rehash_spec[OF wf, of rt s True s'] True M by (auto simp: kept_def)
  next
    case False
    then show ?thesis using wf M by auto
  qed
  then obtain s1 h1 bl1 where re: "?re = Inr (0, h1, s1)" "s1 = s \<or> s1 = snd (try_malloc rt s)"
    "ht_wf h1 bl1" "map_of (entries h1 bl1) = M" "ht_size h1 = ht_size ht" by blast
  from re(3) obtain n1 where n1: "num_buckets h1 = Inr n1" by (rule ht_wfE)
  from lookup_spec[OF re(3) n1, of key] obtain r where
    r: "bucket_index h1 (hash_str key) = Inr (unat (hash_str key) mod n1)"
      "get_bucket h1 (unat (hash_str key) mod n1) = Inr (bucket_of bl1 (unat (hash_str key) mod n1))"
      "hashtable_find_pair h1 (bucket_of bl1 (unat (hash_str key) mod n1)) key (hash_str key) = Inr r"
      "case r of None \<Rightarrow> M key = None
       | Some a \<Rightarrow> a \<in> set (ring_nodes bl1) \<and> key_of h1 a = key \<and> M key = Some (entry_of h1 a)"
    unfolding re(4) by blast
  show ?thesis
  proof (cases r)
    case (Some a)
    with r(4) have a: "a \<in> set (ring_nodes bl1)" "key_of h1 a = key" "M key = Some (entry_of h1 a)" by simp_all
    from get_pair_live[OF wf_node(2,1)[OF re(3) a(1)]] obtain p where
      p: "get_pair h1 a = Inr p" "(pair_serial p, pair_value p) = entry_of h1 a" by blast
    from set_value_spec[OF re(3) a(1), of v] obtain h2 where
      h2: "set_value a v h1 = Inr h2" "ht_wf h2 bl1" "ht_size h2 = ht_size h1"
        "map_of (entries h2 bl1) = M(key \<mapsto> (fst (entry_of h1 a), v))"
      unfolding re(4) a(2) by blast
    have "M key = Some (pair_serial p, pair_value p)" using a(3) p(2) by simp
    moreover have "hashtable_set rt key serial v ht s = obind (release rt (pair_value p) s1) (\<lambda>s2. Inr (0, h2, s2))"
      unfolding hashtable_set_def n obind_Inr re(1) using r(1-3) Some p(1) h2(1) by (simp add: Let_def)
    moreover have "ht_rep h2 (M(key \<mapsto> (pair_serial p, v)))"
      unfolding ht_rep_def using h2(2,4) p(2) by (metis fst_conv)
    ultimately show ?thesis using re(2,5) h2(3) by (intro exI[of _ s1] exI[of _ h2]) simp
  next
    case None
    with r(4) have no: "M key = None" by simp
    obtain s' where m: "try_malloc rt s1 = (True, s')" using alloc re(2) by (cases "try_malloc rt s1") auto
    from add_pair_spec[OF re(3) n1, of key v serial] re(4) no obtain h2 bl2 where
      h2: "obind (list_init (next_pair h1) (h1\<lparr>pairs := (pairs h1)(next_pair h1 \<mapsto> \<lparr>pair_hash = hash_str key,
           pair_prev = next_pair h1, pair_next = next_pair h1, pair_value = v, pair_serial = serial,
           pair_key = key\<rparr>), next_pair := Suc (next_pair h1)\<rparr>))
          (insert_to_bucket (unat (hash_str key) mod n1) (next_pair h1)) = Inr h2"
        "ht_wf (h2\<lparr>ht_size := Suc (ht_size h2)\<rparr>) bl2" "ht_size h2 = ht_size h1"
        "map_of (entries (h2\<lparr>ht_size := Suc (ht_size h2)\<rparr>) bl2) = M(key \<mapsto> (serial, v))" by auto
    have "hashtable_set rt key serial v ht s = Inr (0, h2\<lparr>ht_size := Suc (ht_size h2)\<rparr>, s')"
      unfolding hashtable_set_def n obind_Inr re(1) using r(1-3) None m h2(1)
      by (simp add: Let_def flip: obind_assoc)
    moreover have "ht_rep (h2\<lparr>ht_size := Suc (ht_size h2)\<rparr>) (M(key \<mapsto> (serial, v)))"
      unfolding ht_rep_def using h2(2,4) by metis
    ultimately show ?thesis using no re(2,5) h2(3) m
      by (intro exI[of _ s1] exI[of _ "h2\<lparr>ht_size := Suc (ht_size h2)\<rparr>"]) simp
  qed
qed

lemma hashtable_init_spec:
  fixes rt :: "('v, 's) runtime"
  assumes "try_malloc rt s = (True, s')"
  shows "\<exists>ht. hashtable_init rt s = Inr (0, ht, s') \<and> ht_rep ht Map.empty \<and> ht_size ht = 0"
proof -
  let ?h0 = "\<lparr>ht_size = 0, buckets = Some (empty_buckets 5), num_buckets_index = 0, list_prev = 0,
    list_next = 0, pairs = Map.empty, next_pair = 1\<rparr> :: 'v hashtable_t"
  have "hashtable_init rt s = Inr (0, ?h0, s')"
    using assms by (simp add: hashtable_init_def num_buckets_def primes_def list_init_def set_next_def set_prev_def)
  moreover have "bucket_of [] = (\<lambda>_. \<lparr>first_node = 0, last_node = 0\<rparr>)" by (simp add: bucket_of_def fun_eq_iff)
  then have "table_shape ?h0 5 []"
    by (simp add: table_shape_def ring_def blocks_ok_def empty_buckets_def map_replicate_const nxt_def prv_def)
  then have "ht_wf ?h0 []"
    by (simp add: ht_wf_def num_buckets_def primes_def live_def)
  then have "ht_rep ?h0 Map.empty" unfolding ht_rep_def by (intro exI[of _ "[]"]) (simp add: entries_def)
  ultimately show ?thesis by fastforce
qed

section \<open>Deleting a key\<close>

lemma remove_node_shape:
  assumes sh: "table_shape ht n bl" and a: "a \<in> set (ring_nodes bl)" and i: "unat (hash_of ht a) mod n = i" "0 < n"
    and pr: "pair_next pair = nxt ht a" "pair_prev pair = prv ht a"
  defines "bucket \<equiv> bucket_of bl i"
  shows "\<exists>ht1 ht' bl'. (if a = first_node bucket \<and> a = last_node bucket
        then set_bucket i \<lparr>first_node = 0, last_node = 0\<rparr> ht
        else if a = first_node bucket then set_bucket i (bucket\<lparr>first_node := pair_next pair\<rparr>) ht
        else if a = last_node bucket then set_bucket i (bucket\<lparr>last_node := pair_prev pair\<rparr>) ht
        else Inr ht) = Inr ht1 \<and> list_remove a ht1 = Inr ht' \<and> table_shape ht' n bl' \<and> kept ht ht' \<and>
      mset (ring_nodes bl) = add_mset a (mset (ring_nodes bl'))"
proof -
  from sh have ring0: "ring ht (ring_nodes bl)" and ok: "blocks_ok ht n bl"
    and b: "buckets ht = Some (map (bucket_of bl) [0..<n])" by (simp_all add: table_shape_def)
  from a obtain j seg where s: "(j, seg) \<in> set bl" "a \<in> set seg" by (auto simp: ring_nodes_def)
  with ok i have "j = i" by (auto simp: blocks_ok_def)
  with s ok have "map_of bl i = Some seg" by (auto simp: blocks_ok_def intro: map_of_is_SomeI)
  then obtain bl1 bl2 where bl: "bl = bl1 @ (i, seg) # bl2" "i \<notin> fst ` set bl1" by (rule blocks_split)
  have "i \<notin> fst ` set bl2" "i < n" using ok bl(1) by (auto simp: blocks_ok_def)
  then have fresh: "i \<notin> fst ` set (bl1 @ bl2)" using bl(2) by auto
  from s(2) obtain p q where seg: "seg = p @ a # q" by (auto simp: in_set_conv_decomp)
  have ring: "ring ht ((ring_nodes bl1 @ p) @ a # (q @ ring_nodes bl2))" using ring0 bl(1) seg by simp
  then have d: "a \<notin> set p" "a \<notin> set q" by (auto simp: ring_def)
  define bl' where "bl' = (if p @ q = [] then bl1 @ bl2 else bl1 @ (i, p @ q) # bl2)"
  have ok': "blocks_ok ht n bl'" using ok bl(1) seg by (auto simp: blocks_ok_def bl'_def)
  have nodes': "ring_nodes bl' = ring_nodes bl1 @ p @ q @ ring_nodes bl2" by (simp add: bl'_def)
  have bk: "bucket = \<lparr>first_node = hd seg, last_node = last seg\<rparr>"
    unfolding bucket_def bl(1) bucket_of_block[OF bl(2)] by simp
  have upd: "(bucket_of bl)(i := x) = (bucket_of (bl1 @ bl2))(i := x)" for x
    unfolding bl(1) bucket_of_block[OF bl(2)] by simp
  have bl'_ne: "p @ q \<noteq> [] \<Longrightarrow> bucket_of bl' = (bucket_of bl)(i := \<lparr>first_node = hd (p @ q), last_node = last (p @ q)\<rparr>)"
    unfolding upd bl'_def by (simp only: if_False bucket_of_block[OF bl(2)])
  have bl'_e: "p @ q = [] \<Longrightarrow> bucket_of bl' = (bucket_of bl)(i := \<lparr>first_node = 0, last_node = 0\<rparr>)"
    unfolding upd using bucket_of_fresh[OF fresh] by (auto simp: bl'_def fun_eq_iff)
  have nx: "q \<noteq> [] \<Longrightarrow> pair_next pair = hd q" using pr(1) ring_remove(2)[OF ring] by simp
  have pv: "p \<noteq> [] \<Longrightarrow> pair_prev pair = last p" using pr(2) ring_remove(3)[OF ring] by simp
  let ?h1 = "ht\<lparr>buckets := Some (map (bucket_of bl') [0..<n])\<rparr>"
  note st = set_bucket_shape[OF b \<open>i < n\<close>]
  have step: "(if a = first_node bucket \<and> a = last_node bucket
        then set_bucket i \<lparr>first_node = 0, last_node = 0\<rparr> ht
        else if a = first_node bucket then set_bucket i (bucket\<lparr>first_node := pair_next pair\<rparr>) ht
        else if a = last_node bucket then set_bucket i (bucket\<lparr>last_node := pair_prev pair\<rparr>) ht
        else Inr ht) = Inr ?h1"
  proof (cases "p = []"; cases "q = []")
    assume "p = []" "q = []"
    then show ?thesis using seg bk bl'_e st by simp
  next
    assume c: "p = []" "q \<noteq> []"
    then have "last q \<noteq> a" using d(2) last_in_set by metis
    with c show ?thesis using seg bk bl'_ne st nx by simp
  next
    assume c: "p \<noteq> []" "q = []"
    then have "hd p \<noteq> a" using d(1) hd_in_set by metis
    with c show ?thesis using seg bk bl'_ne st pv by simp
  next
    assume c: "p \<noteq> []" "q \<noteq> []"
    then have "hd p \<noteq> a" "last q \<noteq> a" using d hd_in_set last_in_set by metis+
    moreover have "bucket_of bl' = bucket_of bl"
      using c bl'_ne bk seg unfolding bucket_def by (simp add: fun_upd_idem)
    then have "?h1 = ht" using b by simp
    ultimately show ?thesis using c seg bk by simp
  qed
  have "ring ?h1 ((ring_nodes bl1 @ p) @ a # (q @ ring_nodes bl2))" using ring by simp
  from ring_remove(1)[OF this] obtain h2 where
    h2: "list_remove a ?h1 = Inr h2" "ring h2 (ring_nodes bl')" "relinked ?h1 h2" unfolding nodes' by auto
  have k: "kept ht h2" using h2(3) by (simp add: kept_def relinked_def)
  have "table_shape h2 n bl'"
    using h2(2,3) ok' kept_blocks_ok[OF k] by (simp add: table_shape_def relinked_def)
  moreover have "mset (ring_nodes bl) = add_mset a (mset (ring_nodes bl'))"
    unfolding nodes' using bl(1) seg by simp
  ultimately show ?thesis using step h2(1) k by blast
qed

lemma hashtable_del_spec:
  assumes rep: "ht_rep ht M"
  shows "\<exists>ht'. hashtable_del rt key ht s =
      (case M key of None \<Rightarrow> Inr (-1, ht, s) | Some (_, old) \<Rightarrow> obind (release rt old s) (\<lambda>s'. Inr (0, ht', s'))) \<and>
    ht_rep ht' (M(key := None)) \<and> ht_size ht' = (if M key = None then ht_size ht else ht_size ht - 1)"
proof -
  from rep obtain bl where wf: "ht_wf ht bl" and M: "M = map_of (entries ht bl)" by (auto simp: ht_rep_def)
  from wf obtain n where n: "num_buckets ht = Inr n" "0 < n" "table_shape ht n bl" "distinct (ring_nodes bl)"
    by (rule ht_wfE)
  let ?i = "unat (hash_str key) mod n"
  from lookup_spec[OF wf n(1), of key] obtain r where
    r: "bucket_index ht (hash_str key) = Inr ?i" "get_bucket ht ?i = Inr (bucket_of bl ?i)"
      "hashtable_find_pair ht (bucket_of bl ?i) key (hash_str key) = Inr r"
      "case r of None \<Rightarrow> M key = None
       | Some a \<Rightarrow> a \<in> set (ring_nodes bl) \<and> key_of ht a = key \<and> M key = Some (entry_of ht a)"
    unfolding M by blast
  show ?thesis
  proof (cases r)
    case None
    with r have no: "M key = None" by simp
    then have "M(key := None) = M" by (simp add: fun_upd_idem)
    with no None r rep show ?thesis
      by (intro exI[of _ ht]) (simp add: hashtable_del_def hashtable_do_del_def)
  next
    case (Some a)
    with r(4) have a: "a \<in> set (ring_nodes bl)" "key_of ht a = key" "M key = Some (entry_of ht a)" by simp_all
    from get_pair_live[OF wf_node(2,1)[OF wf a(1)]] obtain p where
      p: "get_pair ht a = Inr p" "(pair_serial p, pair_value p) = entry_of ht a" "pair_next p = nxt ht a"
        "pair_prev p = prv ht a" by blast
    have hi: "unat (hash_of ht a) mod n = ?i" using wf_node(4)[OF wf a(1)] a(2) by simp
    from remove_node_shape[OF n(3) a(1) hi n(2) p(3,4)] obtain h1 h2 bl' where
      h: "(if a = first_node (bucket_of bl ?i) \<and> a = last_node (bucket_of bl ?i)
        then set_bucket ?i \<lparr>first_node = 0, last_node = 0\<rparr> ht
        else if a = first_node (bucket_of bl ?i) then set_bucket ?i ((bucket_of bl ?i)\<lparr>first_node := pair_next p\<rparr>) ht
        else if a = last_node (bucket_of bl ?i) then set_bucket ?i ((bucket_of bl ?i)\<lparr>last_node := pair_prev p\<rparr>) ht
        else Inr ht) = Inr h1" "list_remove a h1 = Inr h2" "table_shape h2 n bl'" "kept ht h2"
        "mset (ring_nodes bl) = add_mset a (mset (ring_nodes bl'))" by blast
    let ?h = "h2\<lparr>pairs := (pairs h2)(a := None), ht_size := ht_size h2 - 1\<rparr>"
    have "hashtable_del rt key ht s = obind (release rt (pair_value p) s) (\<lambda>s'. Inr (0, ?h, s'))"
      unfolding hashtable_del_def hashtable_do_del_def r(1-3) obind_Inr Some option.case p(1) h(1,2) ..
    moreover have "M key = Some (pair_serial p, pair_value p)" using a(3) p(2) by simp
    moreover have "ht_size ?h = ht_size ht - 1" using h(4) by (simp add: kept_def)
    moreover have "ht_rep ?h (M(key := None))"
    proof -
      have nodes: "set (ring_nodes bl) = insert a (set (ring_nodes bl'))"
        "length (ring_nodes bl) = Suc (length (ring_nodes bl'))"
        using arg_cong[OF h(5), of set_mset] arg_cong[OF h(5), of size] by simp_all
      have "distinct (a # ring_nodes bl')"
        using n(4) h(5) by (metis mset.simps(2) mset_eq_imp_distinct_iff)
      then have out: "a \<notin> set (ring_nodes bl')" by simp
      have a0: "a \<noteq> 0" using wf_node(1)[OF wf a(1)] .
      have view: "x \<noteq> a \<Longrightarrow> nxt ?h x = nxt h2 x \<and> prv ?h x = prv h2 x \<and> live ?h x = live ht x \<and>
          payload ?h x = payload ht x" for x
      proof -
        assume "x \<noteq> a"
        then have "nxt ?h x = nxt h2 x \<and> prv ?h x = prv h2 x \<and> live ?h x = live h2 x \<and>
          payload ?h x = payload h2 x" by (simp add: nxt_def prv_def live_def payload_def)
        with h(4) show ?thesis by (simp add: kept_def)
      qed
      have dead: "\<not> live ?h a" using a0 by (simp add: live_def)
      have data: "hash_of ?h x = hash_of ht x \<and> key_of ?h x = key_of ht x \<and> entry_of ?h x = entry_of ht x"
        if "x \<in> set (ring_nodes bl')" for x
      proof -
        have "x \<noteq> a" using that out by blast
        with view[of x] show ?thesis by (simp add: hash_of_def key_of_def entry_of_def)
      qed
      have sh: "table_shape ?h n bl'"
      proof (rule shape_frame[OF h(3)])
        show "nxt ?h x = nxt h2 x \<and> prv ?h x = prv h2 x" if "x = 0 \<or> x \<in> set (ring_nodes bl')" for x
          using that out a0 view[of x] by auto
        show "live ?h x \<and> hash_of ?h x = hash_of h2 x" if x: "x \<in> set (ring_nodes bl')" for x
        proof -
          have "x \<noteq> a" using x out by auto
          moreover have "live ht x" using wf_node(2)[OF wf, of x] x nodes(1) by simp
          moreover have "hash_of h2 x = hash_of ht x" using kept_data[OF h(4)] by simp
          ultimately show ?thesis using view[of x] data[OF x] by simp
        qed
      qed simp
      have nb: "num_buckets ?h = Inr n" using n(1) num_buckets_cong[of ?h ht] h(4) by (simp add: kept_def)
      have wf': "ht_wf ?h bl'"
        unfolding ht_wf_def
      proof (intro conjI)
        show "\<exists>n. num_buckets ?h = Inr n \<and> table_shape ?h n bl'" using sh nb by blast
        show "\<forall>x. live ?h x \<longleftrightarrow> x = 0 \<or> x \<in> set (ring_nodes bl')"
        proof
          fix x
          show "live ?h x \<longleftrightarrow> x = 0 \<or> x \<in> set (ring_nodes bl')"
          proof (cases "x = a")
            case True
            then show ?thesis using dead a0 out by simp
          next
            case False
            have "live ht x \<longleftrightarrow> x = 0 \<or> x \<in> set (ring_nodes bl)" using wf by (simp add: ht_wf_def)
            then show ?thesis using view[OF False] False nodes(1) by simp
          qed
        qed
        show "0 < next_pair ?h" using wf h(4) by (simp add: ht_wf_def kept_def)
        show "\<forall>x \<in> set (ring_nodes bl'). x < next_pair ?h \<and> hash_of ?h x = hash_str (key_of ?h x)"
          using data wf_node[OF wf] nodes(1) h(4) by (simp add: kept_def)
        have "inj_on (key_of ht) (set (ring_nodes bl'))"
          using wf nodes(1) by (auto simp: ht_wf_def intro: inj_on_subset)
        then show "inj_on (key_of ?h) (set (ring_nodes bl'))" using data by (simp add: inj_on_def)
        show "ht_size ?h = length (ring_nodes bl')"
          using wf nodes(2) h(4) by (simp add: ht_wf_def kept_def)
      qed
      have uniq: "x \<in> set (ring_nodes bl') \<Longrightarrow> key_of ht x \<noteq> key" for x
        using wf nodes(1) out a(2) by (auto simp: ht_wf_def inj_on_def)
      have eq: "map_of (entries ?h bl') k = Some e \<longleftrightarrow> (M(key := None)) k = Some e" for k e
      proof -
        have "map_of (entries ?h bl') k = Some e \<longleftrightarrow>
            (\<exists>x \<in> set (ring_nodes bl'). key_of ht x = k \<and> entry_of ht x = e)"
          unfolding map_of_entries[OF wf'] using data by (intro bex_cong) auto
        also have "\<dots> \<longleftrightarrow> k \<noteq> key \<and> M k = Some e"
          unfolding M map_of_entries[OF wf] nodes(1) using uniq a(2) by auto
        finally show ?thesis by simp
      qed
      have "map_of (entries ?h bl') = M(key := None)" by (rule map_eqI, rule eq)
      then show ?thesis using wf' unfolding ht_rep_def by metis
    qed
    ultimately show ?thesis by (intro exI[of _ ?h]) simp
  qed
qed

section \<open>Clearing and iterating\<close>

fun release_all :: "('v, 's) runtime \<Rightarrow> 'v list \<Rightarrow> 's \<Rightarrow> 's outcome" where
  "release_all rt [] s = Inr s"
| "release_all rt (v # vs) s = obind (release rt v s) (release_all rt vs)"

lemma do_clear_loop_spec:
  "path (nxt ht) zs \<Longrightarrow> distinct zs \<Longrightarrow> (\<forall>a \<in> set zs. a \<noteq> 0 \<and> live ht a) \<Longrightarrow> length zs < k \<Longrightarrow>
     do_clear_loop k rt (hd (zs @ [0])) ht s =
       obind (release_all rt (map (\<lambda>a. snd (entry_of ht a)) zs) s)
         (\<lambda>s. Inr (ht\<lparr>pairs := (\<lambda>a. if a \<in> set zs then None else pairs ht a)\<rparr>, s))"
proof (induction zs arbitrary: ht s k)
  case Nil
  then show ?case by (cases k) auto
next
  case (Cons a zs)
  obtain k' where k: "k = Suc k'" using Cons.prems(4) by (cases k) auto
  have a: "a \<noteq> 0" "live ht a" "nxt ht a = hd (zs @ [0])" "a \<notin> set zs" using Cons.prems by auto
  from get_pair_live[OF a(2,1)] obtain p where
    p: "get_pair ht a = Inr p" "(pair_serial p, pair_value p) = entry_of ht a" by blast
  then have v: "pair_value p = snd (entry_of ht a)" by (metis snd_conv)
  let ?h = "ht\<lparr>pairs := (pairs ht)(a := None)\<rparr>"
  have view: "x \<noteq> a \<Longrightarrow> nxt ?h x = nxt ht x \<and> live ?h x = live ht x \<and> entry_of ?h x = entry_of ht x" for x
    by (simp add: nxt_def live_def entry_of_def payload_def)
  have "nxt ?h x = nxt ht x" if "x \<in> set zs" for x
    using view[of x] that a(4) by blast
  with Cons.prems(1) have "path (nxt ?h) zs" by (auto intro: path_cong)
  moreover have "x \<noteq> 0 \<and> live ?h x" if "x \<in> set zs" for x
    using view[of x] that a(4) Cons.prems(3) by (metis list.set_intros(2))
  ultimately have IH: "do_clear_loop k' rt (hd (zs @ [0])) ?h s' =
      obind (release_all rt (map (\<lambda>a. snd (entry_of ?h a)) zs) s')
         (\<lambda>s. Inr (?h\<lparr>pairs := (\<lambda>x. if x \<in> set zs then None else pairs ?h x)\<rparr>, s))" for s'
    using Cons.IH[of ?h k' s'] Cons.prems(2,4) k by simp
  have "map (\<lambda>a. snd (entry_of ?h a)) zs = map (\<lambda>a. snd (entry_of ht a)) zs"
  proof (rule map_cong[OF refl])
    fix x assume "x \<in> set zs"
    with a(4) have "x \<noteq> a" by blast
    with view[of x] show "snd (entry_of ?h x) = snd (entry_of ht x)" by simp
  qed
  moreover have "(\<lambda>x. if x \<in> set zs then None else pairs ?h x) = (\<lambda>x. if x \<in> set (a # zs) then None else pairs ht x)"
    by auto
  ultimately have "do_clear_loop k' rt (hd (zs @ [0])) ?h = (\<lambda>s'.
      obind (release_all rt (map (\<lambda>a. snd (entry_of ht a)) zs) s')
        (\<lambda>s. Inr (?h\<lparr>pairs := (\<lambda>x. if x \<in> set (a # zs) then None else pairs ht x)\<rparr>, s)))"
    using IH by (intro ext) (simp only:)
  then show ?case
    using k a p v by (simp add: obind_assoc del: fun_upd_apply)
qed

lemma hashtable_do_clear_spec:
  assumes wf: "ht_wf ht bl"
  shows "hashtable_do_clear rt ht s = obind (release_all rt (map (\<lambda>a. snd (entry_of ht a)) (ring_nodes bl)) s)
    (\<lambda>s. Inr (ht\<lparr>pairs := (\<lambda>a. if a \<in> set (ring_nodes bl) then None else pairs ht a)\<rparr>, s))"
proof -
  have r: "ring ht (ring_nodes bl)" using wf by (auto elim: ht_wfE)
  then have "list_next ht = hd (ring_nodes bl @ [0])" using ring_ends(1)[OF r] by (simp add: nxt_def)
  moreover have "length (ring_nodes bl) < Suc (next_pair ht)" using wf_fuel[OF wf] by simp
  ultimately show ?thesis
    unfolding hashtable_do_clear_def
    using do_clear_loop_spec[OF ring_path[OF r], of "Suc (next_pair ht)" rt s] r by (simp add: ring_def)
qed

text \<open>Clearing releases every value once and leaves an empty table.\<close>

lemma hashtable_clear_spec:
  assumes rep: "ht_rep ht M"
  shows "\<exists>es ht'. distinct (map fst es) \<and> map_of es = M \<and>
    hashtable_clear rt ht s = obind (release_all rt (map (snd \<circ> snd) es) s) (\<lambda>s. Inr (ht', s)) \<and>
    ht_rep ht' Map.empty \<and> ht_size ht' = 0"
proof -
  from rep obtain bl where wf: "ht_wf ht bl" and M: "M = map_of (entries ht bl)" by (auto simp: ht_rep_def)
  from wf obtain n where n: "num_buckets ht = Inr n" "0 < n" "table_shape ht n bl" "distinct (ring_nodes bl)"
    by (rule ht_wfE)
  let ?h0 = "ht\<lparr>pairs := (\<lambda>a. if a \<in> set (ring_nodes bl) then None else pairs ht a)\<rparr>"
  let ?h1 = "?h0\<lparr>buckets := Some (empty_buckets n), list_next := 0, list_prev := 0, ht_size := 0\<rparr>"
  have dist: "distinct (map fst (entries ht bl))"
    using n(4) wf by (simp add: entries_def comp_def distinct_map ht_wf_def)
  have b: "buckets ht = Some (map (bucket_of bl) [0..<n])" using n(3) by (simp add: table_shape_def)
  have nb: "num_buckets ?h0 = Inr n" using n(1) num_buckets_cong[of ?h0 ht] by simp
  have run: "hashtable_clear rt ht s = obind (release_all rt (map (snd \<circ> snd) (entries ht bl)) s)
      (\<lambda>s. Inr (?h1, s))"
    unfolding hashtable_clear_def hashtable_do_clear_spec[OF wf] obind_assoc
    by (simp add: nb b list_init_def set_next_def set_prev_def entries_def comp_def)
  have lv: "live ?h1 a \<longleftrightarrow> a = 0" for a
  proof -
    have "live ht a \<longleftrightarrow> a = 0 \<or> a \<in> set (ring_nodes bl)" using wf by (simp add: ht_wf_def)
    then show ?thesis by (cases "a \<in> set (ring_nodes bl)") (auto simp: live_def)
  qed
  have "bucket_of [] = (\<lambda>_. \<lparr>first_node = 0, last_node = 0\<rparr>)" by (simp add: bucket_of_def fun_eq_iff)
  then have "table_shape ?h1 n []"
    by (simp add: table_shape_def ring_def blocks_ok_def empty_buckets_def map_replicate_const nxt_def prv_def)
  moreover have "num_buckets ?h1 = Inr n" using n(1) num_buckets_cong[of ?h1 ht] by simp
  ultimately have "ht_wf ?h1 []" using lv wf by (simp add: ht_wf_def)
  then have "ht_rep ?h1 Map.empty" unfolding ht_rep_def by (intro exI[of _ "[]"]) (simp add: entries_def)
  with run dist M show ?thesis
    by (intro exI[of _ "entries ht bl"] exI[of _ ?h1]) simp
qed

lemma hashtable_close_spec:
  assumes rep: "ht_rep ht M"
  shows "\<exists>es ht'. distinct (map fst es) \<and> map_of es = M \<and>
    hashtable_close rt ht s = obind (release_all rt (map (snd \<circ> snd) es) s) (\<lambda>s. Inr (ht', s)) \<and>
    (\<forall>a. \<not> (a \<noteq> 0 \<and> live ht' a)) \<and> buckets ht' = None"
proof -
  from rep obtain bl where wf: "ht_wf ht bl" and M: "M = map_of (entries ht bl)" by (auto simp: ht_rep_def)
  have d: "distinct (ring_nodes bl)" using wf by (auto elim: ht_wfE)
  have dist: "distinct (map fst (entries ht bl))"
    using d wf by (simp add: entries_def comp_def distinct_map ht_wf_def)
  let ?h = "ht\<lparr>pairs := (\<lambda>a. if a \<in> set (ring_nodes bl) then None else pairs ht a), buckets := None\<rparr>"
  have dead: "a \<noteq> 0 \<Longrightarrow> a \<notin> set (ring_nodes bl) \<Longrightarrow> \<not> live ht a" for a
    using wf by (simp add: ht_wf_def)
  have "hashtable_close rt ht s = obind (release_all rt (map (snd \<circ> snd) (entries ht bl)) s) (\<lambda>s. Inr (?h, s))"
    unfolding hashtable_close_def hashtable_do_clear_spec[OF wf] obind_assoc
    by (simp add: entries_def comp_def)
  moreover have "\<forall>a. \<not> (a \<noteq> 0 \<and> live ?h a)"
  proof (intro allI notI)
    fix a assume "a \<noteq> 0 \<and> live ?h a"
    then show False using dead[of a] by (cases "a \<in> set (ring_nodes bl)") (auto simp: live_def)
  qed
  ultimately show ?thesis using dist M by (intro exI[of _ "entries ht bl"] exI[of _ ?h]) simp
qed

text \<open>
  The loop of \<open>json_object_foreach\<close> (\<open>jansson.h\<close>) over the iterators, as the list of what it
  visits.
\<close>

fun foreach_loop :: "nat \<Rightarrow> 'v hashtable_t \<Rightarrow> nat option \<Rightarrow> (byte list \<times> nat \<times> 'v) list outcome" where
  "foreach_loop 0 ht iter = Inl Diverges"
| "foreach_loop (Suc n) ht iter =
     (case iter of None \<Rightarrow> Inr []
      | Some a \<Rightarrow>
          obind (hashtable_iter_key ht a) (\<lambda>k.
          obind (hashtable_iter_serial ht a) (\<lambda>ser.
          obind (hashtable_iter_value ht a) (\<lambda>v.
          obind (hashtable_iter_next ht a) (\<lambda>iter.
          obind (foreach_loop n ht iter) (\<lambda>es. Inr ((k, ser, v) # es)))))))"

definition hashtable_foreach :: "'v hashtable_t \<Rightarrow> (byte list \<times> nat \<times> 'v) list outcome" where
  "hashtable_foreach ht = obind (hashtable_iter ht) (foreach_loop (Suc (next_pair ht)) ht)"

definition iter_of :: "nat \<Rightarrow> nat option" where
  "iter_of a = (if a = 0 then None else Some a)"

lemma foreach_loop_spec:
  "path (nxt ht) zs \<Longrightarrow> (\<forall>a \<in> set zs. a \<noteq> 0 \<and> live ht a) \<Longrightarrow> length zs < k \<Longrightarrow>
     foreach_loop k ht (iter_of (hd (zs @ [0]))) = Inr (map (\<lambda>a. (key_of ht a, entry_of ht a)) zs)"
proof (induction zs arbitrary: k)
  case Nil
  then show ?case by (cases k) (auto simp: iter_of_def)
next
  case (Cons a zs)
  obtain k' where k: "k = Suc k'" using Cons.prems(3) by (cases k) auto
  have a: "a \<noteq> 0" "live ht a" "nxt ht a = hd (zs @ [0])" using Cons.prems by auto
  from get_pair_live[OF a(2,1)] obtain p where
    p: "get_pair ht a = Inr p" "pair_key p = key_of ht a" "(pair_serial p, pair_value p) = entry_of ht a" by blast
  have "hashtable_iter_next ht a = Inr (iter_of (hd (zs @ [0])))"
    using a by (simp add: hashtable_iter_next_def iter_of_def)
  moreover have "foreach_loop k' ht (iter_of (hd (zs @ [0]))) = Inr (map (\<lambda>a. (key_of ht a, entry_of ht a)) zs)"
    using Cons k by simp
  moreover have "iter_of (hd ((a # zs) @ [0])) = Some a" using a(1) by (simp add: iter_of_def)
  ultimately show ?case
    using k p by (simp add: hashtable_iter_key_def hashtable_iter_serial_def hashtable_iter_value_def)
qed

lemma hashtable_foreach_spec:
  assumes rep: "ht_rep ht M"
  shows "\<exists>es. hashtable_foreach ht = Inr es \<and> distinct (map fst es) \<and> map_of es = M \<and>
    length es = ht_size ht"
proof -
  from rep obtain bl where wf: "ht_wf ht bl" and M: "M = map_of (entries ht bl)" by (auto simp: ht_rep_def)
  have r: "ring ht (ring_nodes bl)" and d: "distinct (ring_nodes bl)" using wf by (auto elim: ht_wfE)
  have dist: "distinct (map fst (entries ht bl))"
    using d wf by (simp add: entries_def comp_def distinct_map ht_wf_def)
  have "hashtable_iter ht = Inr (iter_of (hd (ring_nodes bl @ [0])))"
    using ring_ends(1)[OF r] by (simp add: hashtable_iter_def hashtable_iter_next_def iter_of_def)
  moreover have "length (ring_nodes bl) < Suc (next_pair ht)" using wf_fuel[OF wf] by simp
  ultimately have "hashtable_foreach ht = Inr (entries ht bl)"
    using foreach_loop_spec[OF ring_path[OF r], of "Suc (next_pair ht)"] r
    by (simp add: hashtable_foreach_def entries_def ring_def del: foreach_loop.simps)
  with dist M wf show ?thesis by (simp add: entries_def ht_wf_def)
qed

section \<open>The contract of a string map\<close>

datatype 'v map_op = Put "byte list" 'v | Drop "byte list"

fun map_apply :: "'v map_op \<Rightarrow> (byte list \<rightharpoonup> 'v) \<Rightarrow> (byte list \<rightharpoonup> 'v)" where
  "map_apply (Put k v) M = M(k \<mapsto> v)"
| "map_apply (Drop k) M = M(k := None)"

fun perform :: "(byte list \<Rightarrow> 'v \<Rightarrow> 't \<Rightarrow> 't outcome) \<Rightarrow> (byte list \<Rightarrow> 't \<Rightarrow> 't outcome) \<Rightarrow>
    'v map_op \<Rightarrow> 't \<Rightarrow> 't outcome" where
  "perform put drop_key (Put k v) t = put k v t"
| "perform put drop_key (Drop k) t = drop_key k t"

fun perform_all :: "(byte list \<Rightarrow> 'v \<Rightarrow> 't \<Rightarrow> 't outcome) \<Rightarrow> (byte list \<Rightarrow> 't \<Rightarrow> 't outcome) \<Rightarrow>
    'v map_op list \<Rightarrow> 't \<Rightarrow> 't outcome" where
  "perform_all put drop_key [] t = Inr t"
| "perform_all put drop_key (x # xs) t = obind (perform put drop_key x t) (perform_all put drop_key xs)"

locale string_map =
  fixes put :: "byte list \<Rightarrow> 'v \<Rightarrow> 't \<Rightarrow> 't outcome"
    and drop_key :: "byte list \<Rightarrow> 't \<Rightarrow> 't outcome"
    and look :: "'t \<Rightarrow> byte list \<Rightarrow> 'v option outcome"
    and stands :: "'t \<Rightarrow> (byte list \<rightharpoonup> 'v) \<Rightarrow> bool"
    and room :: "'t \<Rightarrow> nat"
  assumes look_law: "stands t M \<Longrightarrow> look t k = Inr (M k)"
    and put_law: "stands t M \<Longrightarrow> 0 < room t \<Longrightarrow>
      \<exists>t'. put k v t = Inr t' \<and> stands t' (M(k \<mapsto> v)) \<and> room t \<le> Suc (room t')"
    and drop_law: "stands t M \<Longrightarrow> \<exists>t'. drop_key k t = Inr t' \<and> stands t' (M(k := None)) \<and> room t \<le> room t'"
begin

lemma perform_law:
  "stands t M \<Longrightarrow> 0 < room t \<Longrightarrow>
     \<exists>t'. perform put drop_key x t = Inr t' \<and> stands t' (map_apply x M) \<and> room t \<le> Suc (room t')"
proof (cases x)
  case (Drop k)
  moreover assume "stands t M"
  ultimately show ?thesis using drop_law[of t M k] by (auto intro: le_SucI)
qed (use put_law in auto)

lemma run_refines:
  "stands t M \<Longrightarrow> length xs \<le> room t \<Longrightarrow>
     \<exists>t'. perform_all put drop_key xs t = Inr t' \<and> stands t' (fold map_apply xs M) \<and>
       (\<forall>k. look t' k = Inr (fold map_apply xs M k))"
proof (induction xs arbitrary: t M)
  case Nil
  then show ?case using look_law by auto
next
  case (Cons x xs)
  from perform_law[OF Cons.prems(1), of x] Cons.prems(2) obtain t' where
    "perform put drop_key x t = Inr t'" "stands t' (map_apply x M)" "room t \<le> Suc (room t')" by auto
  with Cons.IH[of t' "map_apply x M"] Cons.prems(2) show ?case by auto
qed

end

text \<open>
  The hash table with its caller: the runtime it is used with, the table and the caller's state.
  The runtime is good when memory lasts and releasing a value never faults.
\<close>

definition good_runtime :: "('v, 's) runtime \<Rightarrow> bool" where
  "good_runtime rt \<longleftrightarrow> (\<forall>s. fst (try_malloc rt s)) \<and> (\<forall>v s. returns (release rt v s))"

type_synonym ('v, 's) table_user = "('v, 's) runtime \<times> 'v hashtable_t \<times> 's"

definition user_put :: "nat \<Rightarrow> byte list \<Rightarrow> 'v \<Rightarrow> ('v, 's) table_user \<Rightarrow> ('v, 's) table_user outcome" where
  "user_put serial k v = (\<lambda>(rt, ht, s).
     obind (hashtable_set rt k serial v ht s) (\<lambda>(r, ht, s). Inr (rt, ht, s)))"

definition user_drop :: "byte list \<Rightarrow> ('v, 's) table_user \<Rightarrow> ('v, 's) table_user outcome" where
  "user_drop k = (\<lambda>(rt, ht, s). obind (hashtable_del rt k ht s) (\<lambda>(r, ht, s). Inr (rt, ht, s)))"

definition user_look :: "('v, 's) table_user \<Rightarrow> byte list \<Rightarrow> 'v option outcome" where
  "user_look = (\<lambda>(rt, ht, s) k. hashtable_get ht k)"

definition user_stands :: "('v, 's) table_user \<Rightarrow> (byte list \<rightharpoonup> 'v) \<Rightarrow> bool" where
  "user_stands = (\<lambda>(rt, ht, s) M. good_runtime rt \<and> (\<exists>N. ht_rep ht N \<and> M = map_option snd \<circ> N))"

definition user_room :: "('v, 's) table_user \<Rightarrow> nat" where
  "user_room = (\<lambda>(rt, ht, s). 1610612741 - ht_size ht)"

interpretation table: string_map "user_put serial" user_drop user_look user_stands user_room
proof unfold_locales
  fix t :: "('a, 'b) table_user" and M k
  obtain rt ht s where t: "t = (rt, ht, s)" by (cases t)
  assume "user_stands t M"
  then show "user_look t k = Inr (M k)"
    by (auto simp: t user_stands_def user_look_def hashtable_get_correct)
next
  fix t :: "('a, 'b) table_user" and M k v
  obtain rt ht s where t: "t = (rt, ht, s)" by (cases t)
  assume "user_stands t M" and room: "0 < user_room t"
  then obtain N where N: "good_runtime rt" "ht_rep ht N" "M = map_option snd \<circ> N"
    by (auto simp: t user_stands_def)
  have "ht_size ht < 1610612741" using room by (simp add: t user_room_def)
  from hashtable_set_spec[OF N(2) this, of rt s k serial v] N(1) obtain s1 ht' where
    h: "hashtable_set rt k serial v ht s =
      (case N k of Some (_, old) \<Rightarrow> obind (release rt old s1) (\<lambda>s2. Inr (0, ht', s2))
       | None \<Rightarrow> Inr (0, ht', snd (try_malloc rt s1)))"
      "ht_rep ht' (N(k \<mapsto> (case N k of Some (ser, _) \<Rightarrow> ser | None \<Rightarrow> serial, v)))"
      "ht_size ht' = (if N k = None then Suc (ht_size ht) else ht_size ht)"
    by (auto simp: good_runtime_def)
  have "\<exists>s'. hashtable_set rt k serial v ht s = Inr (0, ht', s')"
    using h(1) N(1) by (auto simp: good_runtime_def returns_iff split: option.splits) (metis obind_Inr)
  moreover have "map_option snd \<circ> (N(k \<mapsto> (case N k of Some (ser, _) \<Rightarrow> ser | None \<Rightarrow> serial, v))) = M(k \<mapsto> v)"
    using N(3) by (auto simp: fun_eq_iff)
  ultimately show "\<exists>t'. user_put serial k v t = Inr t' \<and> user_stands t' (M(k \<mapsto> v)) \<and> user_room t \<le> Suc (user_room t')"
    using h(2,3) N(1) unfolding t user_put_def user_stands_def user_room_def
    by (force split: if_splits)
next
  fix t :: "('a, 'b) table_user" and M k
  obtain rt ht s where t: "t = (rt, ht, s)" by (cases t)
  assume "user_stands t M"
  then obtain N where N: "good_runtime rt" "ht_rep ht N" "M = map_option snd \<circ> N"
    by (auto simp: t user_stands_def)
  from hashtable_del_spec[OF N(2), of rt k s] obtain ht' where
    h: "hashtable_del rt k ht s =
      (case N k of None \<Rightarrow> Inr (-1, ht, s) | Some (_, old) \<Rightarrow> obind (release rt old s) (\<lambda>s'. Inr (0, ht', s')))"
      "ht_rep ht' (N(k := None))" "ht_size ht' = (if N k = None then ht_size ht else ht_size ht - 1)" by blast
  have eq: "map_option snd \<circ> N(k := None) = M(k := None)" using N(3) by (auto simp: fun_eq_iff)
  show "\<exists>t'. user_drop k t = Inr t' \<and> user_stands t' (M(k := None)) \<and> user_room t \<le> user_room t'"
  proof (cases "N k")
    case None
    then have "N(k := None) = N" by (simp add: fun_upd_idem)
    with None h N eq show ?thesis
      unfolding t user_drop_def user_stands_def user_room_def by (auto simp del: fun_upd_apply)
  next
    case (Some e)
    have "returns (release rt (snd e) s)" using N(1) by (simp add: good_runtime_def)
    then obtain s' where "release rt (snd e) s = Inr s'" by (auto simp: returns_iff)
    with Some h N eq show ?thesis
      unfolding t user_drop_def user_stands_def user_room_def
      by (cases e) (auto simp del: fun_upd_apply)
  qed
qed


section \<open>The properties\<close>

definition counting_runtime :: "(nat, nat) runtime" where
  "counting_runtime = \<lparr>try_malloc = (\<lambda>s. (True, s)), release = (\<lambda>v s. Inr (s + v))\<rparr>"

lemma counting_runtime_good: "good_runtime counting_runtime"
  by (simp add: good_runtime_def counting_runtime_def)

text \<open>C14: a hash table is a map.  Whatever sequence of \<open>hashtable_set\<close> and
  \<open>hashtable_del\<close> runs on a fresh table, up to the capacity of the largest prime and through all
  the rehashing on the way, no run faults or diverges, and \<open>hashtable_get\<close> then answers for
  every key what the finite map after the same updates holds.\<close>

theorem hashtable_refines_map:
  assumes "good_runtime rt" "length xs \<le> 1610612741"
  shows "\<exists>ht s1 ht' s'. hashtable_init rt s = Inr (0, ht, s1) \<and>
    perform_all (user_put serial) user_drop xs (rt, ht, s1) = Inr (rt, ht', s') \<and>
    (\<forall>k. hashtable_get ht' k = Inr (fold map_apply xs Map.empty k))"
proof -
  from assms(1) obtain s1 where "try_malloc rt s = (True, s1)"
    unfolding good_runtime_def by (metis prod.collapse)
  from hashtable_init_spec[OF this] obtain ht where
    ht: "hashtable_init rt s = Inr (0, ht, s1)" "ht_rep ht Map.empty" "ht_size ht = 0" by blast
  have st: "user_stands (rt, ht, s1) Map.empty"
    using assms(1) ht(2) unfolding user_stands_def by (auto intro!: exI[of _ Map.empty])
  have "length xs \<le> user_room (rt, ht, s1)" using assms(2) ht(3) by (simp add: user_room_def)
  from table.run_refines[OF st this, of serial] obtain t' where
    t': "perform_all (user_put serial) user_drop xs (rt, ht, s1) = Inr t'"
      "\<forall>k. user_look t' k = Inr (fold map_apply xs Map.empty k)" by blast
  obtain rt' ht' s' where t: "t' = (rt', ht', s')" by (cases t')
  have "perform_all (user_put serial) user_drop ys (rt, h, s0) = Inr (rt', h', s'') \<Longrightarrow> rt' = rt"
    for ys h s0 h' s''
  proof (induction ys arbitrary: h s0)
    case (Cons y ys)
    then show ?case
      by (cases y) (auto simp: obind_eq_Inr user_put_def user_drop_def)
  qed simp
  with t' t ht(1) show ?thesis by (auto simp: user_look_def)
qed

theorem hashtable_refines_map_witness:
  "\<exists>ht s1 ht' s'. hashtable_init counting_runtime 0 = Inr (0, ht, s1) \<and>
    perform_all (user_put 0) user_drop [Put (cstr ''a'') 1, Put (cstr ''b'') 2, Put (cstr ''a'') 3, Drop (cstr ''b'')]
      (counting_runtime, ht, s1) = Inr (counting_runtime, ht', s') \<and>
    hashtable_get ht' (cstr ''a'') = Inr (Some 3) \<and> hashtable_get ht' (cstr ''b'') = Inr None"
  using hashtable_refines_map[OF counting_runtime_good, of "[Put (cstr ''a'') 1, Put (cstr ''b'') 2,
      Put (cstr ''a'') 3, Drop (cstr ''b'')]" 0 0]
  by (fastforce simp: cstr_def)

text \<open>C15: \<open>hashtable_set\<close> on any well-formed table: the value of a present key is released once
  and replaced under the serial number it had, an absent key is added under the given one, every
  other entry stays, and the size is right.\<close>

theorem hashtable_set_correct:
  assumes "ht_rep ht M" "ht_size ht < 1610612741" "fst (try_malloc rt s)" "fst (try_malloc rt (snd (try_malloc rt s)))"
  shows "\<exists>s1 ht'. (s1 = s \<or> s1 = snd (try_malloc rt s)) \<and>
    hashtable_set rt key serial v ht s =
      (case M key of Some (_, old) \<Rightarrow> obind (release rt old s1) (\<lambda>s2. Inr (0, ht', s2))
       | None \<Rightarrow> Inr (0, ht', snd (try_malloc rt s1))) \<and>
    ht_rep ht' (M(key \<mapsto> (case M key of Some (ser, _) \<Rightarrow> ser | None \<Rightarrow> serial, v))) \<and>
    ht_size ht' = (if M key = None then Suc (ht_size ht) else ht_size ht)"
  by (rule hashtable_set_spec[OF assms])

theorem hashtable_set_correct_witness:
  "\<exists>ht ht'. hashtable_init counting_runtime 0 = Inr (0, ht, 0) \<and>
    hashtable_set counting_runtime (cstr ''a'') 4 7 ht 0 = Inr (0, ht', 0) \<and>
    ht_rep ht' [cstr ''a'' \<mapsto> (4, 7)] \<and> ht_size ht' = 1"
proof -
  have "try_malloc counting_runtime 0 = (True, 0)" by (simp add: counting_runtime_def)
  from hashtable_init_spec[OF this] obtain ht where
    ht: "hashtable_init counting_runtime 0 = Inr (0, ht, 0)" "ht_rep ht Map.empty" "ht_size ht = 0" by blast
  have "ht_size ht < 1610612741" "fst (try_malloc counting_runtime 0)"
    "fst (try_malloc counting_runtime (snd (try_malloc counting_runtime 0)))"
    using ht(3) by (simp_all add: counting_runtime_def)
  from hashtable_set_correct[OF ht(2) this, of "cstr ''a''" 4 7] ht(1,3) show ?thesis
    by (auto simp: counting_runtime_def)
qed

text \<open>C16: \<open>hashtable_clear\<close> releases the value of every entry exactly once, and leaves an
  empty table that is well-formed.\<close>

theorem hashtable_clear_correct:
  assumes "ht_rep ht M"
  shows "\<exists>es ht'. distinct (map fst es) \<and> map_of es = M \<and>
    hashtable_clear rt ht s = obind (release_all rt (map (snd \<circ> snd) es) s) (\<lambda>s. Inr (ht', s)) \<and>
    ht_rep ht' Map.empty \<and> ht_size ht' = 0"
  by (rule hashtable_clear_spec[OF assms])

theorem hashtable_clear_correct_witness:
  "\<exists>ht ht'. hashtable_init counting_runtime 5 = Inr (0, ht, 5) \<and>
    hashtable_clear counting_runtime ht 5 = Inr (ht', 5) \<and> ht_rep ht' Map.empty"
proof -
  have "try_malloc counting_runtime 5 = (True, 5)" by (simp add: counting_runtime_def)
  from hashtable_init_spec[OF this] obtain ht where
    ht: "hashtable_init counting_runtime 5 = Inr (0, ht, 5)" "ht_rep ht Map.empty" by blast
  from hashtable_clear_correct[OF ht(2), of counting_runtime 5] ht(1) show ?thesis by auto
qed

text \<open>C17: the iterators visit every entry of the table exactly once and then end.\<close>

theorem hashtable_foreach_visits_all:
  assumes "ht_rep ht M"
  shows "\<exists>es. hashtable_foreach ht = Inr es \<and> distinct (map fst es) \<and> map_of es = M \<and>
    length es = ht_size ht"
  by (rule hashtable_foreach_spec[OF assms])

theorem hashtable_foreach_visits_all_witness:
  "\<exists>ht. hashtable_init counting_runtime 0 = Inr (0, ht, 0) \<and> hashtable_foreach ht = Inr []"
proof -
  have "try_malloc counting_runtime 0 = (True, 0)" by (simp add: counting_runtime_def)
  from hashtable_init_spec[OF this] obtain ht where
    ht: "hashtable_init counting_runtime 0 = Inr (0, ht, 0)" "ht_rep ht Map.empty" "ht_size ht = 0" by blast
  from hashtable_foreach_visits_all[OF ht(2)] ht(1,3) show ?thesis by auto
qed

text \<open>C18: when the allocation of a rehash fails, \<open>hashtable_set\<close> returns -1 but has already freed
  the buckets: the next lookup, whatever the key, reads through the null bucket pointer.\<close>

theorem failed_rehash_breaks_table:
  assumes "num_buckets ht = Inr n" "n \<le> ht_size ht" "n < 1610612741"
    and "try_malloc rt s = (False, s')"
  shows "\<exists>ht'. hashtable_set rt key serial v ht s = Inr (-1, ht', s') \<and>
    hashtable_get ht' key' = Inl Null_Deref"
proof -
  have "num_buckets_index ht < length primes" "n = primes ! num_buckets_index ht"
    using assms(1) by (auto simp: num_buckets_def split: if_splits)
  moreover from this have "num_buckets_index ht \<noteq> 28" using assms(3) by (auto simp: primes_def)
  ultimately have idx: "Suc (num_buckets_index ht) < length primes" by (simp add: primes_def)
  let ?h = "ht\<lparr>num_buckets_index := Suc (num_buckets_index ht), buckets := None\<rparr>"
  have "hashtable_do_rehash rt ht s = Inr (-1, ?h, s')"
    using assms(4) idx by (simp add: hashtable_do_rehash_def num_buckets_def)
  then have "hashtable_set rt key serial v ht s = Inr (-1, ?h, s')"
    using assms(1,2) by (simp add: hashtable_set_def)
  moreover have "hashtable_get ?h key' = Inl Null_Deref"
    using idx by (simp add: hashtable_get_def bucket_index_def num_buckets_def get_bucket_def)
  ultimately show ?thesis by blast
qed

text \<open>A table with as many pairs as buckets.\<close>

definition loaded_table :: "nat hashtable_t" where
  "loaded_table = \<lparr>ht_size = 5, buckets = Some (empty_buckets 5), num_buckets_index = 0, list_prev = 5,
     list_next = 1, pairs = Map.empty, next_pair = 6\<rparr>"

theorem failed_rehash_breaks_table_witness:
  "\<exists>ht'. hashtable_set (counting_runtime\<lparr>try_malloc := \<lambda>s. (False, s)\<rparr>) (cstr ''f'') 0 1 loaded_table 0 =
       Inr (-1, ht', 0) \<and> hashtable_get ht' (cstr ''a'') = Inl Null_Deref"
proof -
  have "num_buckets loaded_table = Inr 5" "5 \<le> ht_size loaded_table" "(5 :: nat) < 1610612741"
    by (simp_all add: loaded_table_def num_buckets_def primes_def)
  from failed_rehash_breaks_table[OF this, of "counting_runtime\<lparr>try_malloc := \<lambda>s. (False, s)\<rparr>" 0 0]
  show ?thesis by simp
qed

end
