(* ===== verification/Doubles.thy ===== *)
theory Doubles
  imports C_Base
begin

text \<open>
  The \<open>double\<close> of the C code: IEEE 754 binary64, as its 64 bits.  The basic operations are
  exact in the rational numbers and then rounded to nearest, ties to even; \<open>strtod\<close> and the
  \<open>%.17g\<close> of \<open>printf\<close> convert between a double and decimal digits the same way.  A zero
  result of an addition is positive unless both operands are negative zeros.
\<close>

unbundle bit_operations_syntax

section \<open>The format\<close>

type_synonym double = "64 word"

definition double_exponent :: "double \<Rightarrow> double" where
  "double_exponent x = drop_bit 52 x AND 0x7FF"

definition double_mantissa :: "double \<Rightarrow> double" where
  "double_mantissa x = x AND 0xFFFFFFFFFFFFF"

definition double_sign :: "double \<Rightarrow> bool" where
  "double_sign x \<longleftrightarrow> drop_bit 63 x = 1"

definition isnan :: "double \<Rightarrow> bool" where
  "isnan x \<longleftrightarrow> double_exponent x = 0x7FF \<and> double_mantissa x \<noteq> 0"

definition isinf :: "double \<Rightarrow> bool" where
  "isinf x \<longleftrightarrow> double_exponent x = 0x7FF \<and> double_mantissa x = 0"

definition double_zero :: "double \<Rightarrow> bool" where
  "double_zero x \<longleftrightarrow> push_bit 1 x = 0"

definition double_nan :: double where
  "double_nan = 0x7FF8000000000000"

definition double_inf :: "bool \<Rightarrow> double" where
  "double_inf neg = (if neg then 0xFFF0000000000000 else 0x7FF0000000000000)"

definition signed_zero :: "bool \<Rightarrow> double" where
  "signed_zero neg = (if neg then 0x8000000000000000 else 0)"

text \<open>\<open>==\<close> on doubles: nothing equals a NaN, and the two zeros are equal.\<close>

definition double_eq :: "double \<Rightarrow> double \<Rightarrow> bool" where
  "double_eq x y \<longleftrightarrow> \<not> isnan x \<and> \<not> isnan y \<and> (x = y \<or> double_zero x \<and> double_zero y)"

text \<open>A finite double is \<open>m * 2 ^ e\<close>, up to its sign.\<close>

definition double_parts :: "double \<Rightarrow> nat \<times> int" where
  "double_parts x =
     (if double_exponent x = 0 then (unat (double_mantissa x), -1074)
      else (2 ^ 52 + unat (double_mantissa x), int (unat (double_exponent x)) - 1075))"

section \<open>Rounding\<close>

fun nat_log2 :: "nat \<Rightarrow> nat" where
  "nat_log2 n = (if n \<le> 1 then 0 else Suc (nat_log2 (n div 2)))"

declare nat_log2.simps [simp del]

definition round_div :: "nat \<Rightarrow> nat \<Rightarrow> nat" where
  "round_div n d =
     (let q = n div d; r = n mod d in if 2 * r > d \<or> 2 * r = d \<and> odd q then q + 1 else q)"

text \<open>\<open>n / d\<close> divided by \<open>2 ^ e\<close>, as numerator and denominator.\<close>

definition scale :: "nat \<Rightarrow> nat \<Rightarrow> int \<Rightarrow> nat \<times> nat" where
  "scale n d e = (if 0 \<le> e then (n, d * 2 ^ nat e) else (n * 2 ^ nat (- e), d))"

text \<open>The double nearest to \<open>n / d\<close>, infinite when that is too large.\<close>

definition double_of_ratio :: "bool \<Rightarrow> nat \<Rightarrow> nat \<Rightarrow> double" where
  "double_of_ratio neg n d =
     (if n = 0 then signed_zero neg
      else let e0 = int (nat_log2 n) - int (nat_log2 d) - 52;
          (a, b) = scale n d e0;
          e = max (if a div b < 2 ^ 52 then e0 - 1 else e0) (-1074);
          (a, b) = scale n d e;
          bits = nat (e + 1074) * 2 ^ 52 + round_div a b
        in if 0x7FF * 2 ^ 52 \<le> bits then double_inf neg
           else of_nat (bits + (if neg then 2 ^ 63 else 0)))"

definition double_of_int :: "int \<Rightarrow> double" where
  "double_of_int i = double_of_ratio (i < 0) (nat \<bar>i\<bar>) 1"

text \<open>The sign is that of an exact zero result.\<close>

definition double_of_scaled :: "bool \<Rightarrow> int \<Rightarrow> int \<Rightarrow> double" where
  "double_of_scaled zero_neg m e =
     (if m = 0 then signed_zero zero_neg
      else if 0 \<le> e then double_of_ratio (m < 0) (nat \<bar>m\<bar> * 2 ^ nat e) 1
      else double_of_ratio (m < 0) (nat \<bar>m\<bar>) (2 ^ nat (- e)))"

section \<open>Arithmetic\<close>

definition signed_mantissa :: "double \<Rightarrow> int" where
  "signed_mantissa x = (if double_sign x then - int (fst (double_parts x)) else int (fst (double_parts x)))"

text \<open>The value of a finite double as an integer, in units of \<open>2 ^ e\<close>.\<close>

definition in_units :: "int \<Rightarrow> double \<Rightarrow> int" where
  "in_units e x = signed_mantissa x * 2 ^ nat (snd (double_parts x) - e)"

definition double_neg :: "double \<Rightarrow> double" where
  "double_neg x = x XOR 0x8000000000000000"

definition double_add :: "double \<Rightarrow> double \<Rightarrow> double" where
  "double_add x y =
     (if isnan x \<or> isnan y then double_nan
      else if isinf x then (if isinf y \<and> double_sign x \<noteq> double_sign y then double_nan else x)
      else if isinf y then y
      else let e = min (snd (double_parts x)) (snd (double_parts y))
        in double_of_scaled (double_sign x \<and> double_sign y) (in_units e x + in_units e y) e)"

definition double_sub :: "double \<Rightarrow> double \<Rightarrow> double" where
  "double_sub x y = (if isnan y then double_nan else double_add x (double_neg y))"

definition double_mul :: "double \<Rightarrow> double \<Rightarrow> double" where
  "double_mul x y =
     (let neg = (double_sign x \<noteq> double_sign y) in
      if isnan x \<or> isnan y then double_nan
      else if isinf x \<or> isinf y
      then (if double_zero x \<or> double_zero y then double_nan else double_inf neg)
      else double_of_scaled neg (signed_mantissa x * signed_mantissa y)
        (snd (double_parts x) + snd (double_parts y)))"

definition double_div :: "double \<Rightarrow> double \<Rightarrow> double" where
  "double_div x y =
     (let neg = (double_sign x \<noteq> double_sign y) in
      if isnan x \<or> isnan y \<or> isinf x \<and> isinf y \<or> double_zero x \<and> double_zero y then double_nan
      else if isinf x \<or> double_zero y then double_inf neg
      else if isinf y \<or> double_zero x then signed_zero neg
      else let (n, d) = scale (fst (double_parts x)) (fst (double_parts y))
          (snd (double_parts y) - snd (double_parts x))
        in double_of_ratio neg n d)"

text \<open>\<open><\<close> is false when an operand is a NaN.\<close>

definition double_lt :: "double \<Rightarrow> double \<Rightarrow> bool" where
  "double_lt x y \<longleftrightarrow> \<not> isnan x \<and> \<not> isnan y \<and>
     (if isinf x then double_sign x \<and> \<not> (isinf y \<and> double_sign y)
      else if isinf y then \<not> double_sign y
      else let e = min (snd (double_parts x)) (snd (double_parts y)) in in_units e x < in_units e y)"

definition double_abs :: "double \<Rightarrow> double" where
  "double_abs x = x AND 0x7FFFFFFFFFFFFFFF"

text \<open>\<open>floor\<close>: an argument that is an integer, infinite or a NaN is returned as it is.\<close>

definition double_floor :: "double \<Rightarrow> double" where
  "double_floor x =
     (let (m, e) = double_parts x in
      if isnan x \<or> isinf x \<or> 0 \<le> e \<or> double_zero x then x
      else double_of_scaled (double_sign x) (signed_mantissa x div 2 ^ nat (- e)) 0)"

text \<open>What the simplifier needs to evaluate arithmetic on literals.\<close>

lemmas double_eval =
  double_neg_def double_abs_def double_add_def double_sub_def double_mul_def double_div_def double_lt_def
  double_floor_def double_of_int_def double_of_scaled_def double_of_ratio_def nat_log2.simps scale_def
  round_div_def Let_def double_zero_def signed_zero_def signed_mantissa_def in_units_def double_parts_def
  double_exponent_def double_mantissa_def double_sign_def isnan_def isinf_def double_inf_def double_nan_def

lemma double_lt_irrefl: "\<not> double_lt x x"
  by (auto simp: double_lt_def)

end
