(* ===== verification/Json_Value.thy ===== *)
theory Json_Value
  imports Hashtable Utf8 Doubles
begin

text \<open>
  \<open>src/lib/jansson-2.4/src/value.c\<close> with the inline functions of \<open>jansson.h\<close>: reference
  counted JSON values.  A \<open>json_t *\<close> is an address, 0 being null; the heap holds at each live
  address a reference count and a body with the members of the struct of its type.  A cell that
  was freed is gone, and touching it is a fault.  The three static values live at the addresses
  1, 2 and 3 with the count \<open>(size_t)-1\<close>.

  Every allocation may fail: \<open>jmem\<close> says how many more will succeed.  An allocation that a
  function frees again before it returns only uses up budget.  The recursion of \<open>json_decref\<close>
  into the members of a value carries fuel; each level of it deletes a cell, so that one more
  than the number of addresses ever used is enough.
\<close>

section \<open>The heap\<close>

datatype json_type =
  JSON_OBJECT | JSON_ARRAY | JSON_STRING | JSON_INTEGER | JSON_REAL | JSON_TRUE | JSON_FALSE | JSON_NULL

type_synonym jptr = nat
type_synonym json_int_t = "64 word"

text \<open>\<open>a_table\<close> is the allocated block; \<open>None\<close> is an element that was never written.\<close>

record json_object_t =
  hashtable :: "jptr hashtable_t"
  serial :: nat
  o_visited :: int

record json_array_t =
  a_entries :: nat
  a_table :: "jptr option list"
  a_visited :: int

datatype json_body =
    Object json_object_t
  | Array json_array_t
  | String "byte list"
  | Integer json_int_t
  | Real double
  | True_body
  | False_body
  | Null_body

primrec body_type :: "json_body \<Rightarrow> json_type" where
  "body_type (Object x) = JSON_OBJECT"
| "body_type (Array x) = JSON_ARRAY"
| "body_type (String x) = JSON_STRING"
| "body_type (Integer x) = JSON_INTEGER"
| "body_type (Real x) = JSON_REAL"
| "body_type True_body = JSON_TRUE"
| "body_type False_body = JSON_FALSE"
| "body_type Null_body = JSON_NULL"

record json_t =
  refcount :: size_t
  body :: json_body

record jheap =
  cells :: "nat \<rightharpoonup> json_t"
  jnext :: nat
  jmem :: nat

definition json_true :: jptr where "json_true = 1"
definition json_false :: jptr where "json_false = 2"
definition json_null :: jptr where "json_null = 3"

definition jheap_init :: "nat \<Rightarrow> jheap" where
  "jheap_init n = \<lparr>cells = [1 \<mapsto> \<lparr>refcount = -1, body = True_body\<rparr>, 2 \<mapsto> \<lparr>refcount = -1, body = False_body\<rparr>,
       3 \<mapsto> \<lparr>refcount = -1, body = Null_body\<rparr>], jnext = 4, jmem = n\<rparr>"

definition json_malloc :: "jheap \<Rightarrow> bool \<times> jheap" where
  "json_malloc h = (if jmem h = 0 then (False, h) else (True, h\<lparr>jmem := jmem h - 1\<rparr>))"

definition get_cell :: "jheap \<Rightarrow> jptr \<Rightarrow> json_t outcome" where
  "get_cell h p =
     (if p = 0 then Inl Null_Deref
      else case cells h p of None \<Rightarrow> Inl Use_After_Free | Some c \<Rightarrow> Inr c)"

definition put_body :: "jptr \<Rightarrow> json_body \<Rightarrow> jheap \<Rightarrow> jheap outcome" where
  "put_body p b h =
     obind (get_cell h p) (\<lambda>c. Inr (h\<lparr>cells := (cells h)(p \<mapsto> c\<lparr>body := b\<rparr>)\<rparr>))"

definition put_refcount :: "jptr \<Rightarrow> size_t \<Rightarrow> jheap \<Rightarrow> jheap outcome" where
  "put_refcount p n h =
     obind (get_cell h p) (\<lambda>c. Inr (h\<lparr>cells := (cells h)(p \<mapsto> c\<lparr>refcount := n\<rparr>)\<rparr>))"

definition json_free :: "jptr \<Rightarrow> jheap \<Rightarrow> jheap outcome" where
  "json_free p h = obind (get_cell h p) (\<lambda>_. Inr (h\<lparr>cells := (cells h)(p := None)\<rparr>))"

text \<open>\<open>json_init\<close> on a struct at a new address: the count starts at 1.\<close>

definition json_init :: "json_body \<Rightarrow> jheap \<Rightarrow> jptr \<times> jheap" where
  "json_init b h = (jnext h, h\<lparr>cells := (cells h)(jnext h \<mapsto> \<lparr>refcount = 1, body = b\<rparr>), jnext := Suc (jnext h)\<rparr>)"

text \<open>The type tests \<open>json_is_object\<close> and so on, which accept null.\<close>

definition json_is :: "json_type \<Rightarrow> jheap \<Rightarrow> jptr \<Rightarrow> bool outcome" where
  "json_is t h p =
     (if p = 0 then Inr False else obind (get_cell h p) (\<lambda>c. Inr (body_type (body c) = t)))"

definition get_object :: "jheap \<Rightarrow> jptr \<Rightarrow> json_object_t option outcome" where
  "get_object h p =
     (if p = 0 then Inr None
      else obind (get_cell h p) (\<lambda>c. Inr (case body c of Object x \<Rightarrow> Some x | _ \<Rightarrow> None)))"

definition get_array :: "jheap \<Rightarrow> jptr \<Rightarrow> json_array_t option outcome" where
  "get_array h p =
     (if p = 0 then Inr None
      else obind (get_cell h p) (\<lambda>c. Inr (case body c of Array x \<Rightarrow> Some x | _ \<Rightarrow> None)))"

section \<open>Reference counting\<close>

definition json_incref :: "jptr \<Rightarrow> jheap \<Rightarrow> jheap outcome" where
  "json_incref p h =
     (if p = 0 then Inr h
      else obind (get_cell h p) (\<lambda>c.
        if refcount c \<noteq> -1 then put_refcount p (refcount c + 1) h else Inr h))"

text \<open>The element \<open>i\<close> of a block of pointers.\<close>

definition table_at_index :: "jptr option list \<Rightarrow> nat \<Rightarrow> jptr outcome" where
  "table_at_index tb i =
     (if i < length tb then (case tb ! i of None \<Rightarrow> Inl Out_Of_Bounds | Some p \<Rightarrow> Inr p)
      else Inl Out_Of_Bounds)"

text \<open>The loop \<open>for(i = 0; i < array->entries; i++) json_decref(array->table[i])\<close>, \<open>k\<close> to go.\<close>

fun decref_elements :: "(jptr \<Rightarrow> jheap \<Rightarrow> jheap outcome) \<Rightarrow> jptr option list \<Rightarrow> nat \<Rightarrow> nat \<Rightarrow> jheap \<Rightarrow> jheap outcome" where
  "decref_elements decref tb i 0 h = Inr h"
| "decref_elements decref tb i (Suc k) h =
     obind (table_at_index tb i) (\<lambda>p.
     obind (decref p h) (decref_elements decref tb (Suc i) k))"

definition json_delete :: "(jptr \<Rightarrow> jheap \<Rightarrow> jheap outcome) \<Rightarrow> jptr \<Rightarrow> jheap \<Rightarrow> jheap outcome" where
  "json_delete decref p h =
     obind (get_cell h p) (\<lambda>c.
     case body c of
       Object obj \<Rightarrow>
         obind (hashtable_close \<lparr>try_malloc = json_malloc, release = decref\<rparr> (hashtable obj) h) (\<lambda>(_, h).
         json_free p h)
     | Array array \<Rightarrow>
         obind (decref_elements decref (a_table array) 0 (a_entries array) h) (json_free p)
     | String s \<Rightarrow> json_free p h
     | Integer i \<Rightarrow> json_free p h
     | Real r \<Rightarrow> json_free p h
     | _ \<Rightarrow> Inr h)"

fun json_decref_fuel :: "nat \<Rightarrow> jptr \<Rightarrow> jheap \<Rightarrow> jheap outcome" where
  "json_decref_fuel 0 p h = Inl Diverges"
| "json_decref_fuel (Suc n) p h =
     (if p = 0 then Inr h
      else obind (get_cell h p) (\<lambda>c.
        if refcount c = -1 then Inr h
        else obind (put_refcount p (refcount c - 1) h) (\<lambda>h.
          if refcount c - 1 = 0 then json_delete (json_decref_fuel n) p h else Inr h)))"

definition json_decref :: "jptr \<Rightarrow> jheap \<Rightarrow> jheap outcome" where
  "json_decref p h = json_decref_fuel (Suc (jnext h)) p h"

definition json_runtime :: "(jptr, jheap) runtime" where
  "json_runtime = \<lparr>try_malloc = json_malloc, release = json_decref\<rparr>"

section \<open>Objects\<close>

definition json_object :: "jheap \<Rightarrow> (jptr \<times> jheap) outcome" where
  "json_object h =
     (let (ok, h) = json_malloc h
      in if \<not> ok then Inr (0, h)
         else obind (hashtable_init json_runtime h) (\<lambda>(r, ht, h).
           if r \<noteq> 0 then Inr (0, h)
           else Inr (json_init (Object \<lparr>hashtable = ht, serial = 0, o_visited = 0\<rparr>) h)))"

definition json_object_size :: "jheap \<Rightarrow> jptr \<Rightarrow> nat outcome" where
  "json_object_size h p =
     obind (get_object h p) (\<lambda>x. case x of None \<Rightarrow> Inr 0 | Some obj \<Rightarrow> Inr (ht_size (hashtable obj)))"

definition json_object_get :: "jheap \<Rightarrow> jptr \<Rightarrow> byte list \<Rightarrow> jptr outcome" where
  "json_object_get h p key =
     obind (get_object h p) (\<lambda>x. case x of None \<Rightarrow> Inr 0
       | Some obj \<Rightarrow> obind (hashtable_get (hashtable obj) key) (\<lambda>v. Inr (case v of None \<Rightarrow> 0 | Some q \<Rightarrow> q)))"

text \<open>A nullable \<open>const char *\<close> is an optional string.\<close>

definition json_object_set_new_nocheck ::
    "jptr \<Rightarrow> byte list option \<Rightarrow> jptr \<Rightarrow> jheap \<Rightarrow> (int \<times> jheap) outcome" where
  "json_object_set_new_nocheck p key value h =
     (if value = 0 then Inr (-1, h)
      else case key of
        None \<Rightarrow> obind (json_decref value h) (\<lambda>h. Inr (-1, h))
      | Some key \<Rightarrow>
          obind (get_object h p) (\<lambda>x.
          if x = None \<or> p = value then obind (json_decref value h) (\<lambda>h. Inr (-1, h))
          else let obj = the x; ser = serial obj in
            obind (put_body p (Object (obj\<lparr>serial := Suc ser\<rparr>)) h) (\<lambda>h.
            obind (hashtable_set json_runtime key ser value (hashtable obj) h) (\<lambda>(r, ht, h).
            obind (put_body p (Object (obj\<lparr>serial := Suc ser, hashtable := ht\<rparr>)) h) (\<lambda>h.
            if r \<noteq> 0 then obind (json_decref value h) (\<lambda>h. Inr (-1, h)) else Inr (0, h))))))"

definition json_object_set_new ::
    "jptr \<Rightarrow> byte list option \<Rightarrow> jptr \<Rightarrow> jheap \<Rightarrow> (int \<times> jheap) outcome" where
  "json_object_set_new p key value h =
     (case key of
        None \<Rightarrow> obind (json_decref value h) (\<lambda>h. Inr (-1, h))
      | Some k \<Rightarrow> obind (utf8_check_string k (-1)) (\<lambda>ok.
          if \<not> ok then obind (json_decref value h) (\<lambda>h. Inr (-1, h))
          else json_object_set_new_nocheck p key value h))"

definition json_object_set :: "jptr \<Rightarrow> byte list option \<Rightarrow> jptr \<Rightarrow> jheap \<Rightarrow> (int \<times> jheap) outcome" where
  "json_object_set p key value h = obind (json_incref value h) (json_object_set_new p key value)"

definition json_object_set_nocheck :: "jptr \<Rightarrow> byte list option \<Rightarrow> jptr \<Rightarrow> jheap \<Rightarrow> (int \<times> jheap) outcome" where
  "json_object_set_nocheck p key value h =
     obind (json_incref value h) (json_object_set_new_nocheck p key value)"

definition json_object_del :: "jptr \<Rightarrow> byte list \<Rightarrow> jheap \<Rightarrow> (int \<times> jheap) outcome" where
  "json_object_del p key h =
     obind (get_object h p) (\<lambda>x. case x of None \<Rightarrow> Inr (-1, h)
       | Some obj \<Rightarrow>
           obind (hashtable_del json_runtime key (hashtable obj) h) (\<lambda>(r, ht, h).
           obind (put_body p (Object (obj\<lparr>hashtable := ht\<rparr>)) h) (\<lambda>h. Inr (r, h))))"

definition json_object_clear :: "jptr \<Rightarrow> jheap \<Rightarrow> (int \<times> jheap) outcome" where
  "json_object_clear p h =
     obind (get_object h p) (\<lambda>x. case x of None \<Rightarrow> Inr (-1, h)
       | Some obj \<Rightarrow>
           obind (hashtable_clear json_runtime (hashtable obj) h) (\<lambda>(ht, h).
           obind (put_body p (Object (obj\<lparr>hashtable := ht, serial := 0\<rparr>)) h) (\<lambda>h. Inr (0, h))))"

text \<open>Iterators are addresses of nodes, \<open>None\<close> being null.\<close>

definition json_object_iter :: "jheap \<Rightarrow> jptr \<Rightarrow> nat option outcome" where
  "json_object_iter h p =
     obind (get_object h p) (\<lambda>x. case x of None \<Rightarrow> Inr None | Some obj \<Rightarrow> hashtable_iter (hashtable obj))"

definition json_object_iter_at :: "jheap \<Rightarrow> jptr \<Rightarrow> byte list option \<Rightarrow> nat option outcome" where
  "json_object_iter_at h p key =
     (case key of None \<Rightarrow> Inr None
      | Some k \<Rightarrow> obind (get_object h p) (\<lambda>x. case x of None \<Rightarrow> Inr None
          | Some obj \<Rightarrow> hashtable_iter_at (hashtable obj) k))"

definition json_object_iter_next :: "jheap \<Rightarrow> jptr \<Rightarrow> nat option \<Rightarrow> nat option outcome" where
  "json_object_iter_next h p iter =
     obind (get_object h p) (\<lambda>x. case (x, iter) of
       (Some obj, Some a) \<Rightarrow> hashtable_iter_next (hashtable obj) a | _ \<Rightarrow> Inr None)"

definition json_object_iter_key :: "jheap \<Rightarrow> jptr \<Rightarrow> nat option \<Rightarrow> byte list option outcome" where
  "json_object_iter_key h p iter =
     (case iter of None \<Rightarrow> Inr None
      | Some a \<Rightarrow> obind (get_object h p) (\<lambda>x. case x of None \<Rightarrow> Inl Use_After_Free
          | Some obj \<Rightarrow> obind (hashtable_iter_key (hashtable obj) a) (\<lambda>k. Inr (Some k))))"

definition json_object_iter_value :: "jheap \<Rightarrow> jptr \<Rightarrow> nat option \<Rightarrow> jptr outcome" where
  "json_object_iter_value h p iter =
     (case iter of None \<Rightarrow> Inr 0
      | Some a \<Rightarrow> obind (get_object h p) (\<lambda>x. case x of None \<Rightarrow> Inl Use_After_Free
          | Some obj \<Rightarrow> hashtable_iter_value (hashtable obj) a))"

definition json_object_iter_set_new :: "jptr \<Rightarrow> nat option \<Rightarrow> jptr \<Rightarrow> jheap \<Rightarrow> (int \<times> jheap) outcome" where
  "json_object_iter_set_new p iter value h =
     obind (get_object h p) (\<lambda>x. case (x, iter) of
       (Some obj, Some a) \<Rightarrow>
         if value = 0 then Inr (-1, h)
         else obind (hashtable_iter_set json_runtime a value (hashtable obj) h) (\<lambda>(ht, h).
           obind (put_body p (Object (obj\<lparr>hashtable := ht\<rparr>)) h) (\<lambda>h. Inr (0, h)))
     | _ \<Rightarrow> Inr (-1, h))"

text \<open>
  \<open>json_object_foreach\<close>: the loop calls its body until it asks to stop by a result other than
  0.  The iterator moves on the table as the body left it.
\<close>

fun object_foreach :: "nat \<Rightarrow> (byte list \<Rightarrow> jptr \<Rightarrow> jheap \<Rightarrow> (int \<times> jheap) outcome) \<Rightarrow> jptr \<Rightarrow> nat option \<Rightarrow>
    jheap \<Rightarrow> (int \<times> jheap) outcome" where
  "object_foreach 0 f p iter h = Inl Diverges"
| "object_foreach (Suc n) f p iter h =
     obind (json_object_iter_key h p iter) (\<lambda>key.
     case key of None \<Rightarrow> Inr (0, h)
     | Some key \<Rightarrow>
         obind (json_object_iter_value h p iter) (\<lambda>value.
         if value = 0 then Inr (0, h)
         else obind (f key value h) (\<lambda>(r, h).
           if r \<noteq> 0 then Inr (r, h)
           else obind (json_object_iter_next h p iter) (\<lambda>iter. object_foreach n f p iter h))))"

definition json_object_foreach ::
    "(byte list \<Rightarrow> jptr \<Rightarrow> jheap \<Rightarrow> (int \<times> jheap) outcome) \<Rightarrow> jptr \<Rightarrow> jheap \<Rightarrow> (int \<times> jheap) outcome" where
  "json_object_foreach f p h =
     obind (get_object h p) (\<lambda>x.
     obind (json_object_iter h p) (\<lambda>iter.
     object_foreach (case x of None \<Rightarrow> 1 | Some obj \<Rightarrow> Suc (next_pair (hashtable obj))) f p iter h))"

definition json_object_update :: "jptr \<Rightarrow> jptr \<Rightarrow> jheap \<Rightarrow> (int \<times> jheap) outcome" where
  "json_object_update object other h =
     obind (json_is JSON_OBJECT h object) (\<lambda>a.
     obind (if a then json_is JSON_OBJECT h other else Inr False) (\<lambda>b.
     if \<not> b then Inr (-1, h)
     else json_object_foreach (\<lambda>key value h.
       obind (json_object_set_nocheck object (Some key) value h) (\<lambda>(r, h).
       Inr (if r \<noteq> 0 then -1 else 0, h))) other h))"

definition json_object_update_existing :: "jptr \<Rightarrow> jptr \<Rightarrow> jheap \<Rightarrow> (int \<times> jheap) outcome" where
  "json_object_update_existing object other h =
     obind (json_is JSON_OBJECT h object) (\<lambda>a.
     obind (if a then json_is JSON_OBJECT h other else Inr False) (\<lambda>b.
     if \<not> b then Inr (-1, h)
     else json_object_foreach (\<lambda>key value h.
       obind (json_object_get h object key) (\<lambda>old.
       if old \<noteq> 0 then obind (json_object_set_nocheck object (Some key) value h) (\<lambda>(_, h). Inr (0, h))
       else Inr (0, h))) other h))"

definition json_object_update_missing :: "jptr \<Rightarrow> jptr \<Rightarrow> jheap \<Rightarrow> (int \<times> jheap) outcome" where
  "json_object_update_missing object other h =
     obind (json_is JSON_OBJECT h object) (\<lambda>a.
     obind (if a then json_is JSON_OBJECT h other else Inr False) (\<lambda>b.
     if \<not> b then Inr (-1, h)
     else json_object_foreach (\<lambda>key value h.
       obind (json_object_get h object key) (\<lambda>old.
       if old = 0 then obind (json_object_set_nocheck object (Some key) value h) (\<lambda>(_, h). Inr (0, h))
       else Inr (0, h))) other h))"

definition json_object_copy :: "jptr \<Rightarrow> jheap \<Rightarrow> (jptr \<times> jheap) outcome" where
  "json_object_copy object h =
     obind (json_object h) (\<lambda>(result, h).
     if result = 0 then Inr (0, h)
     else obind (json_object_foreach (\<lambda>key value h.
         obind (json_object_set_nocheck result (Some key) value h) (\<lambda>(_, h). Inr (0, h))) object h)
       (\<lambda>(_, h). Inr (result, h)))"

section \<open>Arrays\<close>

definition json_array :: "jheap \<Rightarrow> (jptr \<times> jheap) outcome" where
  "json_array h =
     (let (ok, h) = json_malloc h
      in if \<not> ok then Inr (0, h)
         else let (ok, h) = json_malloc h
           in if \<not> ok then Inr (0, h)
              else Inr (json_init (Array \<lparr>a_entries = 0, a_table = replicate 8 None, a_visited = 0\<rparr>) h))"

definition json_array_size :: "jheap \<Rightarrow> jptr \<Rightarrow> nat outcome" where
  "json_array_size h p =
     obind (get_array h p) (\<lambda>x. Inr (case x of None \<Rightarrow> 0 | Some array \<Rightarrow> a_entries array))"

definition json_array_get :: "jheap \<Rightarrow> jptr \<Rightarrow> nat \<Rightarrow> jptr outcome" where
  "json_array_get h p index =
     obind (get_array h p) (\<lambda>x. case x of None \<Rightarrow> Inr 0
       | Some array \<Rightarrow> if index \<ge> a_entries array then Inr 0 else table_at_index (a_table array) index)"

text \<open>\<open>array->table[i] = value\<close>.\<close>

definition table_store :: "nat \<Rightarrow> jptr \<Rightarrow> jptr option list \<Rightarrow> jptr option list outcome" where
  "table_store i v tb = (if i < length tb then Inr (tb[i := Some v]) else Inl Out_Of_Bounds)"

definition json_array_set_new :: "jptr \<Rightarrow> nat \<Rightarrow> jptr \<Rightarrow> jheap \<Rightarrow> (int \<times> jheap) outcome" where
  "json_array_set_new p index value h =
     (if value = 0 then Inr (-1, h)
      else obind (get_array h p) (\<lambda>x.
        if x = None \<or> p = value then obind (json_decref value h) (\<lambda>h. Inr (-1, h))
        else let array = the x in
          if index \<ge> a_entries array then obind (json_decref value h) (\<lambda>h. Inr (-1, h))
          else obind (table_at_index (a_table array) index) (\<lambda>old.
            obind (json_decref old h) (\<lambda>h.
            obind (table_store index value (a_table array)) (\<lambda>tb.
            obind (put_body p (Array (array\<lparr>a_table := tb\<rparr>)) h) (\<lambda>h. Inr (0, h)))))))"

text \<open>\<open>memmove\<close> inside one block and \<open>memcpy\<close> between two, in elements.\<close>

definition array_copy :: "jptr option list \<Rightarrow> nat \<Rightarrow> jptr option list \<Rightarrow> nat \<Rightarrow> nat \<Rightarrow> jptr option list outcome" where
  "array_copy dest dpos src spos len =
     (if length src < spos + len \<or> length dest < dpos + len then Inl Out_Of_Bounds
      else Inr (take dpos dest @ take len (drop spos src) @ drop (dpos + len) dest))"

definition array_move :: "jptr option list \<Rightarrow> nat \<Rightarrow> nat \<Rightarrow> nat \<Rightarrow> jptr option list outcome" where
  "array_move tb dest src len = array_copy tb dest tb src len"

text \<open>
  \<open>json_array_grow\<close>: null is \<open>None\<close>; otherwise the table it returns, the array with its own
  table, and whether the two are the same block.
\<close>

definition json_array_grow :: "json_array_t \<Rightarrow> nat \<Rightarrow> bool \<Rightarrow> jheap \<Rightarrow>
    ((bool \<times> jptr option list \<times> json_array_t) option \<times> jheap) outcome" where
  "json_array_grow array amount copy h =
     (if a_entries array + amount \<le> length (a_table array)
      then Inr (Some (True, a_table array, array), h)
      else let new_size = max (length (a_table array) + amount) (length (a_table array) * 2);
          (ok, h) = json_malloc h
        in if \<not> ok then Inr (None, h)
           else let new_table = replicate new_size None
             in if copy
                then obind (array_copy new_table 0 (a_table array) 0 (a_entries array)) (\<lambda>tb.
                  Inr (Some (True, tb, array\<lparr>a_table := tb\<rparr>), h))
                else Inr (Some (False, a_table array, array\<lparr>a_table := new_table\<rparr>), h))"

definition json_array_append_new :: "jptr \<Rightarrow> jptr \<Rightarrow> jheap \<Rightarrow> (int \<times> jheap) outcome" where
  "json_array_append_new p value h =
     (if value = 0 then Inr (-1, h)
      else obind (get_array h p) (\<lambda>x.
        if x = None \<or> p = value then obind (json_decref value h) (\<lambda>h. Inr (-1, h))
        else obind (json_array_grow (the x) 1 True h) (\<lambda>(g, h).
          case g of None \<Rightarrow> obind (json_decref value h) (\<lambda>h. Inr (-1, h))
          | Some (_, _, array) \<Rightarrow>
              obind (table_store (a_entries array) value (a_table array)) (\<lambda>tb.
              obind (put_body p (Array (array\<lparr>a_table := tb, a_entries := Suc (a_entries array)\<rparr>)) h) (\<lambda>h.
              Inr (0, h))))))"

definition json_array_insert_new :: "jptr \<Rightarrow> nat \<Rightarrow> jptr \<Rightarrow> jheap \<Rightarrow> (int \<times> jheap) outcome" where
  "json_array_insert_new p index value h =
     (if value = 0 then Inr (-1, h)
      else obind (get_array h p) (\<lambda>x.
        if x = None \<or> p = value then obind (json_decref value h) (\<lambda>h. Inr (-1, h))
        else if index > a_entries (the x) then obind (json_decref value h) (\<lambda>h. Inr (-1, h))
        else obind (json_array_grow (the x) 1 False h) (\<lambda>(g, h).
          case g of None \<Rightarrow> obind (json_decref value h) (\<lambda>h. Inr (-1, h))
          | Some (same, old_table, array) \<Rightarrow>
              obind (if \<not> same
                then obind (array_copy (a_table array) 0 old_table 0 index) (\<lambda>tb.
                  array_copy tb (index + 1) old_table index (a_entries array - index))
                else array_move (a_table array) (index + 1) index (a_entries array - index)) (\<lambda>tb.
              obind (table_store index value tb) (\<lambda>tb.
              obind (put_body p (Array (array\<lparr>a_table := tb, a_entries := Suc (a_entries array)\<rparr>)) h) (\<lambda>h.
              Inr (0, h)))))))"

definition json_array_remove :: "jptr \<Rightarrow> nat \<Rightarrow> jheap \<Rightarrow> (int \<times> jheap) outcome" where
  "json_array_remove p index h =
     obind (get_array h p) (\<lambda>x. case x of None \<Rightarrow> Inr (-1, h)
       | Some array \<Rightarrow>
           if index \<ge> a_entries array then Inr (-1, h)
           else obind (table_at_index (a_table array) index) (\<lambda>old.
             obind (json_decref old h) (\<lambda>h.
             obind (array_move (a_table array) index (index + 1) (a_entries array - index)) (\<lambda>tb.
             obind (put_body p (Array (array\<lparr>a_table := tb, a_entries := a_entries array - 1\<rparr>)) h) (\<lambda>h.
             Inr (0, h))))))"

definition json_array_clear :: "jptr \<Rightarrow> jheap \<Rightarrow> (int \<times> jheap) outcome" where
  "json_array_clear p h =
     obind (get_array h p) (\<lambda>x. case x of None \<Rightarrow> Inr (-1, h)
       | Some array \<Rightarrow>
           obind (decref_elements json_decref (a_table array) 0 (a_entries array) h) (\<lambda>h.
           obind (put_body p (Array (array\<lparr>a_entries := 0\<rparr>)) h) (\<lambda>h. Inr (0, h))))"

fun incref_elements :: "jptr option list \<Rightarrow> nat \<Rightarrow> nat \<Rightarrow> jheap \<Rightarrow> jheap outcome" where
  "incref_elements tb i 0 h = Inr h"
| "incref_elements tb i (Suc k) h =
     obind (table_at_index tb i) (\<lambda>p. obind (json_incref p h) (incref_elements tb (Suc i) k))"

text \<open>
  \<open>json_array_extend\<close> reads \<open>other->table\<close> after the growth, which matters when the two arrays
  are one.
\<close>

definition json_array_extend :: "jptr \<Rightarrow> jptr \<Rightarrow> jheap \<Rightarrow> (int \<times> jheap) outcome" where
  "json_array_extend p q h =
     obind (get_array h p) (\<lambda>x.
     obind (if x = None then Inr None else get_array h q) (\<lambda>y.
     if y = None then Inr (-1, h)
     else obind (json_array_grow (the x) (a_entries (the y)) True h) (\<lambda>(g, h).
       case g of None \<Rightarrow> Inr (-1, h)
       | Some (_, _, array) \<Rightarrow>
           let other = (if q = p then array else the y)
           in obind (incref_elements (a_table other) 0 (a_entries other) h) (\<lambda>h.
              obind (array_copy (a_table array) (a_entries array) (a_table other) 0 (a_entries other)) (\<lambda>tb.
              obind (put_body p (Array (array\<lparr>a_table := tb, a_entries := a_entries array + a_entries other\<rparr>)) h) (\<lambda>h.
              Inr (0, h)))))))"

definition json_array_append :: "jptr \<Rightarrow> jptr \<Rightarrow> jheap \<Rightarrow> (int \<times> jheap) outcome" where
  "json_array_append p value h = obind (json_incref value h) (json_array_append_new p value)"

definition json_array_set :: "jptr \<Rightarrow> nat \<Rightarrow> jptr \<Rightarrow> jheap \<Rightarrow> (int \<times> jheap) outcome" where
  "json_array_set p index value h = obind (json_incref value h) (json_array_set_new p index value)"

definition json_array_insert :: "jptr \<Rightarrow> nat \<Rightarrow> jptr \<Rightarrow> jheap \<Rightarrow> (int \<times> jheap) outcome" where
  "json_array_insert p index value h = obind (json_incref value h) (json_array_insert_new p index value)"

text \<open>The loop over an array; its size and elements are read afresh in every round.\<close>

fun array_copy_loop :: "nat \<Rightarrow> (jptr \<Rightarrow> jheap \<Rightarrow> jheap outcome) \<Rightarrow> jptr \<Rightarrow> nat \<Rightarrow> jheap \<Rightarrow> jheap outcome" where
  "array_copy_loop 0 f array i h = Inl Diverges"
| "array_copy_loop (Suc n) f array i h =
     obind (json_array_size h array) (\<lambda>len.
     if i < len then obind (json_array_get h array i) (\<lambda>v. obind (f v h) (array_copy_loop n f array (Suc i)))
     else Inr h)"

definition array_foreach :: "(jptr \<Rightarrow> jheap \<Rightarrow> jheap outcome) \<Rightarrow> jptr \<Rightarrow> jheap \<Rightarrow> jheap outcome" where
  "array_foreach f array h =
     obind (json_array_size h array) (\<lambda>len. array_copy_loop (Suc len) f array 0 h)"

definition json_array_copy :: "jptr \<Rightarrow> jheap \<Rightarrow> (jptr \<times> jheap) outcome" where
  "json_array_copy array h =
     obind (json_array h) (\<lambda>(result, h).
     if result = 0 then Inr (0, h)
     else obind (array_foreach (\<lambda>v h. obind (json_array_append result v h) (\<lambda>(_, h). Inr h)) array h)
       (\<lambda>h. Inr (result, h)))"

section \<open>Strings and numbers\<close>

definition json_string_nocheck :: "byte list option \<Rightarrow> jheap \<Rightarrow> (jptr \<times> jheap) outcome" where
  "json_string_nocheck val h =
     (case val of None \<Rightarrow> Inr (0, h)
      | Some s \<Rightarrow>
          let (ok, h) = json_malloc h
          in if \<not> ok then Inr (0, h)
             else let (ok, h) = json_malloc h
               in if \<not> ok then Inr (0, h) else Inr (json_init (String s) h))"

definition json_string :: "byte list option \<Rightarrow> jheap \<Rightarrow> (jptr \<times> jheap) outcome" where
  "json_string val h =
     (case val of None \<Rightarrow> Inr (0, h)
      | Some s \<Rightarrow> obind (utf8_check_string s (-1)) (\<lambda>ok.
          if \<not> ok then Inr (0, h) else json_string_nocheck val h))"

definition json_string_value :: "jheap \<Rightarrow> jptr \<Rightarrow> byte list option outcome" where
  "json_string_value h p =
     (if p = 0 then Inr None
      else obind (get_cell h p) (\<lambda>c. Inr (case body c of String s \<Rightarrow> Some s | _ \<Rightarrow> None)))"

definition json_string_set_nocheck :: "jptr \<Rightarrow> byte list option \<Rightarrow> jheap \<Rightarrow> (int \<times> jheap) outcome" where
  "json_string_set_nocheck p val h =
     obind (json_string_value h p) (\<lambda>old.
     case (old, val) of
       (Some _, Some s) \<Rightarrow>
         (let (ok, h) = json_malloc h
          in if \<not> ok then Inr (-1, h) else obind (put_body p (String s) h) (\<lambda>h. Inr (0, h)))
     | _ \<Rightarrow> Inr (-1, h))"

definition json_string_set :: "jptr \<Rightarrow> byte list option \<Rightarrow> jheap \<Rightarrow> (int \<times> jheap) outcome" where
  "json_string_set p val h =
     (case val of None \<Rightarrow> Inr (-1, h)
      | Some s \<Rightarrow> obind (utf8_check_string s (-1)) (\<lambda>ok.
          if \<not> ok then Inr (-1, h) else json_string_set_nocheck p val h))"

definition json_string_copy :: "jptr \<Rightarrow> jheap \<Rightarrow> (jptr \<times> jheap) outcome" where
  "json_string_copy p h = obind (json_string_value h p) (\<lambda>s. json_string_nocheck s h)"

definition json_integer :: "json_int_t \<Rightarrow> jheap \<Rightarrow> (jptr \<times> jheap) outcome" where
  "json_integer val h =
     (let (ok, h) = json_malloc h in if \<not> ok then Inr (0, h) else Inr (json_init (Integer val) h))"

definition json_integer_value :: "jheap \<Rightarrow> jptr \<Rightarrow> json_int_t outcome" where
  "json_integer_value h p =
     (if p = 0 then Inr 0
      else obind (get_cell h p) (\<lambda>c. Inr (case body c of Integer i \<Rightarrow> i | _ \<Rightarrow> 0)))"

definition json_integer_set :: "jptr \<Rightarrow> json_int_t \<Rightarrow> jheap \<Rightarrow> (int \<times> jheap) outcome" where
  "json_integer_set p val h =
     obind (json_is JSON_INTEGER h p) (\<lambda>b.
     if \<not> b then Inr (-1, h) else obind (put_body p (Integer val) h) (\<lambda>h. Inr (0, h)))"

definition json_integer_copy :: "jptr \<Rightarrow> jheap \<Rightarrow> (jptr \<times> jheap) outcome" where
  "json_integer_copy p h = obind (json_integer_value h p) (\<lambda>i. json_integer i h)"

definition json_real :: "double \<Rightarrow> jheap \<Rightarrow> (jptr \<times> jheap) outcome" where
  "json_real val h =
     (if isnan val \<or> isinf val then Inr (0, h)
      else let (ok, h) = json_malloc h in if \<not> ok then Inr (0, h) else Inr (json_init (Real val) h))"

definition json_real_value :: "jheap \<Rightarrow> jptr \<Rightarrow> double outcome" where
  "json_real_value h p =
     (if p = 0 then Inr 0
      else obind (get_cell h p) (\<lambda>c. Inr (case body c of Real r \<Rightarrow> r | _ \<Rightarrow> 0)))"

definition json_real_set :: "jptr \<Rightarrow> double \<Rightarrow> jheap \<Rightarrow> (int \<times> jheap) outcome" where
  "json_real_set p val h =
     obind (json_is JSON_REAL h p) (\<lambda>b.
     if \<not> b \<or> isnan val \<or> isinf val then Inr (-1, h)
     else obind (put_body p (Real val) h) (\<lambda>h. Inr (0, h)))"

definition json_real_copy :: "jptr \<Rightarrow> jheap \<Rightarrow> (jptr \<times> jheap) outcome" where
  "json_real_copy p h = obind (json_real_value h p) (\<lambda>r. json_real r h)"

definition json_number_value :: "jheap \<Rightarrow> jptr \<Rightarrow> double outcome" where
  "json_number_value h p =
     obind (json_is JSON_INTEGER h p) (\<lambda>i.
     if i then obind (json_integer_value h p) (\<lambda>v. Inr (double_of_int (sint v)))
     else obind (json_is JSON_REAL h p) (\<lambda>r. if r then json_real_value h p else Inr 0))"

section \<open>Equality and copies\<close>

fun array_equal_loop :: "(jptr \<Rightarrow> jptr \<Rightarrow> bool outcome) \<Rightarrow> jheap \<Rightarrow> jptr \<Rightarrow> jptr \<Rightarrow> nat \<Rightarrow> nat \<Rightarrow> bool outcome" where
  "array_equal_loop eq h p q i 0 = Inr True"
| "array_equal_loop eq h p q i (Suc k) =
     obind (json_array_get h p i) (\<lambda>a.
     obind (json_array_get h q i) (\<lambda>b.
     obind (eq a b) (\<lambda>e. if \<not> e then Inr False else array_equal_loop eq h p q (Suc i) k)))"

definition json_array_equal :: "(jptr \<Rightarrow> jptr \<Rightarrow> bool outcome) \<Rightarrow> jheap \<Rightarrow> jptr \<Rightarrow> jptr \<Rightarrow> bool outcome" where
  "json_array_equal eq h p q =
     obind (json_array_size h p) (\<lambda>len.
     obind (json_array_size h q) (\<lambda>len'.
     if len \<noteq> len' then Inr False else array_equal_loop eq h p q 0 len))"

definition json_object_equal :: "(jptr \<Rightarrow> jptr \<Rightarrow> bool outcome) \<Rightarrow> jheap \<Rightarrow> jptr \<Rightarrow> jptr \<Rightarrow> bool outcome" where
  "json_object_equal eq h p q =
     obind (json_object_size h p) (\<lambda>n.
     obind (json_object_size h q) (\<lambda>n'.
     if n \<noteq> n' then Inr False
     else obind (json_object_foreach (\<lambda>key value1 h.
         obind (json_object_get h q key) (\<lambda>value2.
         obind (eq value1 value2) (\<lambda>e. Inr (if e then 0 else 1, h)))) p h)
       (\<lambda>(r, _). Inr (r = 0))))"

fun json_equal_fuel :: "nat \<Rightarrow> jheap \<Rightarrow> jptr \<Rightarrow> jptr \<Rightarrow> bool outcome" where
  "json_equal_fuel 0 h p q = Inl Diverges"
| "json_equal_fuel (Suc n) h p q =
     (if p = 0 \<or> q = 0 then Inr False
      else obind (get_cell h p) (\<lambda>c.
        obind (get_cell h q) (\<lambda>d.
        if body_type (body c) \<noteq> body_type (body d) then Inr False
        else if p = q then Inr True
        else case (body c, body d) of
          (Object _, _) \<Rightarrow> json_object_equal (json_equal_fuel n h) h p q
        | (Array _, _) \<Rightarrow> json_array_equal (json_equal_fuel n h) h p q
        | (String s, String t) \<Rightarrow> Inr (s = t)
        | (Integer i, Integer j) \<Rightarrow> Inr (i = j)
        | (Real r, Real s) \<Rightarrow> Inr (double_eq r s)
        | _ \<Rightarrow> Inr False)))"

definition json_equal :: "jheap \<Rightarrow> jptr \<Rightarrow> jptr \<Rightarrow> bool outcome" where
  "json_equal h p q = json_equal_fuel (Suc (jnext h)) h p q"

definition json_copy :: "jptr \<Rightarrow> jheap \<Rightarrow> (jptr \<times> jheap) outcome" where
  "json_copy p h =
     (if p = 0 then Inr (0, h)
      else obind (get_cell h p) (\<lambda>c.
        case body_type (body c) of
          JSON_OBJECT \<Rightarrow> json_object_copy p h
        | JSON_ARRAY \<Rightarrow> json_array_copy p h
        | JSON_STRING \<Rightarrow> json_string_copy p h
        | JSON_INTEGER \<Rightarrow> json_integer_copy p h
        | JSON_REAL \<Rightarrow> json_real_copy p h
        | _ \<Rightarrow> Inr (p, h)))"

definition json_object_deep_copy ::
    "(jptr \<Rightarrow> jheap \<Rightarrow> (jptr \<times> jheap) outcome) \<Rightarrow> jptr \<Rightarrow> jheap \<Rightarrow> (jptr \<times> jheap) outcome" where
  "json_object_deep_copy dc object h =
     obind (json_object h) (\<lambda>(result, h).
     if result = 0 then Inr (0, h)
     else obind (json_object_foreach (\<lambda>key value h.
         obind (dc value h) (\<lambda>(v, h).
         obind (json_object_set_new_nocheck result (Some key) v h) (\<lambda>(_, h). Inr (0, h)))) object h)
       (\<lambda>(_, h). Inr (result, h)))"

definition json_array_deep_copy ::
    "(jptr \<Rightarrow> jheap \<Rightarrow> (jptr \<times> jheap) outcome) \<Rightarrow> jptr \<Rightarrow> jheap \<Rightarrow> (jptr \<times> jheap) outcome" where
  "json_array_deep_copy dc array h =
     obind (json_array h) (\<lambda>(result, h).
     if result = 0 then Inr (0, h)
     else obind (array_foreach (\<lambda>v h.
         obind (dc v h) (\<lambda>(v, h). obind (json_array_append_new result v h) (\<lambda>(_, h). Inr h))) array h)
       (\<lambda>h. Inr (result, h)))"

fun json_deep_copy_fuel :: "nat \<Rightarrow> jptr \<Rightarrow> jheap \<Rightarrow> (jptr \<times> jheap) outcome" where
  "json_deep_copy_fuel 0 p h = Inl Diverges"
| "json_deep_copy_fuel (Suc n) p h =
     (if p = 0 then Inr (0, h)
      else obind (get_cell h p) (\<lambda>c.
        case body_type (body c) of
          JSON_OBJECT \<Rightarrow> json_object_deep_copy (json_deep_copy_fuel n) p h
        | JSON_ARRAY \<Rightarrow> json_array_deep_copy (json_deep_copy_fuel n) p h
        | JSON_STRING \<Rightarrow> json_string_copy p h
        | JSON_INTEGER \<Rightarrow> json_integer_copy p h
        | JSON_REAL \<Rightarrow> json_real_copy p h
        | _ \<Rightarrow> Inr (p, h)))"

definition json_deep_copy :: "jptr \<Rightarrow> jheap \<Rightarrow> (jptr \<times> jheap) outcome" where
  "json_deep_copy p h = json_deep_copy_fuel (Suc (jnext h)) p h"

section \<open>Arrays as lists\<close>

text \<open>The array at \<open>p\<close> holds the pointers \<open>vs\<close> in a block of \<open>n\<close> elements.\<close>

definition array_at :: "jheap \<Rightarrow> jptr \<Rightarrow> nat \<Rightarrow> jptr list \<Rightarrow> bool" where
  "array_at h p n vs \<longleftrightarrow> p \<noteq> 0 \<and> (\<exists>c array rest. cells h p = Some c \<and> body c = Array array \<and>
     a_entries array = length vs \<and> a_table array = map Some vs @ rest \<and> length (a_table array) = n)"

lemma array_atE:
  assumes "array_at h p n vs"
  obtains c array rest where "p \<noteq> 0" "cells h p = Some c" "body c = Array array"
    "a_entries array = length vs" "a_table array = map Some vs @ rest" "n = length vs + length rest"
    "get_array h p = Inr (Some array)" "get_cell h p = Inr c"
  using assms by (auto simp: array_at_def get_array_def get_cell_def)

lemma put_body_cell:
  assumes "cells h p = Some c" "p \<noteq> 0"
  shows "put_body p b h = Inr (h\<lparr>cells := (cells h)(p \<mapsto> c\<lparr>body := b\<rparr>)\<rparr>)"
  using assms by (simp add: put_body_def get_cell_def)

lemma json_array_get_spec:
  "array_at h p n vs \<Longrightarrow> json_array_get h p i = Inr (if i < length vs then vs ! i else 0)"
  by (erule array_atE) (simp add: json_array_get_def table_at_index_def nth_append)

lemma json_array_size_spec: "array_at h p n vs \<Longrightarrow> json_array_size h p = Inr (length vs)"
  by (erule array_atE) (simp add: json_array_size_def)

lemma json_array_spec:
  assumes "2 \<le> jmem h"
  shows "\<exists>h'. json_array h = Inr (jnext h, h') \<and> jmem h' = jmem h - 2 \<and> jnext h' = Suc (jnext h) \<and>
    (\<forall>q. q \<noteq> jnext h \<longrightarrow> cells h' q = cells h q) \<and>
    map_option refcount (cells h' (jnext h)) = Some 1 \<and> (0 < jnext h \<longrightarrow> array_at h' (jnext h) 8 [])"
  using assms by (auto simp: json_array_def json_malloc_def json_init_def array_at_def)

text \<open>What an operation leaves alone: every cell but \<open>p\<close>.\<close>

definition only_changes :: "jptr \<Rightarrow> jheap \<Rightarrow> jheap \<Rightarrow> bool" where
  "only_changes p h h' \<longleftrightarrow> (\<forall>q. q \<noteq> p \<longrightarrow> cells h' q = cells h q) \<and> jnext h' = jnext h \<and>
     map_option refcount (cells h' p) = map_option refcount (cells h p)"

lemma array_growth:
  assumes "a_entries array = length vs" "a_table array = map Some vs @ rest"
    and "length vs < length (a_table array) \<or> 0 < jmem h"
  shows "\<exists>rest' h'. json_array_grow array 1 True h = Inr (Some (True, map Some vs @ rest',
      array\<lparr>a_table := map Some vs @ rest'\<rparr>), h') \<and> rest' \<noteq> [] \<and>
    cells h' = cells h \<and> jnext h' = jnext h \<and> jmem h \<le> Suc (jmem h') \<and>
    length vs + length rest' = (if length vs < length (a_table array) then length (a_table array)
      else max (length (a_table array) + 1) (length (a_table array) * 2))"
proof (cases "length vs < length (a_table array)")
  case True
  with assms(1,2) show ?thesis
    by (cases rest) (auto simp: json_array_grow_def)
next
  case False
  with assms(2) have rest: "rest = []" by simp
  let ?n = "max (length vs + 1) (length vs * 2)"
  from False assms(3) have "json_malloc h = (True, h\<lparr>jmem := jmem h - 1\<rparr>)" by (simp add: json_malloc_def)
  with False assms(1,2) rest show ?thesis
    by (intro exI[of _ "replicate (?n - length vs) None"] exI[of _ "h\<lparr>jmem := jmem h - 1\<rparr>"])
      (auto simp: json_array_grow_def array_copy_def Let_def)
qed

lemma json_array_append_new_spec:
  assumes "array_at h p n vs" "v \<noteq> 0" "p \<noteq> v" "length vs < n \<or> 0 < jmem h"
  shows "\<exists>h' n'. json_array_append_new p v h = Inr (0, h') \<and> array_at h' p n' (vs @ [v]) \<and> only_changes p h h' \<and>
    n' = (if length vs < n then n else max (n + 1) (n * 2)) \<and> jmem h \<le> Suc (jmem h')"
proof -
  from assms(1) obtain c array rest where a: "p \<noteq> 0" "cells h p = Some c" "body c = Array array"
    "a_entries array = length vs" "a_table array = map Some vs @ rest" "n = length vs + length rest"
    "get_array h p = Inr (Some array)" by (rule array_atE)
  have "length vs < length (a_table array) \<or> 0 < jmem h" using assms(4) a(5,6) by simp
  from array_growth[OF a(4,5) this] a(5,6) obtain rest' h1 where
    g: "json_array_grow array 1 True h = Inr (Some (True, map Some vs @ rest',
        array\<lparr>a_table := map Some vs @ rest'\<rparr>), h1)" "rest' \<noteq> []" "cells h1 = cells h" "jnext h1 = jnext h"
      "length vs + length rest' = (if length vs < n then n else max (n + 1) (n * 2))" "jmem h \<le> Suc (jmem h1)" by auto
  from g(2) obtain y ys where y: "rest' = y # ys" by (cases rest') auto
  let ?b = "Array (array\<lparr>a_table := map Some (vs @ [v]) @ ys, a_entries := Suc (length vs)\<rparr>)"
  let ?h = "h1\<lparr>cells := (cells h1)(p \<mapsto> c\<lparr>body := ?b\<rparr>)\<rparr>"
  have "json_array_append_new p v h = Inr (0, ?h)"
    using assms(2,3) a g(1,3) y put_body_cell[of h1 p c]
    by (simp add: json_array_append_new_def table_store_def list_update_append)
  moreover have "array_at ?h p (length vs + length rest') (vs @ [v])"
    using a(1) y by (auto simp: array_at_def)
  moreover have "only_changes p h ?h" using a(2) g(3,4) by (simp add: only_changes_def)
  moreover have "jmem h \<le> Suc (jmem ?h)" using g(6) by simp
  ultimately show ?thesis using g(5) by metis
qed

lemma json_array_append_new_no_memory:
  assumes "array_at h p n vs" "v \<noteq> 0" "p \<noteq> v" "length vs = n" "jmem h = 0"
  shows "json_array_append_new p v h = obind (json_decref v h) (\<lambda>h. Inr (-1, h))"
proof -
  from assms(1) obtain array where a: "a_entries array = length vs" "length (a_table array) = length vs"
    "get_array h p = Inr (Some array)" using assms(4) by (auto elim: array_atE)
  with assms(2,3,5) show ?thesis
    by (simp add: json_array_append_new_def json_array_grow_def json_malloc_def)
qed

text \<open>The moves of an insertion, on a list cut at the index.\<close>

lemma table_store_middle:
  "table_store (length xs) v (map Some xs @ x # ys) = Inr (map Some xs @ Some v # ys)"
  by (simp add: table_store_def list_update_append)

lemma array_move_right:
  "array_move (map Some (xs @ zs) @ y # ys) (Suc (length xs)) (length xs) (length zs) =
     Inr (map Some xs @ hd (map Some zs @ [y]) # map Some zs @ ys)"
  by (cases zs) (simp_all add: array_move_def array_copy_def)

lemma array_copy_front:
  "length xs \<le> n \<Longrightarrow> array_copy (replicate n None) 0 (map Some (xs @ zs)) 0 (length xs) =
     Inr (map Some xs @ replicate (n - length xs) None)"
  by (simp add: array_copy_def)

lemma array_copy_back:
  "length zs \<le> m \<Longrightarrow> array_copy (map Some xs @ None # replicate m None) (Suc (length xs))
     (map Some (xs @ zs)) (length xs) (length zs) = Inr (map Some xs @ None # map Some zs @ replicate (m - length zs) None)"
  by (simp add: array_copy_def)

lemma json_array_insert_new_spec:
  assumes "array_at h p n (xs @ zs)" "v \<noteq> 0" "p \<noteq> v" "length (xs @ zs) < n \<or> 0 < jmem h"
  shows "\<exists>h' n'. json_array_insert_new p (length xs) v h = Inr (0, h') \<and> array_at h' p n' (xs @ v # zs) \<and>
    only_changes p h h'"
proof -
  from assms(1) obtain c array rest where a: "p \<noteq> 0" "cells h p = Some c" "body c = Array array"
    "a_entries array = length (xs @ zs)" "a_table array = map Some (xs @ zs) @ rest"
    "n = length (xs @ zs) + length rest" "get_array h p = Inr (Some array)" by (rule array_atE)
  have "\<exists>same old arr h1 tb ys. json_array_grow array 1 False h = Inr (Some (same, old, arr), h1) \<and>
      a_entries arr = length (xs @ zs) \<and> cells h1 = cells h \<and> jnext h1 = jnext h \<and>
      obind (if \<not> same then obind (array_copy (a_table arr) 0 old 0 (length xs)) (\<lambda>tb.
            array_copy tb (length xs + 1) old (length xs) (a_entries arr - length xs))
          else array_move (a_table arr) (length xs + 1) (length xs) (a_entries arr - length xs))
        (table_store (length xs) v) = Inr tb \<and> tb = map Some (xs @ v # zs) @ ys"
  proof (cases rest)
    case (Cons y ys)
    have "json_array_grow array 1 False h = Inr (Some (True, a_table array, array), h)"
      using a(4,5) Cons by (simp add: json_array_grow_def)
    moreover have "obind (array_move (a_table array) (length xs + 1) (length xs) (a_entries array - length xs))
        (table_store (length xs) v) = Inr (map Some (xs @ v # zs) @ ys)"
      using array_move_right[of xs zs y ys] table_store_middle[of xs v] a(4,5) Cons by simp
    ultimately show ?thesis using a(4) by force
  next
    case Nil
    let ?k = "length (xs @ zs)"
    define N where "N = max (?k + 1) (?k * 2)"
    have "length xs + length zs < N" by (simp add: N_def)
    then have m': "N - length xs = Suc (N - length xs - 1)" "length zs \<le> N - length xs - 1" by arith+
    define m where "m = N - length xs - 1"
    note m = m'[folded m_def]
    have "length xs \<le> N" by (simp add: N_def)
    from array_copy_front[OF this, of zs] m(1)
    have 1: "array_copy (replicate N None) 0 (map Some (xs @ zs)) 0 (length xs) =
        Inr (map Some xs @ None # replicate m None)" by simp
    have "0 < jmem h" using assms(4) a(6) Nil by simp
    then have "json_array_grow array 1 False h =
        Inr (Some (False, a_table array, array\<lparr>a_table := replicate N None\<rparr>), h\<lparr>jmem := jmem h - 1\<rparr>)"
      using a(4,5) Nil by (simp add: json_array_grow_def json_malloc_def Let_def N_def)
    moreover have "obind (obind (array_copy (replicate N None) 0 (a_table array) 0 (length xs)) (\<lambda>tb.
          array_copy tb (length xs + 1) (a_table array) (length xs) (length zs)))
        (table_store (length xs) v) = Inr (map Some (xs @ v # zs) @ replicate (m - length zs) None)"
      unfolding a(5) Nil append_Nil2 1 obind_Inr
      using array_copy_back[OF m(2), of xs] table_store_middle[of xs v] by simp
    ultimately show ?thesis using a(4)
      by (intro exI[of _ False] exI[of _ "a_table array"] exI[of _ "array\<lparr>a_table := replicate N None\<rparr>"]
          exI[of _ "h\<lparr>jmem := jmem h - 1\<rparr>"]
          exI[of _ "map Some (xs @ v # zs) @ replicate (m - length zs) None"]
          exI[of _ "replicate (m - length zs) None"]) simp
  qed
  then obtain same old arr h1 tb ys where g:
    "json_array_grow array 1 False h = Inr (Some (same, old, arr), h1)" "a_entries arr = length (xs @ zs)"
    "cells h1 = cells h" "jnext h1 = jnext h"
    "obind (if \<not> same then obind (array_copy (a_table arr) 0 old 0 (length xs)) (\<lambda>tb.
            array_copy tb (length xs + 1) old (length xs) (a_entries arr - length xs))
          else array_move (a_table arr) (length xs + 1) (length xs) (a_entries arr - length xs))
        (table_store (length xs) v) = Inr tb" "tb = map Some (xs @ v # zs) @ ys" by blast
  let ?h = "h1\<lparr>cells := (cells h1)(p \<mapsto> c\<lparr>body := Array (arr\<lparr>a_table := tb, a_entries := Suc (length (xs @ zs))\<rparr>)\<rparr>)\<rparr>"
  have put: "put_body p b h1 = Inr (h1\<lparr>cells := (cells h1)(p \<mapsto> c\<lparr>body := b\<rparr>)\<rparr>)" for b
    using put_body_cell[of h1 p c] a(1,2) g(3) by simp
  from g(5) obtain tb0 where tb0:
    "(if \<not> same then obind (array_copy (a_table arr) 0 old 0 (length xs)) (\<lambda>tb.
            array_copy tb (length xs + 1) old (length xs) (a_entries arr - length xs))
          else array_move (a_table arr) (length xs + 1) (length xs) (a_entries arr - length xs)) = Inr tb0"
    "table_store (length xs) v tb0 = Inr tb" unfolding obind_eq_Inr by blast
  have "json_array_insert_new p (length xs) v h = Inr (0, ?h)"
    unfolding json_array_insert_new_def a(7) obind_Inr option.sel g(1)
    using assms(2,3) a(4) tb0 put g(2) by simp
  moreover have "array_at ?h p (length tb) (xs @ v # zs)"
    using a(1) g(6) by (auto simp: array_at_def)
  moreover have "only_changes p h ?h" using a(2) g(3,4) by (simp add: only_changes_def)
  ultimately show ?thesis by blast
qed

lemma json_array_remove_spec:
  assumes "array_at h p n (xs @ u # zs)" "json_decref u h = Inr h1" "cells h1 p = cells h p"
  shows "if length (xs @ u # zs) < n
    then \<exists>h'. json_array_remove p (length xs) h = Inr (0, h') \<and> array_at h' p n (xs @ zs) \<and> only_changes p h1 h'
    else json_array_remove p (length xs) h = Inl Out_Of_Bounds"
proof -
  from assms(1) obtain c array rest where a: "p \<noteq> 0" "cells h p = Some c" "body c = Array array"
    "a_entries array = length (xs @ u # zs)" "a_table array = map Some (xs @ u # zs) @ rest"
    "n = length (xs @ u # zs) + length rest" "get_array h p = Inr (Some array)" by (rule array_atE)
  have el: "table_at_index (a_table array) (length xs) = Inr u"
    using a(5) by (simp add: table_at_index_def nth_append)
  have run: "json_array_remove p (length xs) h =
      obind (array_move (a_table array) (length xs) (length xs + 1) (a_entries array - length xs)) (\<lambda>tb.
        obind (put_body p (Array (array\<lparr>a_table := tb, a_entries := a_entries array - 1\<rparr>)) h1) (\<lambda>h. Inr (0, h)))"
    unfolding json_array_remove_def a(7) obind_Inr option.case using a(4) el assms(2) by simp
  show ?thesis
  proof (cases rest)
    case Nil
    then have "array_move (a_table array) (length xs) (length xs + 1) (a_entries array - length xs) = Inl Out_Of_Bounds"
      using a(4,5) by (simp add: array_move_def array_copy_def)
    with run Nil a(6) show ?thesis by simp
  next
    case (Cons y ys)
    let ?tb = "map Some (xs @ zs) @ y # y # ys"
    have "array_move (a_table array) (length xs) (length xs + 1) (a_entries array - length xs) = Inr ?tb"
      using a(4,5) Cons by (simp add: array_move_def array_copy_def)
    moreover let ?h = "h1\<lparr>cells := (cells h1)(p \<mapsto> c\<lparr>body := Array (array\<lparr>a_table := ?tb, a_entries := length (xs @ zs)\<rparr>)\<rparr>)\<rparr>"
    have "put_body p (Array (array\<lparr>a_table := ?tb, a_entries := length (xs @ zs)\<rparr>)) h1 = Inr ?h"
      using put_body_cell[of h1 p c] a(1,2) assms(3) by simp
    ultimately have "json_array_remove p (length xs) h = Inr (0, ?h)" using run a(4) by simp
    moreover have "array_at ?h p n (xs @ zs)" using a(1,6) Cons by (auto simp: array_at_def)
    moreover have "only_changes p h1 ?h" using a(2) assms(3) by (simp add: only_changes_def)
    ultimately show ?thesis using a(6) Cons by auto
  qed
qed

section \<open>Deleting a tree\<close>

fun disjoint_sets :: "'a set list \<Rightarrow> bool" where
  "disjoint_sets [] \<longleftrightarrow> True"
| "disjoint_sets (S # Ss) \<longleftrightarrow> S \<inter> \<Union>(set Ss) = {} \<and> disjoint_sets Ss"

definition static_ptrs :: "nat set" where
  "static_ptrs = {1, 2, 3}"

text \<open>The values of a table in ring order.\<close>

definition table_values :: "jptr hashtable_t \<Rightarrow> jptr list \<Rightarrow> bool" where
  "table_values ht vs \<longleftrightarrow> (\<exists>bl. ht_wf ht bl \<and> vs = map (\<lambda>a. snd (entry_of ht a)) (ring_nodes bl))"

text \<open>
  \<open>owns h p S\<close>: the value at \<open>p\<close> is a tree of which \<open>p\<close> holds the only reference at every
  level, and its cells are those of \<open>S\<close>.  The static values may occur anywhere in it.
\<close>

inductive owns :: "jheap \<Rightarrow> jptr \<Rightarrow> nat set \<Rightarrow> bool" for h where
  owns_static: "\<lbrakk> p \<in> static_ptrs; cells h p = Some c; refcount c = -1 \<rbrakk> \<Longrightarrow> owns h p {}"
| owns_leaf: "\<lbrakk> p \<noteq> 0; p \<notin> static_ptrs; cells h p = Some \<lparr>refcount = 1, body = b\<rparr>;
    body_type b \<in> {JSON_STRING, JSON_INTEGER, JSON_REAL} \<rbrakk> \<Longrightarrow> owns h p {p}"
| owns_array: "\<lbrakk> p \<noteq> 0; p \<notin> static_ptrs; cells h p = Some \<lparr>refcount = 1, body = Array array\<rparr>;
    a_entries array = length vs; a_table array = map Some vs @ rest; list_all2 (owns h) vs Ss;
    disjoint_sets Ss; p \<notin> \<Union>(set Ss) \<rbrakk> \<Longrightarrow> owns h p (insert p (\<Union>(set Ss)))"
| owns_object: "\<lbrakk> p \<noteq> 0; p \<notin> static_ptrs; cells h p = Some \<lparr>refcount = 1, body = Object obj\<rparr>;
    table_values (hashtable obj) vs; list_all2 (owns h) vs Ss;
    disjoint_sets Ss; p \<notin> \<Union>(set Ss) \<rbrakk> \<Longrightarrow> owns h p (insert p (\<Union>(set Ss)))"

definition drop_cells :: "nat set \<Rightarrow> jheap \<Rightarrow> jheap" where
  "drop_cells S h = h\<lparr>cells := (\<lambda>q. if q \<in> S then None else cells h q)\<rparr>"

lemma drop_cells_simps [simp]:
  "drop_cells {} h = h"
  "cells (drop_cells S h) q = (if q \<in> S then None else cells h q)"
  "jnext (drop_cells S h) = jnext h" "jmem (drop_cells S h) = jmem h"
  "drop_cells S (drop_cells T h) = drop_cells (T \<union> S) h"
  by (auto simp: drop_cells_def fun_eq_iff intro!: jheap.equality)

text \<open>A release function that frees exactly \<open>S\<close> in every heap that agrees on \<open>S\<close>.\<close>

definition frees :: "(jptr \<Rightarrow> jheap \<Rightarrow> jheap outcome) \<Rightarrow> jheap \<Rightarrow> jptr \<Rightarrow> nat set \<Rightarrow> bool" where
  "frees f h v S \<longleftrightarrow>
     (\<forall>h'. (\<forall>q \<in> S \<union> static_ptrs. cells h' q = cells h q) \<longrightarrow> f v h' = Inr (drop_cells S h'))"

lemma release_all_frees:
  fixes h :: jheap
  assumes "list_all2 (frees f h) vs Ss" "disjoint_sets Ss" "\<forall>S \<in> set Ss. S \<inter> static_ptrs = {}"
    and "\<And>q. q \<in> \<Union>(set Ss) \<union> static_ptrs \<Longrightarrow> cells h' q = cells h q"
  shows "release_all \<lparr>try_malloc = m, release = f\<rparr> vs h' = Inr (drop_cells (\<Union>(set Ss)) h')"
  using assms
proof (induction vs Ss arbitrary: h' rule: list_all2_induct)
  case (Cons v vs S Ss)
  have "\<forall>q \<in> S \<union> static_ptrs. cells h' q = cells h q"
    by (intro ballI Cons.prems(3)) auto
  with Cons.hyps(1) have fr: "f v h' = Inr (drop_cells S h')" by (simp add: frees_def)
  have "cells (drop_cells S h') q = cells h q" if "q \<in> \<Union>(set Ss) \<union> static_ptrs" for q
  proof -
    from that Cons.prems(1,2) have "q \<notin> S" by auto
    moreover have "cells h' q = cells h q" using that by (intro Cons.prems(3)) auto
    ultimately show ?thesis by simp
  qed
  from Cons.IH[OF _ _ this] Cons.prems(1,2)
  have "release_all \<lparr>try_malloc = m, release = f\<rparr> vs (drop_cells S h') = Inr (drop_cells (\<Union>(set Ss)) (drop_cells S h'))"
    by simp
  with fr show ?case by (simp add: Un_commute)
qed simp

lemma decref_elements_release:
  "decref_elements f (map Some pre @ map Some vs @ rest) (length pre) (length vs) h =
     release_all \<lparr>try_malloc = m, release = f\<rparr> vs h"
proof (induction vs arbitrary: pre h)
  case (Cons v vs)
  have el: "table_at_index (map Some pre @ map Some (v # vs) @ rest) (length pre) = Inr v"
    by (simp add: table_at_index_def nth_append)
  have "decref_elements f (map Some pre @ map Some (v # vs) @ rest) (Suc (length pre)) (length vs) =
      release_all \<lparr>try_malloc = m, release = f\<rparr> vs"
    by (rule ext) (use Cons.IH[of "pre @ [v]"] in simp)
  with el show ?case by simp
qed simp

lemma hashtable_close_release:
  assumes "table_values ht vs"
  shows "\<exists>ht'. hashtable_close rt ht s = obind (release_all rt vs s) (\<lambda>s. Inr (ht', s))"
proof -
  from assms obtain bl where wf: "ht_wf ht bl" and vs: "vs = map (\<lambda>a. snd (entry_of ht a)) (ring_nodes bl)"
    by (auto simp: table_values_def)
  show ?thesis unfolding hashtable_close_def hashtable_do_clear_spec[OF wf] vs obind_assoc by auto
qed

lemma decref_last:
  assumes "cells h' p = Some \<lparr>refcount = 1, body = b\<rparr>" "p \<noteq> 0"
  shows "json_decref_fuel (Suc n) p h' = json_delete (json_decref_fuel n) p
    (h'\<lparr>cells := (cells h')(p \<mapsto> \<lparr>refcount = 0, body = b\<rparr>)\<rparr>)"
  using assms by (simp add: get_cell_def put_refcount_def)

lemma drop_after_update:
  "p \<notin> S \<Longrightarrow> json_free p (drop_cells S (h\<lparr>cells := (cells h)(p \<mapsto> c)\<rparr>)) =
     (if p = 0 then Inl Null_Deref else Inr (drop_cells (insert p S) h))"
  by (auto simp: json_free_def get_cell_def drop_cells_def fun_eq_iff intro!: jheap.equality)

lemma frees_static:
  assumes "p \<in> static_ptrs" "cells h p = Some c" "refcount c = -1"
  shows "frees (json_decref_fuel (Suc n)) h p {}"
  using assms by (auto simp: frees_def get_cell_def static_ptrs_def)

lemma frees_leaf:
  assumes "p \<noteq> 0" "cells h p = Some \<lparr>refcount = 1, body = b\<rparr>"
    "body_type b \<in> {JSON_STRING, JSON_INTEGER, JSON_REAL}"
  shows "frees (json_decref_fuel (Suc n)) h p {p}"
  unfolding frees_def
proof (intro allI impI)
  fix h' :: jheap assume "\<forall>q \<in> {p} \<union> static_ptrs. cells h' q = cells h q"
  with assms(2) have c: "cells h' p = Some \<lparr>refcount = 1, body = b\<rparr>" by simp
  let ?h = "h'\<lparr>cells := (cells h')(p \<mapsto> \<lparr>refcount = 0, body = b\<rparr>)\<rparr>"
  have "json_free p ?h = Inr (drop_cells {p} h')"
    using drop_after_update[of p "{}" h'] assms(1) by simp
  then show "json_decref_fuel (Suc n) p h' = Inr (drop_cells {p} h')"
    unfolding decref_last[OF c assms(1)] using assms(1,3)
    by (cases b) (auto simp: json_delete_def get_cell_def)
qed

lemma frees_container:
  assumes "p \<noteq> 0" "p \<notin> static_ptrs" "cells h p = Some \<lparr>refcount = 1, body = b\<rparr>"
    and kids: "list_all2 (frees (json_decref_fuel n) h) vs Ss" "disjoint_sets Ss"
      "\<forall>S \<in> set Ss. S \<inter> static_ptrs = {}" "p \<notin> \<Union>(set Ss)"
    and del: "\<And>h'. cells h' p = Some \<lparr>refcount = 0, body = b\<rparr> \<Longrightarrow> \<exists>m. json_delete (json_decref_fuel n) p h' =
      obind (release_all \<lparr>try_malloc = m, release = json_decref_fuel n\<rparr> vs h') (json_free p)"
  shows "frees (json_decref_fuel (Suc n)) h p (insert p (\<Union>(set Ss)))"
  unfolding frees_def
proof (intro allI impI)
  fix h' :: jheap assume agree: "\<forall>q \<in> insert p (\<Union>(set Ss)) \<union> static_ptrs. cells h' q = cells h q"
  with assms(3) have c: "cells h' p = Some \<lparr>refcount = 1, body = b\<rparr>" by simp
  let ?h = "h'\<lparr>cells := (cells h')(p \<mapsto> \<lparr>refcount = 0, body = b\<rparr>)\<rparr>"
  from del[of ?h] obtain m where m: "json_delete (json_decref_fuel n) p ?h =
      obind (release_all \<lparr>try_malloc = m, release = json_decref_fuel n\<rparr> vs ?h) (json_free p)" by auto
  have "cells ?h q = cells h q" if "q \<in> \<Union>(set Ss) \<union> static_ptrs" for q
    using agree kids(4) assms(2) that by auto
  from release_all_frees[OF kids(1-3) this, of m]
  show "json_decref_fuel (Suc n) p h' = Inr (drop_cells (insert p (\<Union>(set Ss))) h')"
    unfolding decref_last[OF c assms(1)] m using drop_after_update[OF kids(4), of h'] assms(1) by simp
qed

lemma card_member_le:
  assumes "\<forall>S \<in> set Ss. finite S" "S \<in> set Ss"
  shows "card S \<le> card (\<Union>(set Ss))"
  using assms by (intro card_mono) auto

definition freeable :: "jheap \<Rightarrow> jptr \<Rightarrow> nat set \<Rightarrow> bool" where
  "freeable h p S \<longleftrightarrow> finite S \<and> S \<inter> static_ptrs = {} \<and> (\<forall>q \<in> S. cells h q \<noteq> None) \<and>
    (\<forall>n. card S \<le> n \<longrightarrow> frees (json_decref_fuel (Suc n)) h p S)"

lemma freeable_container:
  assumes p: "p \<noteq> 0" "p \<notin> static_ptrs" "cells h p = Some \<lparr>refcount = 1, body = b\<rparr>"
    and kids: "list_all2 (freeable h) vs Ss" "disjoint_sets Ss" "p \<notin> \<Union>(set Ss)"
    and del: "\<And>f h'. cells h' p = Some \<lparr>refcount = 0, body = b\<rparr> \<Longrightarrow> \<exists>m. json_delete f p h' =
      obind (release_all \<lparr>try_malloc = m, release = f\<rparr> vs h') (json_free p)"
  shows "freeable h p (insert p (\<Union>(set Ss)))"
proof -
  let ?U = "\<Union>(set Ss)"
  have all: "\<forall>S \<in> set Ss. finite S \<and> S \<inter> static_ptrs = {} \<and> (\<forall>q \<in> S. cells h q \<noteq> None)"
  proof
    fix S assume "S \<in> set Ss"
    then obtain i where "i < length Ss" "S = Ss ! i" by (auto simp: in_set_conv_nth)
    with kids(1) have "freeable h (vs ! i) S" by (simp add: list_all2_conv_all_nth)
    then show "finite S \<and> S \<inter> static_ptrs = {} \<and> (\<forall>q \<in> S. cells h q \<noteq> None)"
      unfolding freeable_def by blast
  qed
  then have fin: "finite ?U" by auto
  have "frees (json_decref_fuel (Suc n)) h p (insert p ?U)" if n: "card (insert p ?U) \<le> n" for n
  proof -
    from n fin kids(3) have "card ?U < n" by simp
    then obtain k where k: "n = Suc k" "card ?U \<le> k" by (cases n) auto
    have "list_all2 (frees (json_decref_fuel n) h) vs Ss" unfolding list_all2_conv_all_nth
    proof (intro conjI allI impI)
      show len: "length vs = length Ss" using kids(1) by (rule list_all2_lengthD)
      fix i assume i: "i < length vs"
      with len have "Ss ! i \<in> set Ss" by simp
      with card_member_le[OF _ this] all k(2) have "card (Ss ! i) \<le> k" by fastforce
      with kids(1) i show "frees (json_decref_fuel n) h (vs ! i) (Ss ! i)"
        unfolding k(1) list_all2_conv_all_nth freeable_def by blast
    qed
    from frees_container[OF p this kids(2) _ kids(3)] all del show ?thesis by blast
  qed
  moreover have "insert p ?U \<inter> static_ptrs = {}" using all p(2) by auto
  moreover have "\<forall>q \<in> insert p ?U. cells h q \<noteq> None" using all p(3) by auto
  ultimately show ?thesis using fin by (simp add: freeable_def)
qed

lemma owns_freeable: "owns h p S \<Longrightarrow> freeable h p S"
proof (induction rule: owns.induct)
  case (owns_static p c)
  then show ?case by (simp add: frees_static freeable_def del: json_decref_fuel.simps)
next
  case (owns_leaf p b)
  then show ?case by (simp add: frees_leaf freeable_def del: json_decref_fuel.simps)
next
  case (owns_array p array vs rest Ss)
  have "list_all2 (freeable h) vs Ss" using owns_array.IH by (auto elim: list_all2_mono)
  moreover have "\<exists>m. json_delete f p h' = obind (release_all \<lparr>try_malloc = m, release = f\<rparr> vs h') (json_free p)"
    if c: "cells h' p = Some \<lparr>refcount = 0, body = Array array\<rparr>" for f h'
  proof -
    have "decref_elements f (a_table array) 0 (a_entries array) h' =
        release_all \<lparr>try_malloc = json_malloc, release = f\<rparr> vs h'"
      using decref_elements_release[of f "[]" vs rest h' json_malloc] owns_array.hyps(4,5) by simp
    with c owns_array.hyps(1) show ?thesis by (auto simp: json_delete_def get_cell_def)
  qed
  ultimately show ?case using owns_array.hyps by (intro freeable_container) auto
next
  case (owns_object p obj vs Ss)
  have "list_all2 (freeable h) vs Ss" using owns_object.IH by (auto elim: list_all2_mono)
  moreover have "\<exists>m. json_delete f p h' = obind (release_all \<lparr>try_malloc = m, release = f\<rparr> vs h') (json_free p)"
    if c: "cells h' p = Some \<lparr>refcount = 0, body = Object obj\<rparr>" for f h'
  proof -
    from hashtable_close_release[OF owns_object.hyps(4), of "\<lparr>try_malloc = json_malloc, release = f\<rparr>" h']
    obtain ht' where "hashtable_close \<lparr>try_malloc = json_malloc, release = f\<rparr> (hashtable obj) h' =
      obind (release_all \<lparr>try_malloc = json_malloc, release = f\<rparr> vs h') (\<lambda>s. Inr (ht', s))" by blast
    with c owns_object.hyps(1) show ?thesis
      by (intro exI[of _ json_malloc]) (simp add: json_delete_def get_cell_def obind_assoc)
  qed
  ultimately show ?case using owns_object.hyps by (intro freeable_container) auto
qed

text \<open>Every address in use was handed out by the allocator.\<close>

definition jheap_wf :: "jheap \<Rightarrow> bool" where
  "jheap_wf h \<longleftrightarrow> (\<forall>q c. cells h q = Some c \<longrightarrow> 0 < q \<and> q < jnext h)"

lemma owns_card:
  assumes "jheap_wf h" "owns h p S"
  shows "card S \<le> jnext h"
proof -
  have "S \<subseteq> {..<jnext h}"
    using owns_freeable[OF assms(2)] assms(1) by (force simp: freeable_def jheap_wf_def)
  from card_mono[OF _ this] show ?thesis by simp
qed

lemma json_decref_owns:
  assumes "jheap_wf h" "owns h p S"
  shows "json_decref p h = Inr (drop_cells S h)"
  using owns_freeable[OF assms(2)] owns_card[OF assms]
  by (auto simp: json_decref_def freeable_def frees_def)

section \<open>Objects as maps\<close>

text \<open>The object at \<open>p\<close> maps its keys to pointers as \<open>M\<close> does; \<open>k\<close> is the number of its keys.\<close>

definition object_at :: "jheap \<Rightarrow> jptr \<Rightarrow> nat \<Rightarrow> (byte list \<rightharpoonup> jptr) \<Rightarrow> bool" where
  "object_at h p k M \<longleftrightarrow> p \<noteq> 0 \<and> (\<exists>c obj N. cells h p = Some c \<and> body c = Object obj \<and>
     ht_rep (hashtable obj) N \<and> M = map_option snd \<circ> N \<and> ht_size (hashtable obj) = k)"

lemma object_atE:
  assumes "object_at h p k M"
  obtains c obj N where "p \<noteq> 0" "cells h p = Some c" "body c = Object obj" "ht_rep (hashtable obj) N"
    "M = map_option snd \<circ> N" "ht_size (hashtable obj) = k" "get_object h p = Inr (Some obj)" "get_cell h p = Inr c"
  using assms by (auto simp: object_at_def get_object_def get_cell_def)

lemma object_atI:
  assumes "p \<noteq> 0" "cells h p = Some c" "body c = Object obj" "ht_rep (hashtable obj) N"
    "ht_size (hashtable obj) = k" "M = map_option snd \<circ> N"
  shows "object_at h p k M"
  using assms by (auto simp: object_at_def)

lemma json_object_get_spec:
  assumes "object_at h p k M"
  shows "json_object_get h p key = Inr (case M key of None \<Rightarrow> 0 | Some v \<Rightarrow> v)"
  using assms
  by (rule object_atE) (auto simp: json_object_get_def hashtable_get_correct split: option.splits)

lemma json_object_size_spec: "object_at h p k M \<Longrightarrow> json_object_size h p = Inr k"
  by (erule object_atE) (simp add: json_object_size_def)

lemma json_object_spec:
  assumes "2 \<le> jmem h" "0 < jnext h"
  shows "\<exists>h'. json_object h = Inr (jnext h, h') \<and> object_at h' (jnext h) 0 Map.empty \<and>
    (\<forall>q. q \<noteq> jnext h \<longrightarrow> cells h' q = cells h q) \<and> jnext h' = Suc (jnext h) \<and> jmem h' = jmem h - 2 \<and>
    map_option refcount (cells h' (jnext h)) = Some 1"
proof -
  let ?h1 = "h\<lparr>jmem := jmem h - 1\<rparr>" let ?h2 = "h\<lparr>jmem := jmem h - 2\<rparr>"
  have m: "json_malloc h = (True, ?h1)" "try_malloc json_runtime ?h1 = (True, ?h2)"
    using assms by (simp_all add: json_malloc_def json_runtime_def)
  from hashtable_init_spec[OF m(2)] obtain ht where
    ht: "hashtable_init json_runtime ?h1 = Inr (0, ht, ?h2)" "ht_rep ht Map.empty" "ht_size ht = 0" by blast
  let ?b = "Object \<lparr>hashtable = ht, serial = 0, o_visited = 0\<rparr>"
  let ?h = "?h2\<lparr>cells := (cells ?h2)(jnext h \<mapsto> \<lparr>refcount = 1, body = ?b\<rparr>), jnext := Suc (jnext h)\<rparr>"
  have "json_object h = Inr (jnext h, ?h)"
    using m(1) ht(1) by (simp add: json_object_def json_init_def)
  moreover have "object_at ?h (jnext h) 0 Map.empty"
    by (rule object_atI[of _ _ "\<lparr>refcount = 1, body = ?b\<rparr>"]) (use ht assms(2) in auto)
  ultimately show ?thesis by auto
qed

text \<open>What releasing an owned value does in a heap that agrees on it.\<close>

lemma json_decref_agree:
  assumes "jheap_wf h" "owns h v S" "\<And>q. q \<in> S \<union> static_ptrs \<Longrightarrow> cells h' q = cells h q" "jnext h' = jnext h"
  shows "json_decref v h' = Inr (drop_cells S h')"
  using owns_freeable[OF assms(2)] owns_card[OF assms(1,2)] assms(3,4)
  unfolding json_decref_def freeable_def frees_def by auto

text \<open>What an operation that frees \<open>S\<close> leaves alone.\<close>

definition changes_and_frees :: "jptr \<Rightarrow> nat set \<Rightarrow> jheap \<Rightarrow> jheap \<Rightarrow> bool" where
  "changes_and_frees p S h h' \<longleftrightarrow>
     (\<forall>q. q \<noteq> p \<longrightarrow> cells h' q = (if q \<in> S then None else cells h q)) \<and> jnext h' = jnext h \<and>
     map_option refcount (cells h' p) = map_option refcount (cells h p)"

lemma json_object_set_new_spec:
  assumes obj: "object_at h p k M" and v: "v \<noteq> 0" "p \<noteq> v" and k: "k < 1610612741" and mem: "2 \<le> jmem h"
    and wf: "jheap_wf h" and p: "p \<notin> static_ptrs"
    and old: "\<And>w. M key = Some w \<Longrightarrow> owns h w S \<and> p \<notin> S" "M key = None \<Longrightarrow> S = {}"
  shows "\<exists>h'. json_object_set_new_nocheck p (Some key) v h = Inr (0, h') \<and>
    object_at h' p (if M key = None then Suc k else k) (M(key \<mapsto> v)) \<and> changes_and_frees p S h h' \<and>
    jmem h \<le> jmem h' + 2"
proof -
  from obj obtain c ob N where o: "p \<noteq> 0" "cells h p = Some c" "body c = Object ob" "ht_rep (hashtable ob) N"
    "M = map_option snd \<circ> N" "ht_size (hashtable ob) = k" "get_object h p = Inr (Some ob)" by (rule object_atE)
  let ?h1 = "h\<lparr>cells := (cells h)(p \<mapsto> c\<lparr>body := Object (ob\<lparr>serial := Suc (serial ob)\<rparr>)\<rparr>)\<rparr>"
  have put1: "put_body p (Object (ob\<lparr>serial := Suc (serial ob)\<rparr>)) h = Inr ?h1"
    by (rule put_body_cell[OF o(2,1)])
  have al: "fst (try_malloc json_runtime ?h1)"
      "fst (try_malloc json_runtime (snd (try_malloc json_runtime ?h1)))"
    using mem by (simp_all add: json_runtime_def json_malloc_def)
  from hashtable_set_spec[OF o(4) _ al, of key "serial ob" v] k o(6) obtain s1 ht' where
    st: "s1 = ?h1 \<or> s1 = snd (try_malloc json_runtime ?h1)"
      "hashtable_set json_runtime key (serial ob) v (hashtable ob) ?h1 =
      (case N key of Some (_, old) \<Rightarrow> obind (release json_runtime old s1) (\<lambda>s2. Inr (0, ht', s2))
       | None \<Rightarrow> Inr (0, ht', snd (try_malloc json_runtime s1)))"
      "ht_rep ht' (N(key \<mapsto> (case N key of Some (ser, _) \<Rightarrow> ser | None \<Rightarrow> serial ob, v)))"
      "ht_size ht' = (if N key = None then Suc k else k)" by auto
  have s1: "cells s1 = cells ?h1" "jnext s1 = jnext h" "jmem h \<le> jmem s1 + 1" "1 \<le> jmem s1"
    using st(1) mem by (auto simp: json_runtime_def json_malloc_def)
  have "\<exists>h2. hashtable_set json_runtime key (serial ob) v (hashtable ob) ?h1 = Inr (0, ht', h2) \<and>
      jnext h2 = jnext h \<and> cells h2 p = cells ?h1 p \<and> jmem h \<le> jmem h2 + 2 \<and>
      (\<forall>q. q \<noteq> p \<longrightarrow> cells h2 q = (if q \<in> S then None else cells h q))"
  proof (cases "N key")
    case None
    then have "S = {}" using old(2) o(5) by simp
    with None st(2) s1 show ?thesis
      by (intro exI[of _ "snd (try_malloc json_runtime s1)"]) (auto simp: json_runtime_def json_malloc_def)
  next
    case (Some y)
    then have w: "owns h (snd y) S" "p \<notin> S" using old(1)[of "snd y"] o(5) by auto
    have "release json_runtime (snd y) s1 = Inr (drop_cells S s1)"
      unfolding json_runtime_def runtime.simps
      by (rule json_decref_agree[OF wf w(1)]) (use s1 w(2) p in auto)
    with Some st(2) s1 w(2) show ?thesis
      by (intro exI[of _ "drop_cells S s1"]) (auto split: prod.splits)
  qed
  then obtain h2 where h2: "hashtable_set json_runtime key (serial ob) v (hashtable ob) ?h1 = Inr (0, ht', h2)"
    "jnext h2 = jnext h" "cells h2 p = cells ?h1 p" "jmem h \<le> jmem h2 + 2"
    "\<And>q. q \<noteq> p \<Longrightarrow> cells h2 q = (if q \<in> S then None else cells h q)" by blast
  let ?b = "Object (ob\<lparr>serial := Suc (serial ob), hashtable := ht'\<rparr>)"
  let ?c = "c\<lparr>body := Object (ob\<lparr>serial := Suc (serial ob)\<rparr>)\<rparr>"
  have c2: "cells h2 p = Some ?c" using h2(3) by simp
  let ?h = "h2\<lparr>cells := (cells h2)(p \<mapsto> ?c\<lparr>body := ?b\<rparr>)\<rparr>"
  have "put_body p ?b h2 = Inr ?h" by (rule put_body_cell[OF c2 o(1)])
  then have "json_object_set_new_nocheck p (Some key) v h = Inr (0, ?h)"
    using v o(7) put1 h2(1) by (simp add: json_object_set_new_nocheck_def Let_def)
  moreover have "object_at ?h p (if M key = None then Suc k else k) (M(key \<mapsto> v))"
    by (rule object_atI[of _ _ "?c\<lparr>body := ?b\<rparr>"]) (use o(1,5) st(3,4) in auto)
  moreover have "changes_and_frees p S h ?h" using h2(2,5) o(2) by (simp add: changes_and_frees_def)
  moreover have "jmem h \<le> jmem ?h + 2" using h2(4) by simp
  ultimately show ?thesis by blast
qed

lemma json_object_del_spec:
  assumes obj: "object_at h p k M" and wf: "jheap_wf h" and p: "p \<notin> static_ptrs"
    and old: "M key = Some w" "owns h w S" "p \<notin> S"
  shows "\<exists>h'. json_object_del p key h = Inr (0, h') \<and> object_at h' p (k - 1) (M(key := None)) \<and>
    changes_and_frees p S h h'"
proof -
  from obj obtain c ob N where o: "p \<noteq> 0" "cells h p = Some c" "body c = Object ob" "ht_rep (hashtable ob) N"
    "M = map_option snd \<circ> N" "ht_size (hashtable ob) = k" "get_object h p = Inr (Some ob)" by (rule object_atE)
  from old(1) o(5) obtain ser where N: "N key = Some (ser, w)" by auto
  from hashtable_del_spec[OF o(4), of json_runtime key h] N o(6) obtain ht' where
    d: "hashtable_del json_runtime key (hashtable ob) h = obind (release json_runtime w h) (\<lambda>s'. Inr (0, ht', s'))"
      "ht_rep ht' (N(key := None))" "ht_size ht' = k - 1" by auto
  have "release json_runtime w h = Inr (drop_cells S h)"
    unfolding json_runtime_def runtime.simps by (rule json_decref_owns[OF wf old(2)])
  with d(1) have del: "hashtable_del json_runtime key (hashtable ob) h = Inr (0, ht', drop_cells S h)" by simp
  let ?b = "Object (ob\<lparr>hashtable := ht'\<rparr>)"
  let ?h = "(drop_cells S h)\<lparr>cells := (cells (drop_cells S h))(p \<mapsto> c\<lparr>body := ?b\<rparr>)\<rparr>"
  have "put_body p ?b (drop_cells S h) = Inr ?h" by (rule put_body_cell) (use o(1,2) old(3) in simp_all)
  then have "json_object_del p key h = Inr (0, ?h)" using o(7) del by (simp add: json_object_del_def)
  moreover have "object_at ?h p (k - 1) (M(key := None))"
    by (rule object_atI[of _ _ "c\<lparr>body := ?b\<rparr>"]) (use o(1,5) d(2,3) in auto)
  moreover have "changes_and_frees p S h ?h" using o(2) by (simp add: changes_and_frees_def)
  ultimately show ?thesis by blast
qed

section \<open>Properties\<close>

text \<open>A heap with the array \<open>[7, true, "a"]\<close> at 4 and an integer at 7.\<close>

definition demo_cells :: "jptr option list \<Rightarrow> nat \<rightharpoonup> json_t" where
  "demo_cells tb = (cells (jheap_init 0))
     (4 \<mapsto> \<lparr>refcount = 1, body = Array \<lparr>a_entries = 3, a_table = tb, a_visited = 0\<rparr>\<rparr>,
      5 \<mapsto> \<lparr>refcount = 1, body = Integer 7\<rparr>, 6 \<mapsto> \<lparr>refcount = 1, body = String [97]\<rparr>,
      7 \<mapsto> \<lparr>refcount = 1, body = Integer 8\<rparr>)"

definition demo_heap :: "jptr option list \<Rightarrow> jheap" where
  "demo_heap tb = \<lparr>cells = demo_cells tb, jnext = 8, jmem = 3\<rparr>"

abbreviation (input) demo_array :: "jptr option list" where
  "demo_array \<equiv> [Some 5, Some 1, Some 6]"

lemma demo_heap_wf: "jheap_wf (demo_heap tb)"
  by (auto simp: jheap_wf_def demo_heap_def demo_cells_def jheap_init_def split: if_splits)

lemma demo_heap_array: "array_at (demo_heap (demo_array @ rest)) 4 (3 + length rest) [5, 1, 6]"
  by (auto simp: array_at_def demo_heap_def demo_cells_def)

lemma demo_heap_owns: "owns (demo_heap (demo_array @ rest)) 4 {4, 5, 6}"
proof -
  let ?h = "demo_heap (demo_array @ rest)"
  have "owns ?h 5 {5}" by (rule owns_leaf[where b = "Integer 7"]) (simp_all add: demo_heap_def demo_cells_def static_ptrs_def)
  moreover have "owns ?h 6 {6}"
    by (rule owns_leaf[where b = "String [97]"]) (simp_all add: demo_heap_def demo_cells_def static_ptrs_def)
  moreover have "owns ?h 1 {}"
    by (rule owns_static[where c = "\<lparr>refcount = -1, body = True_body\<rparr>"])
      (simp_all add: demo_heap_def demo_cells_def static_ptrs_def jheap_init_def)
  ultimately have "owns ?h 4 (insert 4 (\<Union>(set [{5}, {}, {6}])))"
    by (intro owns_array[where vs = "[5, 1, 6]" and rest = rest
          and array = "\<lparr>a_entries = 3, a_table = demo_array @ rest, a_visited = 0\<rparr>"])
      (simp_all add: demo_heap_def demo_cells_def static_ptrs_def)
  then show ?thesis by (simp add: insert_commute)
qed

text \<open>C19: \<open>json_decref\<close> on the only reference to a tree of values (arrays and objects at any
  depth, every inner value referenced once, the static values anywhere) deletes every cell of
  the tree once and nothing else: no leak, no double free, no use after free, and the recursion
  ends within the fuel of the model.\<close>

theorem json_decref_frees_tree:
  assumes "jheap_wf h" and "owns h p S"
  shows "json_decref p h = Inr (drop_cells S h) \<and> (\<forall>q. cells (drop_cells S h) q \<noteq> None \<longleftrightarrow> cells h q \<noteq> None \<and> q \<notin> S)"
  using json_decref_owns[OF assms] by simp

theorem json_decref_frees_tree_witness:
  "json_decref 4 (demo_heap demo_array) = Inr (drop_cells {4, 5, 6} (demo_heap demo_array))"
  using json_decref_frees_tree[OF demo_heap_wf demo_heap_owns[of "[]"]] by simp

text \<open>C20: An array is a list of pointers: \<open>json_array_size\<close> is its length, \<open>json_array_get\<close> its element
  or null past the end, \<open>json_array_append_new\<close> and \<open>json_array_insert_new\<close> put the new pointer at the end
  and before the given index while there is room or memory, doubling the block when it is full,
  and no other value of the heap changes.\<close>

theorem json_array_refines_list:
  assumes arr: "array_at h p n vs" and v: "v \<noteq> 0" "p \<noteq> v" and room: "length vs < n \<or> 0 < jmem h"
  shows "json_array_size h p = Inr (length vs) \<and>
    json_array_get h p i = Inr (if i < length vs then vs ! i else 0) \<and>
    (\<exists>h' n'. json_array_append_new p v h = Inr (0, h') \<and> array_at h' p n' (vs @ [v]) \<and> only_changes p h h' \<and>
      n' = (if length vs < n then n else max (n + 1) (n * 2))) \<and>
    (if i \<le> length vs
     then \<exists>h' n'. json_array_insert_new p i v h = Inr (0, h') \<and> array_at h' p n' (take i vs @ v # drop i vs) \<and> only_changes p h h'
     else json_array_insert_new p i v h = obind (json_decref v h) (\<lambda>h. Inr (-1, h)))"
proof (intro conjI)
  show "json_array_size h p = Inr (length vs)" by (rule json_array_size_spec[OF arr])
  show "json_array_get h p i = Inr (if i < length vs then vs ! i else 0)" by (rule json_array_get_spec[OF arr])
  show "\<exists>h' n'. json_array_append_new p v h = Inr (0, h') \<and> array_at h' p n' (vs @ [v]) \<and> only_changes p h h' \<and>
      n' = (if length vs < n then n else max (n + 1) (n * 2))"
    using json_array_append_new_spec[OF arr v room] by blast
  have "\<exists>h' n'. json_array_insert_new p i v h = Inr (0, h') \<and>
      array_at h' p n' (take i vs @ v # drop i vs) \<and> only_changes p h h'" if "i \<le> length vs"
    using json_array_insert_new_spec[of h p n "take i vs" "drop i vs" v] arr v room that by (simp add: min_absorb2)
  moreover have "json_array_insert_new p i v h = obind (json_decref v h) (\<lambda>h. Inr (-1, h))" if "length vs < i"
    using arr by (rule array_atE) (use v that in \<open>simp add: json_array_insert_new_def\<close>)
  ultimately show "if i \<le> length vs
     then \<exists>h' n'. json_array_insert_new p i v h = Inr (0, h') \<and> array_at h' p n' (take i vs @ v # drop i vs) \<and> only_changes p h h'
     else json_array_insert_new p i v h = obind (json_decref v h) (\<lambda>h. Inr (-1, h))" by simp
qed

theorem json_array_refines_list_witness:
  "\<exists>h' n'. json_array_insert_new 4 1 7 (demo_heap demo_array) = Inr (0, h') \<and> array_at h' 4 n' [5, 7, 1, 6]"
  using json_array_refines_list[OF demo_heap_array[of "[]"], of 7 1] by (auto simp: demo_heap_def)

text \<open>C22: \<open>json_array_remove\<close> drops the element and its reference when the block has a free element,
  and reads past the end of the block when it is full: \<open>array_move\<close> is given one element too many.\<close>

theorem json_array_remove_overrun:
  assumes "array_at h p n vs" and "i < length vs" and "json_decref (vs ! i) h = Inr h1" and "cells h1 p = cells h p"
  shows "if length vs < n
    then \<exists>h'. json_array_remove p i h = Inr (0, h') \<and> array_at h' p n (take i vs @ drop (Suc i) vs) \<and> only_changes p h1 h'
    else json_array_remove p i h = Inl Out_Of_Bounds"
proof -
  have len: "length (take i vs) = i" using assms(2) by simp
  note eq = id_take_nth_drop[OF assms(2), symmetric]
  show ?thesis
    by (rule json_array_remove_spec[of h p n "take i vs" "vs ! i" "drop (Suc i) vs" h1, unfolded eq len, OF assms(1,3,4)])
qed

theorem json_array_remove_overrun_witness:
  "json_array_remove 4 0 (demo_heap demo_array) = Inl Out_Of_Bounds"
proof -
  have "owns (demo_heap demo_array) 5 {5}"
    by (rule owns_leaf[where b = "Integer 7"]) (simp_all add: demo_heap_def demo_cells_def static_ptrs_def)
  from json_decref_owns[OF demo_heap_wf this]
  have "json_decref 5 (demo_heap demo_array) = Inr (drop_cells {5} (demo_heap demo_array))" .
  with json_array_remove_overrun[OF demo_heap_array[of "[]"], of 0] show ?thesis by simp
qed

text \<open>C21: An object is a finite map from keys to pointers: \<open>json_object_get\<close> looks the key up,
  \<open>json_object_set_new_nocheck\<close> binds it, frees exactly the tree of the value it replaces, and
  \<open>json_object_del\<close> unbinds it and frees the tree of its value; no other value of the heap
  changes.\<close>

theorem json_object_refines_map:
  assumes obj: "object_at h p k M" and v: "v \<noteq> 0" "p \<noteq> v" and room: "k < 1610612741" "2 \<le> jmem h"
    and wf: "jheap_wf h" and p: "p \<notin> static_ptrs"
    and old: "case M key of None \<Rightarrow> S = {} | Some w \<Rightarrow> owns h w S \<and> p \<notin> S"
  shows "json_object_size h p = Inr k \<and>
    json_object_get h p key = Inr (case M key of None \<Rightarrow> 0 | Some w \<Rightarrow> w) \<and>
    (\<exists>h'. json_object_set_new_nocheck p (Some key) v h = Inr (0, h') \<and>
      object_at h' p (if M key = None then Suc k else k) (M(key \<mapsto> v)) \<and> changes_and_frees p S h h') \<and>
    (case M key of None \<Rightarrow> True
     | Some w \<Rightarrow> \<exists>h'. json_object_del p key h = Inr (0, h') \<and> object_at h' p (k - 1) (M(key := None)) \<and>
         changes_and_frees p S h h')"
proof (intro conjI)
  show "json_object_size h p = Inr k" by (rule json_object_size_spec[OF obj])
  show "json_object_get h p key = Inr (case M key of None \<Rightarrow> 0 | Some w \<Rightarrow> w)" by (rule json_object_get_spec[OF obj])
  show "\<exists>h'. json_object_set_new_nocheck p (Some key) v h = Inr (0, h') \<and>
      object_at h' p (if M key = None then Suc k else k) (M(key \<mapsto> v)) \<and> changes_and_frees p S h h'"
  proof -
    have "M key = Some w \<Longrightarrow> owns h w S \<and> p \<notin> S" "M key = None \<Longrightarrow> S = {}" for w using old by simp_all
    from json_object_set_new_spec[OF obj v room wf p this] show ?thesis by blast
  qed
  show "case M key of None \<Rightarrow> True
     | Some w \<Rightarrow> \<exists>h'. json_object_del p key h = Inr (0, h') \<and> object_at h' p (k - 1) (M(key := None)) \<and>
         changes_and_frees p S h h'"
    using old json_object_del_spec[OF obj wf p] by (auto split: option.split)
qed

theorem json_object_refines_map_witness:
  "\<exists>h h'. json_object (jheap_init 4) = Inr (4, h) \<and>
    json_object_set_new_nocheck 4 (Some (cstr ''a'')) 1 h = Inr (0, h') \<and> object_at h' 4 1 [cstr ''a'' \<mapsto> 1]"
proof -
  have "2 \<le> jmem (jheap_init 4)" "0 < jnext (jheap_init 4)" by (simp_all add: jheap_init_def)
  from json_object_spec[OF this] obtain h where
    h: "json_object (jheap_init 4) = Inr (4, h)" "object_at h 4 0 Map.empty" "2 \<le> jmem h" "jnext h = 5"
      "\<And>q. q \<noteq> 4 \<Longrightarrow> cells h q = cells (jheap_init 4) q" by (auto simp: jheap_init_def)
  have "0 < q \<and> q < jnext h" if "cells h q = Some c" for q c
    using h(4) h(5)[of q] that by (cases "q = 4") (auto simp: jheap_init_def split: if_splits)
  then have wf: "jheap_wf h" by (simp add: jheap_wf_def)
  from json_object_refines_map[where v = 1 and key = "cstr ''a''" and S = "{}", OF h(2) _ _ _ h(3) wf]
  show ?thesis using h(1) by (auto simp: static_ptrs_def)
qed

end
