(* ===== verification/Headcrab.thy ===== *)
theory Headcrab
  imports Dispatch_Table Mqueue Json_Value
begin

text \<open>
  \<open>src/src/headcrab.c\<close>: the public operations on the composition of the dispatch table, the
  heap of JSON values and the two message queues.  The log macros expand to nothing in the
  build of the Makefile (no \<open>DEBUG\<close>).  The callbacks of the application act on the world,
  that is on everything but the dispatch table: a callback that binds a verb while a command is
  being dispatched is outside the model.
\<close>

section \<open>The world\<close>

text \<open>
  A message in a queue is a \<open>json_t *\<close>, null being \<open>None\<close>; \<open>w_broadcasts\<close> counts the
  calls of \<open>websocket_notify\<close>, \<open>w_app\<close> is the state of the application.
\<close>

record 'u hc_world =
  w_json :: jheap
  w_queues :: "jptr mqueues"
  w_broadcasts :: nat
  w_app :: 'u

definition msg_ptr :: "jptr option \<Rightarrow> jptr" where
  "msg_ptr v = (case v of None \<Rightarrow> 0 | Some p \<Rightarrow> p)"

definition ptr_msg :: "jptr \<Rightarrow> jptr option" where
  "ptr_msg p = (if p = 0 then None else Some p)"

text \<open>Statements that act on the heap alone.\<close>

definition on_json :: "(jheap \<Rightarrow> jheap outcome) \<Rightarrow> 'u hc_world \<Rightarrow> 'u hc_world outcome" where
  "on_json f w = obind (f (w_json w)) (\<lambda>h. Inr (w\<lparr>w_json := h\<rparr>))"

section \<open>Binding\<close>

text \<open>\<open>malloc((strlen(s) + 1) * sizeof *s)\<close> followed by \<open>strcpy\<close>, which writes through null
  when there is no memory.\<close>

definition copy_string :: "byte list option \<Rightarrow> dmem \<Rightarrow> (byte list \<times> dmem) outcome" where
  "copy_string s m =
     (case s of None \<Rightarrow> Inl Null_Deref
      | Some bs \<Rightarrow> if mem_left m = 0 then Inl Null_Deref else Inr (bs, m\<lparr>mem_left := mem_left m - 1\<rparr>))"

definition headcrab_bind_object ::
    "opaque \<Rightarrow> byte list option \<Rightarrow> byte list option \<Rightarrow> fptr \<Rightarrow> opaque \<Rightarrow> fptr \<Rightarrow> fptr \<Rightarrow> opaque \<Rightarrow>
     dmem \<Rightarrow> dmem outcome" where
  "headcrab_bind_object target name verb preOp preOpArgs op postOp postOpArgs m =
     (if verb = None then Inr m
      else obind (copy_string name m) (\<lambda>(name, m).
        obind (copy_string verb m) (\<lambda>(verb, m).
        dispatch_table_add target name
          \<lparr>b_verb = verb, b_pre = preOp, b_preArgs = preOpArgs, b_op = op,
           b_post = postOp, b_postArgs = postOpArgs\<rparr> m)))"

definition headcrab_clear_all_object_bindings :: "byte list option \<Rightarrow> dmem \<Rightarrow> dmem outcome" where
  "headcrab_clear_all_object_bindings name m =
     (case name of None \<Rightarrow> Inl Null_Deref
      | Some bs \<Rightarrow> if bs = [] then Inr m else dispatch_table_remove bs m)"

definition headcrab_rebind_object :: "byte list \<Rightarrow> opaque \<Rightarrow> dmem \<Rightarrow> dmem outcome" where
  "headcrab_rebind_object name object m = dispatch_table_rebind name object m"

section \<open>Dispatching\<close>

text \<open>\<open>json_is_string(p)\<close> together with the string that \<open>json_string_value\<close> then returns.\<close>

definition string_member :: "jheap \<Rightarrow> jptr \<Rightarrow> byte list option outcome" where
  "string_member h p =
     obind (json_is JSON_STRING h p) (\<lambda>b. if \<not> b then Inr None else json_string_value h p)"

definition dispatch :: "(jptr, 'u hc_world) callbacks \<Rightarrow> jptr \<Rightarrow> dmem \<Rightarrow> 'u hc_world \<Rightarrow> 'u hc_world outcome" where
  "dispatch cb message m w =
     (let h = w_json w in
      obind (json_is JSON_OBJECT h message) (\<lambda>is_object.
      if \<not> is_object then Inr w
      else obind (json_object_get h message (cstr ''type'')) (\<lambda>type.
      obind (string_member h type) (\<lambda>t.
      if t \<noteq> Some (cstr ''command'') then Inr w
      else obind (json_object_get h message (cstr ''target'')) (\<lambda>target.
      obind (string_member h target) (\<lambda>tg.
      if tg = None then Inr w
      else obind (json_object_get h message (cstr ''command'')) (\<lambda>command.
      obind (string_member h command) (\<lambda>cm.
      if cm = None then Inr w
      else obind (json_object_get h message (cstr ''args'')) (\<lambda>args.
      obind (json_incref args h) (\<lambda>h.
      obind (json_object_get h message (cstr ''seqID'')) (\<lambda>seqID.
      obind (json_is JSON_INTEGER h seqID) (\<lambda>is_integer.
      if \<not> is_integer then Inr (w\<lparr>w_json := h\<rparr>)
      else obind (json_object_set args (Some (cstr ''seqID'')) seqID h) (\<lambda>(_, h).
      obind (json_string_value h target) (\<lambda>tg.
      obind (json_string_value h command) (\<lambda>cm.
      obind (dispatch_table_execute cb (the tg) (the cm) args m (w\<lparr>w_json := h\<rparr>)) (\<lambda>w.
      on_json (json_decref message) w))))))))))))))))"

text \<open>
  The loop runs until the in-queue answers null, which it does when it is empty and also when
  a null message was pushed.  \<open>n\<close> bounds its rounds.
\<close>

fun handle_loop :: "nat \<Rightarrow> (jptr, 'u hc_world) callbacks \<Rightarrow> dmem \<Rightarrow> jptr \<Rightarrow> 'u hc_world \<Rightarrow> 'u hc_world outcome" where
  "handle_loop 0 cb m command w = Inl Diverges"
| "handle_loop (Suc n) cb m command w =
     (if command = 0 then Inr w
      else obind (dispatch cb command m w) (\<lambda>w.
        obind (mq_pop MQ_IN (w_queues w)) (\<lambda>(v, q). handle_loop n cb m (msg_ptr v) (w\<lparr>w_queues := q\<rparr>))))"

definition headcrab_handle_commands ::
    "nat \<Rightarrow> (jptr, 'u hc_world) callbacks \<Rightarrow> dmem \<Rightarrow> 'u hc_world \<Rightarrow> 'u hc_world outcome" where
  "headcrab_handle_commands n cb m w =
     obind (mq_pop MQ_IN (w_queues w)) (\<lambda>(v, q). handle_loop n cb m (msg_ptr v) (w\<lparr>w_queues := q\<rparr>))"

text \<open>The sequence number is an \<open>int\<close>, stored as a 64-bit integer.\<close>

definition headcrab_post_message :: "32 word \<Rightarrow> jptr \<Rightarrow> 'u hc_world \<Rightarrow> 'u hc_world outcome" where
  "headcrab_post_message seqID message w =
     obind (json_integer (word_of_int (sint seqID)) (w_json w)) (\<lambda>(n, h).
     obind (json_object_set_new message (Some (cstr ''seqID'')) n h) (\<lambda>(_, h).
     obind (mq_push MQ_OUT (ptr_msg message) (w_queues w)) (\<lambda>q.
     Inr (w\<lparr>w_json := h, w_queues := q, w_broadcasts := Suc (w_broadcasts w)\<rparr>))))"

section \<open>Binding keeps the table\<close>

lemma copy_string_Some [simp]:
  "0 < mem_left m \<Longrightarrow> copy_string (Some bs) m = Inr (bs, m\<lparr>mem_left := mem_left m - 1\<rparr>)"
  by (simp add: copy_string_def)

lemma nodes_seg_mem_left [simp]: "nodes_seg (m\<lparr>mem_left := k\<rparr>) p gs os q = nodes_seg m p gs os q"
proof -
  have h: "handlers_seg (m\<lparr>mem_left := k\<rparr>) p as bs q = handlers_seg m p as bs q" for m p as bs q
    by (induction m p as bs q rule: handlers_seg.induct) auto
  show ?thesis by (induction m p gs os q rule: nodes_seg.induct) (auto simp: h)
qed

lemma table_wf_mem_left [simp]: "table_wf (m\<lparr>mem_left := k\<rparr>) os = table_wf m os"
  by (simp add: table_wf_def table_at_def)

text \<open>Reading the members of a message.\<close>

definition string_at :: "jheap \<Rightarrow> jptr \<Rightarrow> byte list \<Rightarrow> bool" where
  "string_at h p s \<longleftrightarrow> p \<noteq> 0 \<and> (\<exists>c. cells h p = Some c \<and> body c = String s)"

definition integer_at :: "jheap \<Rightarrow> jptr \<Rightarrow> json_int_t \<Rightarrow> bool" where
  "integer_at h p i \<longleftrightarrow> p \<noteq> 0 \<and> (\<exists>c. cells h p = Some c \<and> body c = Integer i)"

lemma string_member_spec: "string_at h p s \<Longrightarrow> string_member h p = Inr (Some s)"
  by (auto simp: string_at_def string_member_def json_is_def get_cell_def json_string_value_def)

lemma string_value_spec: "string_at h p s \<Longrightarrow> json_string_value h p = Inr (Some s)"
  by (auto simp: string_at_def get_cell_def json_string_value_def)

lemma is_integer_spec: "integer_at h p i \<Longrightarrow> json_is JSON_INTEGER h p = Inr True"
  by (auto simp: integer_at_def json_is_def get_cell_def)

lemma is_object_spec: "object_at h p k M \<Longrightarrow> json_is JSON_OBJECT h p = Inr True"
  by (erule object_atE) (simp add: json_is_def)

definition string_of :: "jheap \<Rightarrow> jptr option \<Rightarrow> byte list option" where
  "string_of h v = (case v of None \<Rightarrow> None | Some p \<Rightarrow>
     (case cells h p of Some c \<Rightarrow> (case body c of String s \<Rightarrow> Some s | _ \<Rightarrow> None) | None \<Rightarrow> None))"

definition is_integer :: "jheap \<Rightarrow> jptr option \<Rightarrow> bool" where
  "is_integer h v \<longleftrightarrow> (case v of None \<Rightarrow> False | Some p \<Rightarrow>
     (case cells h p of Some c \<Rightarrow> body_type (body c) = JSON_INTEGER | None \<Rightarrow> False))"

text \<open>The members of an object are live values.\<close>

definition members_live :: "jheap \<Rightarrow> (byte list \<rightharpoonup> jptr) \<Rightarrow> bool" where
  "members_live h M \<longleftrightarrow> (\<forall>k v. M k = Some v \<longrightarrow> v \<noteq> 0 \<and> cells h v \<noteq> None)"

lemma string_member_of:
  assumes "members_live h M"
  shows "string_member h (case M key of None \<Rightarrow> 0 | Some v \<Rightarrow> v) = Inr (string_of h (M key))"
proof (cases "M key")
  case None
  then show ?thesis by (simp add: string_member_def json_is_def string_of_def)
next
  case (Some v)
  with assms obtain c where "v \<noteq> 0" "cells h v = Some c" by (auto simp: members_live_def)
  with Some show ?thesis
    by (cases "body c") (auto simp: string_member_def json_is_def string_of_def get_cell_def json_string_value_def)
qed

lemma integer_member_of:
  assumes "members_live h M"
  shows "json_is JSON_INTEGER h (case M key of None \<Rightarrow> 0 | Some v \<Rightarrow> v) = Inr (is_integer h (M key))"
proof (cases "M key")
  case None
  then show ?thesis by (simp add: json_is_def is_integer_def)
next
  case (Some v)
  with assms obtain c where "v \<noteq> 0" "cells h v = Some c" by (auto simp: members_live_def)
  with Some show ?thesis by (simp add: json_is_def is_integer_def get_cell_def)
qed

text \<open>What a reference more does to the heap.\<close>

definition same_but_count :: "jheap \<Rightarrow> jheap \<Rightarrow> bool" where
  "same_but_count h h' \<longleftrightarrow> (\<forall>q. map_option body (cells h' q) = map_option body (cells h q)) \<and>
     jnext h' = jnext h \<and> jmem h' = jmem h"

lemma same_but_countD:
  assumes "same_but_count h h'"
  shows "object_at h' p k M = object_at h p k M" "string_at h' p s = string_at h p s"
    "integer_at h' p i = integer_at h p i" "members_live h' M = members_live h M"
    "string_of h' v = string_of h v" "is_integer h' v = is_integer h v" "jheap_wf h' = jheap_wf h"
proof -
  have b: "map_option body (cells h' q) = map_option body (cells h q)" for q
    using assms by (simp add: same_but_count_def)
  have l: "cells h' q = None \<longleftrightarrow> cells h q = None" for q using b[of q] by (metis map_option_is_None)
  have e: "(\<exists>c. cells h' q = Some c \<and> P (body c)) \<longleftrightarrow> (\<exists>c. cells h q = Some c \<and> P (body c))" for q P
    using b[of q] by (cases "cells h q"; cases "cells h' q") auto
  show "object_at h' p k M = object_at h p k M"
    using e[of p "\<lambda>b. \<exists>obj N. b = Object obj \<and> ht_rep (hashtable obj) N \<and> M = map_option snd \<circ> N \<and> ht_size (hashtable obj) = k"]
    unfolding object_at_def by blast
  show "string_at h' p s = string_at h p s" using e[of p "\<lambda>b. b = String s"] by (simp add: string_at_def)
  show "integer_at h' p i = integer_at h p i" using e[of p "\<lambda>b. b = Integer i"] by (simp add: integer_at_def)
  show "members_live h' M = members_live h M" unfolding members_live_def l ..
  show "string_of h' v = string_of h v"
    using b[of "the v"] by (cases v; cases "cells h (the v)"; cases "cells h' (the v)") (auto simp: string_of_def)
  show "is_integer h' v = is_integer h v"
    using b[of "the v"] by (cases v; cases "cells h (the v)"; cases "cells h' (the v)") (auto simp: is_integer_def)
  show "jheap_wf h' = jheap_wf h"
    using assms l unfolding jheap_wf_def same_but_count_def by (metis not_Some_eq)
qed

lemma json_incref_spec:
  assumes "cells h p = Some c" "p \<noteq> 0"
  shows "json_incref p h = Inr (h\<lparr>cells := (cells h)(p \<mapsto> c\<lparr>refcount := (if refcount c = -1 then -1 else refcount c + 1)\<rparr>)\<rparr>)"
proof (cases "refcount c = -1")
  case True
  then have e: "c\<lparr>refcount := -1\<rparr> = c" by (cases c) simp
  have "h\<lparr>cells := (cells h)(p \<mapsto> c)\<rparr> = h" using assms(1) by (simp add: fun_upd_idem)
  moreover have "json_incref p h = Inr h" using True assms by (simp add: json_incref_def get_cell_def)
  ultimately show ?thesis by (simp only: True if_True e simp_thms)
next
  case False
  with assms show ?thesis by (simp add: json_incref_def get_cell_def put_refcount_def)
qed

lemma json_incref_same:
  assumes "p = 0 \<or> cells h p \<noteq> None"
  shows "\<exists>h'. json_incref p h = Inr h' \<and> same_but_count h h' \<and> (\<forall>q. q \<noteq> p \<longrightarrow> cells h' q = cells h q)"
proof (cases "p = 0")
  case True
  then show ?thesis by (simp add: json_incref_def same_but_count_def)
next
  case False
  with assms obtain c where "cells h p = Some c" by auto
  from json_incref_spec[OF this False] this show ?thesis by (simp add: same_but_count_def)
qed

section \<open>The two outcomes of a dispatch\<close>

text \<open>A command: the members have the right types.\<close>

definition is_command :: "jheap \<Rightarrow> (byte list \<rightharpoonup> jptr) \<Rightarrow> bool" where
  "is_command h M \<longleftrightarrow> string_of h (M (cstr ''type'')) = Some (cstr ''command'') \<and>
     string_of h (M (cstr ''target'')) \<noteq> None \<and> string_of h (M (cstr ''command'')) \<noteq> None \<and>
     is_integer h (M (cstr ''seqID''))"

lemma dispatch_no_command:
  assumes "object_at (w_json w) p k M" "members_live (w_json w) M" "\<not> is_command (w_json w) M"
  shows "\<exists>h'. dispatch cb p m w = Inr (w\<lparr>w_json := h'\<rparr>) \<and> same_but_count (w_json w) h'"
proof -
  let ?h = "w_json w"
  have get: "json_object_get ?h p key = Inr (case M key of None \<Rightarrow> 0 | Some v \<Rightarrow> v)" for key
    by (rule json_object_get_spec[OF assms(1)])
  let ?a = "case M (cstr ''args'') of None \<Rightarrow> 0 | Some v \<Rightarrow> v"
  have "?a = 0 \<or> cells ?h ?a \<noteq> None" using assms(2) by (auto simp: members_live_def split: option.splits)
  from json_incref_same[OF this] obtain h' where h': "json_incref ?a ?h = Inr h'" "same_but_count ?h h'" by blast
  have get': "json_object_get h' p key = Inr (case M key of None \<Rightarrow> 0 | Some v \<Rightarrow> v)" for key
    by (rule json_object_get_spec) (use assms(1) same_but_countD(1)[OF h'(2)] in simp)
  have int': "json_is JSON_INTEGER h' (case M key of None \<Rightarrow> 0 | Some v \<Rightarrow> v) = Inr (is_integer ?h (M key))" for key
    using integer_member_of[of h' M key] assms(2) same_but_countD(4,6)[OF h'(2)] by simp
  note simps = dispatch_def is_object_spec[OF assms(1)] get string_member_of[OF assms(2)] h'(1) get' int'
  have refl: "same_but_count ?h ?h" "w\<lparr>w_json := ?h\<rparr> = w" by (simp_all add: same_but_count_def)
  consider "string_of ?h (M (cstr ''type'')) \<noteq> Some (cstr ''command'') \<or> string_of ?h (M (cstr ''target'')) = None \<or>
      string_of ?h (M (cstr ''command'')) = None"
    | "string_of ?h (M (cstr ''type'')) = Some (cstr ''command'')" "string_of ?h (M (cstr ''target'')) \<noteq> None"
      "string_of ?h (M (cstr ''command'')) \<noteq> None" "\<not> is_integer ?h (M (cstr ''seqID''))"
    using assms(3) unfolding is_command_def by blast
  then show ?thesis
  proof cases
    case 1
    then have "dispatch cb p m w = Inr w" by (auto simp: simps Let_def simp del: cstr_Cons cstr_Nil)
    with refl show ?thesis by metis
  next
    case 2
    then obtain tg vb where "string_of ?h (M (cstr ''target'')) = Some tg" "string_of ?h (M (cstr ''command'')) = Some vb"
      by auto
    with 2 have "dispatch cb p m w = Inr (w\<lparr>w_json := h'\<rparr>)" by (simp add: simps Let_def del: cstr_Cons cstr_Nil)
    with h'(2) show ?thesis by blast
  qed
qed

lemma dispatch_no_object:
  assumes "p \<noteq> 0" "cells (w_json w) p = Some c" "body_type (body c) \<noteq> JSON_OBJECT"
  shows "dispatch cb p m w = Inr w"
  using assms by (simp add: dispatch_def json_is_def get_cell_def Let_def)

text \<open>The addresses of a command's parts.\<close>

lemma is_commandE:
  assumes "is_command h M" "members_live h M"
  obtains q r s tg vb i where "M (cstr ''target'') = Some q" "M (cstr ''command'') = Some r" "M (cstr ''seqID'') = Some s"
    "string_at h q tg" "string_at h r vb" "integer_at h s i"
    "string_of h (M (cstr ''type'')) = Some (cstr ''command'')"
    "string_of h (M (cstr ''target'')) = Some tg" "string_of h (M (cstr ''command'')) = Some vb"
proof -
  have str: "\<exists>q tg. M key = Some q \<and> string_at h q tg \<and> string_of h (M key) = Some tg"
    if ne: "string_of h (M key) \<noteq> None" for key
  proof -
    from ne obtain q where q: "M key = Some q" by (auto simp: string_of_def split: option.splits)
    with assms(2) obtain c where c: "q \<noteq> 0" "cells h q = Some c" by (auto simp: members_live_def)
    from ne q c obtain tg where "body c = String tg" by (cases "body c") (auto simp: string_of_def)
    with q c show ?thesis by (auto simp: string_at_def string_of_def)
  qed
  have "is_integer h (M (cstr ''seqID''))" using assms(1) by (simp only: is_command_def)
  then obtain s where s: "M (cstr ''seqID'') = Some s" "is_integer h (Some s)"
    by (auto simp: is_integer_def split: option.splits simp del: cstr_Cons)
  with assms(2) obtain c where c: "s \<noteq> 0" "cells h s = Some c" by (auto simp: members_live_def)
  with s(2) obtain i where "integer_at h s i"
    by (cases "body c") (auto simp: is_integer_def integer_at_def)
  with that s(1) str assms(1) show ?thesis unfolding is_command_def by blast
qed

lemma seqID_utf8: "utf8_check_string (cstr ''seqID'') (-1) = Inr True"
  by code_simp

lemma dispatch_command:
  assumes obj: "object_at (w_json w) p k M" and live: "members_live (w_json w) M" and cmd: "is_command (w_json w) M"
    and wf: "jheap_wf (w_json w)" and mem: "2 \<le> jmem (w_json w)"
    and args: "M (cstr ''args'') = Some a" "object_at (w_json w) a ka Ma" "a \<notin> static_ptrs" "ka < 1610612741"
      "Ma (cstr ''seqID'') = None"
  shows "\<exists>h s tg vb. M (cstr ''seqID'') = Some s \<and> string_of (w_json w) (M (cstr ''target'')) = Some tg \<and>
    string_of (w_json w) (M (cstr ''command'')) = Some vb \<and>
    object_at h a (Suc ka) (Ma(cstr ''seqID'' \<mapsto> s)) \<and>
    map_option refcount (cells h a) = map_option (\<lambda>c. if refcount c = -1 then -1 else refcount c + 1) (cells (w_json w) a) \<and>
    dispatch cb p m w =
      obind (dispatch_table_execute cb tg vb a m (w\<lparr>w_json := h\<rparr>)) (on_json (json_decref p))"
proof -
  let ?h = "w_json w"
  from is_commandE[OF cmd live] obtain q r s tg vb i where c:
    "M (cstr ''target'') = Some q" "M (cstr ''command'') = Some r" "M (cstr ''seqID'') = Some s"
    "string_at ?h q tg" "string_at ?h r vb" "integer_at ?h s i"
    "string_of ?h (M (cstr ''type'')) = Some (cstr ''command'')"
    "string_of ?h (M (cstr ''target'')) = Some tg" "string_of ?h (M (cstr ''command'')) = Some vb" by blast
  from args(2) obtain ca oa where ca: "a \<noteq> 0" "cells ?h a = Some ca" "body ca = Object oa" by (rule object_atE)
  from json_incref_same[of a ?h] ca(2) obtain h1 where
    h1: "json_incref a ?h = Inr h1" "same_but_count ?h h1" "\<And>q. q \<noteq> a \<Longrightarrow> cells h1 q = cells ?h q" by auto
  note tr = same_but_countD[OF h1(2)]
  have h1a: "cells h1 a = Some (ca\<lparr>refcount := (if refcount ca = -1 then -1 else refcount ca + 1)\<rparr>)"
    using json_incref_spec[OF ca(2,1)] h1(1) by auto
  have ne: "s \<noteq> a" "q \<noteq> a" "r \<noteq> a" "s \<noteq> 0"
    using c(4-6) ca(2,3) by (auto simp: integer_at_def string_at_def)
  have "cells h1 s \<noteq> None" using c(6) h1(3) ne(1) by (auto simp: integer_at_def)
  with json_incref_same[of s h1] obtain h2 where
    h2: "json_incref s h1 = Inr h2" "same_but_count h1 h2" "\<And>q. q \<noteq> s \<Longrightarrow> cells h2 q = cells h1 q" by blast
  note tr2 = same_but_countD[OF h2(2)]
  have pre: "object_at h2 a ka Ma" "jheap_wf h2" "2 \<le> jmem h2"
    using args(2) wf mem tr tr2 h1(2) h2(2) by (simp_all add: same_but_count_def)
  from json_object_set_new_spec[OF pre(1) ne(4) _ args(4) pre(3) pre(2) args(3), of "cstr ''seqID''" "{}"] ne(1) args(5)
  obtain h3 where h3: "json_object_set_new_nocheck a (Some (cstr ''seqID'')) s h2 = Inr (0, h3)"
    "object_at h3 a (Suc ka) (Ma(cstr ''seqID'' \<mapsto> s))" "changes_and_frees a {} h2 h3"
    by (auto simp del: cstr_Cons)
  have set: "json_object_set a (Some (cstr ''seqID'')) s h1 = Inr (0, h3)"
    using h2(1) h3(1) seqID_utf8 by (simp add: json_object_set_def json_object_set_new_def del: cstr_Cons)
  have str3: "string_at h3 x y" if "string_at ?h x y" "x \<noteq> a" for x y
  proof -
    have "string_at h2 x y" using that(1) tr(2) tr2(2) by simp
    then show ?thesis using h3(3) that(2) by (auto simp: string_at_def changes_and_frees_def)
  qed
  have get: "json_object_get ?h p key = Inr (case M key of None \<Rightarrow> 0 | Some v \<Rightarrow> v)" for key
    by (rule json_object_get_spec[OF obj])
  have get1: "json_object_get h1 p key = Inr (case M key of None \<Rightarrow> 0 | Some v \<Rightarrow> v)" for key
    by (rule json_object_get_spec) (use obj tr(1) in simp)
  have int1: "json_is JSON_INTEGER h1 s = Inr True" by (rule is_integer_spec) (use c(6) tr(3) in simp)
  have "dispatch cb p m w =
      obind (dispatch_table_execute cb tg vb a m (w\<lparr>w_json := h3\<rparr>)) (on_json (json_decref p))"
    using is_object_spec[OF obj] get string_member_of[OF live] c(1-3,7-9) h1(1) get1 int1 set args(1)
      string_value_spec[OF str3[OF c(4) ne(2)]] string_value_spec[OF str3[OF c(5) ne(3)]]
      string_member_spec[OF c(4)] string_member_spec[OF c(5)]
    by (simp add: dispatch_def Let_def string_member_of[OF live] del: cstr_Cons cstr_Nil)
  moreover have "map_option refcount (cells h3 a) = map_option (\<lambda>c. if refcount c = -1 then -1 else refcount c + 1) (cells ?h a)"
    using h3(3) h2(3) ne(1) h1a ca(2) by (simp add: changes_and_frees_def)
  ultimately show ?thesis using c(3,8,9) h3(2) by blast
qed

section \<open>Handling the in-queue\<close>

text \<open>Callbacks may post messages, but the in-queue belongs to the server.\<close>

definition keeps_in_queue :: "('w \<Rightarrow> 'u hc_world outcome) \<Rightarrow> 'w \<Rightarrow> 'u hc_world \<Rightarrow> bool" where
  "keeps_in_queue f x w \<longleftrightarrow> (\<forall>w'. f x = Inr w' \<longrightarrow> mqueues_inv (w_queues w) \<longrightarrow>
     mqueues_inv (w_queues w') \<and> in_msgs (w_queues w') = in_msgs (w_queues w))"

definition callbacks_keep :: "('a, 'u hc_world) callbacks \<Rightarrow> bool" where
  "callbacks_keep cb \<longleftrightarrow> (\<forall>f a w. keeps_in_queue (run_pre cb f a) w w) \<and>
     (\<forall>f obj a w. keeps_in_queue (run_op cb f obj a) w w) \<and> (\<forall>f a w. keeps_in_queue (run_post cb f a) w w)"

definition same_in_queue :: "'u hc_world \<Rightarrow> 'u hc_world \<Rightarrow> bool" where
  "same_in_queue w w' \<longleftrightarrow> mqueues_inv (w_queues w') \<and> in_msgs (w_queues w') = in_msgs (w_queues w)"

lemma same_in_queue_trans: "same_in_queue w w' \<Longrightarrow> same_in_queue w' w'' \<Longrightarrow> same_in_queue w w''"
  by (simp add: same_in_queue_def)

lemma callbacks_keepD:
  assumes "callbacks_keep cb" "mqueues_inv (w_queues w)"
  shows "call_hook (run_pre cb) f a w = Inr w' \<Longrightarrow> same_in_queue w w'"
    "call_hook (run_post cb) f a w = Inr w' \<Longrightarrow> same_in_queue w w'"
    "run_op cb g obj x w = Inr w' \<Longrightarrow> same_in_queue w w'"
  using assms unfolding callbacks_keep_def keeps_in_queue_def same_in_queue_def call_hook_def
  by (auto split: option.splits)

lemma execute_loop_keeps:
  assumes keep: "callbacks_keep cb"
  shows "execute_loop n cb object verb args handler m w = Inr w' \<Longrightarrow> mqueues_inv (w_queues w) \<Longrightarrow> same_in_queue w w'"
proof (induction n arbitrary: handler w)
  case (Suc n)
  show ?case
  proof (cases "handler = NULL")
    case True
    with Suc.prems show ?thesis by (simp add: same_in_queue_def)
  next
    case False
    with Suc.prems(1) obtain h where h: "read_handler m handler = Inr h" by (auto simp: obind_eq_Inr)
    show ?thesis
    proof (cases "h_name h = verb")
      case False
      with Suc h \<open>handler \<noteq> NULL\<close> show ?thesis by simp
    next
      case True
      with Suc.prems(1) h \<open>handler \<noteq> NULL\<close> obtain w1 f w2 w3 where
        r: "call_hook (run_pre cb) (h_pre h) (h_preArgs h) w = Inr w1" "run_op cb f object args w1 = Inr w2"
          "call_hook (run_post cb) (h_post h) (h_postArgs h) w2 = Inr w3"
          "execute_loop n cb object verb args (h_next h) m w3 = Inr w'"
        by (auto simp: obind_eq_Inr split: option.splits)
      have 1: "same_in_queue w w1" by (rule callbacks_keepD(1)[OF keep Suc.prems(2) r(1)])
      then have 2: "same_in_queue w1 w2" by (intro callbacks_keepD(3)[OF keep _ r(2)]) (simp add: same_in_queue_def)
      then have 3: "same_in_queue w2 w3" by (intro callbacks_keepD(2)[OF keep _ r(3)]) (simp add: same_in_queue_def)
      then have "same_in_queue w3 w'" by (intro Suc.IH[OF r(4)]) (simp add: same_in_queue_def)
      with 1 2 3 show ?thesis using same_in_queue_trans by blast
    qed
  qed
qed simp

lemma dispatch_table_execute_keeps:
  assumes "callbacks_keep cb" "dispatch_table_execute cb target verb args m w = Inr w'" "mqueues_inv (w_queues w)"
  shows "same_in_queue w w'"
  using assms(2,3) execute_loop_keeps[OF assms(1)]
  by (auto simp: dispatch_table_execute_def obind_eq_Inr same_in_queue_def split: if_splits)

lemma same_in_queue_json: "mqueues_inv (w_queues w) \<Longrightarrow> same_in_queue w (w\<lparr>w_json := h\<rparr>)"
  by (simp add: same_in_queue_def)

lemma dispatch_keeps:
  assumes keep: "callbacks_keep cb" and inv: "mqueues_inv (w_queues w)" and run: "dispatch cb p m w = Inr w'"
  shows "same_in_queue w w'"
proof -
  have "w' = w \<or> (\<exists>h. w' = w\<lparr>w_json := h\<rparr>) \<or>
    (\<exists>h tg vb args w1 h'. dispatch_table_execute cb tg vb args m (w\<lparr>w_json := h\<rparr>) = Inr w1 \<and> w' = w1\<lparr>w_json := h'\<rparr>)"
    using run unfolding dispatch_def Let_def
    by (auto simp: obind_eq_Inr on_json_def split: if_splits prod.splits) blast
  then show ?thesis
  proof (elim disjE exE conjE)
    fix h tg vb args w1 h'
    assume r: "dispatch_table_execute cb tg vb args m (w\<lparr>w_json := h\<rparr>) = Inr w1" "w' = w1\<lparr>w_json := h'\<rparr>"
    from dispatch_table_execute_keeps[OF keep r(1)] inv show ?thesis by (simp add: r(2) same_in_queue_def)
  qed (use inv in \<open>simp_all add: same_in_queue_def\<close>)
qed

text \<open>The reference: the messages are taken and dispatched one after the other, and the null that
  ends the round is taken too.\<close>

fun handle_spec :: "(jptr, 'u hc_world) callbacks \<Rightarrow> dmem \<Rightarrow> jptr list \<Rightarrow> 'u hc_world \<Rightarrow> 'u hc_world outcome" where
  "handle_spec cb m [] w = obind (mq_pop MQ_IN (w_queues w)) (\<lambda>(v, q). Inr (w\<lparr>w_queues := q\<rparr>))"
| "handle_spec cb m (p # ps) w =
     obind (mq_pop MQ_IN (w_queues w)) (\<lambda>(v, q). obind (dispatch cb p m (w\<lparr>w_queues := q\<rparr>)) (handle_spec cb m ps))"

lemma handle_commands_spec:
  assumes keep: "callbacks_keep cb"
  shows "mqueues_inv (w_queues w) \<Longrightarrow> in_msgs (w_queues w) = map Some ps @ rest \<Longrightarrow> 0 \<notin> set ps \<Longrightarrow>
    rest = [] \<or> hd rest = None \<Longrightarrow> length ps < n \<Longrightarrow>
    headcrab_handle_commands n cb m w = handle_spec cb m ps w \<and>
    (\<forall>w'. handle_spec cb m ps w = Inr w' \<longrightarrow> mqueues_inv (w_queues w') \<and> in_msgs (w_queues w') = tl rest)"
proof (induction ps arbitrary: w n)
  case Nil
  from mq_pop_in[OF Nil.prems(1)] Nil.prems(2,4) obtain q where
    q: "mq_pop MQ_IN (w_queues w) = Inr (None, q)" "mqueues_inv q" "in_msgs q = tl rest"
    by (cases rest) auto
  obtain k where "n = Suc k" using Nil.prems(5) by (cases n) auto
  with q show ?case by (simp add: headcrab_handle_commands_def msg_ptr_def)
next
  case (Cons p ps)
  from mq_pop_in[OF Cons.prems(1)] Cons.prems(2) obtain q where
    q: "mq_pop MQ_IN (w_queues w) = Inr (Some p, q)" "mqueues_inv q" "in_msgs q = map Some ps @ rest" by auto
  obtain k where n: "n = Suc k" "length ps < k" using Cons.prems(5) by (cases n) auto
  have p: "p \<noteq> 0" "0 \<notin> set ps" using Cons.prems(3) by auto
  let ?w = "w\<lparr>w_queues := q\<rparr>"
  have eq: "headcrab_handle_commands n cb m w = obind (dispatch cb p m ?w) (headcrab_handle_commands k cb m)"
    unfolding headcrab_handle_commands_def using q(1) p(1) n(1) by (simp add: msg_ptr_def)
  show ?case
  proof (cases "dispatch cb p m ?w")
    case (Inl e)
    with eq q(1) show ?thesis by simp
  next
    case (Inr w1)
    from dispatch_keeps[OF keep _ Inr] q(2,3) have
      "mqueues_inv (w_queues w1)" "in_msgs (w_queues w1) = map Some ps @ rest" by (auto simp: same_in_queue_def)
    from Cons.IH[OF this p(2) Cons.prems(4) n(2)] show ?thesis using eq q(1) Inr by simp
  qed
qed

section \<open>Posting\<close>

lemma object_at_cong:
  assumes "cells h' p = cells h p"
  shows "object_at h' p k M = object_at h p k M"
  using assms by (simp add: object_at_def)

lemma headcrab_post_message_spec:
  assumes obj: "object_at (w_json w) p k M" "M (cstr ''seqID'') = None" "k < 1610612741" "p \<notin> static_ptrs"
    and wf: "jheap_wf (w_json w)" and mem: "3 \<le> jmem (w_json w)" and inv: "mqueues_inv (w_queues w)"
  shows "\<exists>w' n. headcrab_post_message seqID p w = Inr w' \<and>
    object_at (w_json w') p (Suc k) (M(cstr ''seqID'' \<mapsto> n)) \<and> integer_at (w_json w') n (word_of_int (sint seqID)) \<and>
    mqueues_inv (w_queues w') \<and> in_msgs (w_queues w') = in_msgs (w_queues w) \<and>
    out_msgs (w_queues w') = (if length (out_msgs (w_queues w)) < MQ_LEN then out_msgs (w_queues w) @ [Some p]
      else out_msgs (w_queues w)) \<and> w_broadcasts w' = Suc (w_broadcasts w)"
proof -
  let ?h = "w_json w" let ?n = "jnext ?h" let ?i = "word_of_int (sint seqID) :: json_int_t"
  let ?h1 = "?h\<lparr>jmem := jmem ?h - 1, cells := (cells ?h)(?n \<mapsto> \<lparr>refcount = 1, body = Integer ?i\<rparr>), jnext := Suc ?n\<rparr>"
  have int: "json_integer ?i ?h = Inr (?n, ?h1)"
    using mem by (simp add: json_integer_def json_malloc_def json_init_def)
  from obj(1) obtain c where c: "p \<noteq> 0" "cells ?h p = Some c" by (rule object_atE)
  with wf have p: "p < ?n" by (auto simp: jheap_wf_def)
  have pre: "object_at ?h1 p k M" "jheap_wf ?h1" "2 \<le> jmem ?h1" "?n \<noteq> 0" "p \<noteq> ?n"
  proof -
    show "object_at ?h1 p k M" using obj(1) p by (subst object_at_cong[of _ _ ?h]) simp_all
    show "jheap_wf ?h1" using wf p by (auto simp: jheap_wf_def split: if_splits intro: less_SucI)
  qed (use mem p in auto)
  from json_object_set_new_spec[OF pre(1,4,5) obj(3) pre(3,2) obj(4), of "cstr ''seqID''" "{}"] obj(2)
  obtain h2 where h2: "json_object_set_new_nocheck p (Some (cstr ''seqID'')) ?n ?h1 = Inr (0, h2)"
    "object_at h2 p (Suc k) (M(cstr ''seqID'' \<mapsto> ?n))" "changes_and_frees p {} ?h1 h2" by (auto simp del: cstr_Cons)
  have set: "json_object_set_new p (Some (cstr ''seqID'')) ?n ?h1 = Inr (0, h2)"
    using h2(1) seqID_utf8 by (simp add: json_object_set_new_def del: cstr_Cons)
  from mq_push_out[OF inv, of "Some p"] obtain q where q: "mq_push MQ_OUT (Some p) (w_queues w) = Inr q"
    "mqueues_inv q" "in_msgs q = in_msgs (w_queues w)"
    "out_msgs q = (if length (out_msgs (w_queues w)) < MQ_LEN then out_msgs (w_queues w) @ [Some p]
      else out_msgs (w_queues w))" by blast
  have "ptr_msg p = Some p" using c(1) by (simp add: ptr_msg_def)
  with int set q(1) have run: "headcrab_post_message seqID p w =
      Inr (w\<lparr>w_json := h2, w_queues := q, w_broadcasts := Suc (w_broadcasts w)\<rparr>)"
    by (simp add: headcrab_post_message_def del: cstr_Cons)
  have "cells h2 ?n = cells ?h1 ?n" using h2(3) p by (auto simp: changes_and_frees_def)
  then have n: "integer_at h2 ?n ?i" using pre(4) by (simp add: integer_at_def)
  show ?thesis
    by (rule exI[of _ "w\<lparr>w_json := h2, w_queues := q, w_broadcasts := Suc (w_broadcasts w)\<rparr>"], rule exI[of _ ?n])
      (use run h2(2) n q(2-4) in \<open>simp del: cstr_Cons\<close>)
qed

section \<open>Objects to try the properties on\<close>

lemma table_for:
  "distinct (map fst kvs) \<Longrightarrow> length kvs < 1000 \<Longrightarrow>
     \<exists>ht N. ht_rep ht N \<and> map_option snd \<circ> N = (map_of kvs :: byte list \<rightharpoonup> jptr) \<and> ht_size ht = length kvs"
proof (induction kvs)
  case Nil
  have "try_malloc counting_runtime 0 = (True, 0)" by (simp add: counting_runtime_def)
  from hashtable_init_spec[OF this] show ?case by force
next
  case (Cons kv kvs)
  obtain k v where kv: "kv = (k, v)" by (cases kv)
  have "distinct (map fst kvs)" "length kvs < 1000" using Cons.prems by auto
  from Cons.IH[OF this] obtain ht N where
    N: "ht_rep ht N" "map_option snd \<circ> N = map_of kvs" "ht_size ht = length kvs" by blast
  from Cons.prems(1) kv have "map_of kvs k = None" by (simp add: map_of_eq_None_iff)
  with N(2) have no: "N k = None" by (metis comp_apply map_option_is_None)
  have pre: "ht_size ht < 1610612741" "fst (try_malloc counting_runtime 0)"
    "fst (try_malloc counting_runtime (snd (try_malloc counting_runtime 0)))"
    using N(3) Cons.prems(2) by (simp_all add: counting_runtime_def)
  from hashtable_set_spec[OF N(1) pre, of k 0 v] no obtain ht' where
    h: "ht_rep ht' (N(k \<mapsto> (0, v)))" "ht_size ht' = Suc (ht_size ht)" by auto
  have "map_option snd \<circ> (N(k \<mapsto> (0, v))) = map_of (kv # kvs)" using N(2) kv by (auto simp: fun_eq_iff)
  with h N(3) show ?case by (metis length_Cons)
qed

text \<open>A heap with a command message at 4: type, target, command, seqID and the empty arguments.\<close>

definition message_members :: "(byte list \<times> jptr) list" where
  "message_members = [(cstr ''type'', 5), (cstr ''target'', 6), (cstr ''command'', 7), (cstr ''seqID'', 8), (cstr ''args'', 9)]"

definition message_heap :: "jptr hashtable_t \<Rightarrow> jptr hashtable_t \<Rightarrow> byte list \<Rightarrow> jheap" where
  "message_heap ht at ty = \<lparr>cells = (cells (jheap_init 0))
     (4 \<mapsto> \<lparr>refcount = 1, body = Object \<lparr>hashtable = ht, serial = 5, o_visited = 0\<rparr>\<rparr>,
      5 \<mapsto> \<lparr>refcount = 1, body = String ty\<rparr>, 6 \<mapsto> \<lparr>refcount = 1, body = String (cstr ''a'')\<rparr>,
      7 \<mapsto> \<lparr>refcount = 1, body = String (cstr ''run'')\<rparr>, 8 \<mapsto> \<lparr>refcount = 1, body = Integer 3\<rparr>,
      9 \<mapsto> \<lparr>refcount = 1, body = Object \<lparr>hashtable = at, serial = 0, o_visited = 0\<rparr>\<rparr>), jnext = 10, jmem = 9\<rparr>"

lemma message_heap_exists:
  "\<exists>ht at. \<forall>ty. object_at (message_heap ht at ty) 4 5 (map_of message_members) \<and>
     object_at (message_heap ht at ty) 9 0 Map.empty \<and> jheap_wf (message_heap ht at ty) \<and>
     members_live (message_heap ht at ty) (map_of message_members) \<and>
     (ty = cstr ''command'' \<longrightarrow> is_command (message_heap ht at ty) (map_of message_members)) \<and>
     (ty \<noteq> cstr ''command'' \<longrightarrow> \<not> is_command (message_heap ht at ty) (map_of message_members))"
proof -
  from table_for[of message_members] obtain ht N where
    ht: "ht_rep ht N" "map_option snd \<circ> N = map_of message_members" "ht_size ht = 5"
    by (auto simp: message_members_def)
  from table_for[of "[]"] obtain at :: "jptr hashtable_t" and L where at: "ht_rep at L" "map_option snd \<circ> L = Map.empty" "ht_size at = 0"
    by auto
  have "object_at (message_heap ht at ty) 4 5 (map_of message_members)" for ty
    by (rule object_atI[where N = N and obj = "\<lparr>hashtable = ht, serial = 5, o_visited = 0\<rparr>" and c = "\<lparr>refcount = 1, body = Object \<lparr>hashtable = ht, serial = 5, o_visited = 0\<rparr>\<rparr>"]) (use ht in \<open>simp_all add: message_heap_def\<close>)
  moreover have "object_at (message_heap ht at ty) 9 0 Map.empty" for ty
    by (rule object_atI[where N = L and obj = "\<lparr>hashtable = at, serial = 0, o_visited = 0\<rparr>" and c = "\<lparr>refcount = 1, body = Object \<lparr>hashtable = at, serial = 0, o_visited = 0\<rparr>\<rparr>"]) (use at in \<open>simp_all add: message_heap_def\<close>)
  moreover have "jheap_wf (message_heap ht at ty)" for ty
    by (auto simp: jheap_wf_def message_heap_def jheap_init_def split: if_splits)
  moreover have "members_live (message_heap ht at ty) (map_of message_members)" for ty
    by (auto simp: members_live_def message_heap_def message_members_def split: if_splits)
  moreover have "is_command (message_heap ht at ty) (map_of message_members) \<longleftrightarrow> ty = cstr ''command''" for ty
    by (simp add: is_command_def string_of_def is_integer_def message_heap_def message_members_def)
  ultimately show ?thesis by blast
qed

section \<open>Properties\<close>

text \<open>C23: dispatching a well-formed command sets its sequence number in the arguments and runs
  exactly the handlers that are bound to the target and the verb, in binding order, on the bound
  object; then the message is released.  The arguments got one reference more, which nothing
  ever gives back: they leak with every command.\<close>

theorem headcrab_dispatch_runs_handlers:
  assumes tab: "table_wf m os"
    and obj: "object_at (w_json w) p k M" and live: "members_live (w_json w) M" and cmd: "is_command (w_json w) M"
    and wf: "jheap_wf (w_json w)" and mem: "2 \<le> jmem (w_json w)"
    and args: "M (cstr ''args'') = Some a" "object_at (w_json w) a ka Ma" "a \<notin> static_ptrs" "ka < 1610612741"
      "Ma (cstr ''seqID'') = None"
  shows "\<exists>h s tg vb. M (cstr ''seqID'') = Some s \<and> string_of (w_json w) (M (cstr ''target'')) = Some tg \<and>
    string_of (w_json w) (M (cstr ''command'')) = Some vb \<and>
    object_at h a (Suc ka) (Ma(cstr ''seqID'' \<mapsto> s)) \<and>
    map_option refcount (cells h a) = map_option (\<lambda>c. if refcount c = -1 then -1 else refcount c + 1) (cells (w_json w) a) \<and>
    dispatch cb p m w =
      obind (case find_entry tg os of None \<Rightarrow> Inr (w\<lparr>w_json := h\<rparr>)
        | Some obj \<Rightarrow> run_bindings cb (o_object obj) vb a (o_bindings obj) (w\<lparr>w_json := h\<rparr>))
      (on_json (json_decref p))"
  using dispatch_command[OF obj live cmd wf mem args, of cb m] unfolding dtab.exec_law[OF tab] .

definition demo_world :: "jheap \<Rightarrow> nat hc_world" where
  "demo_world h = \<lparr>w_json = h, w_queues = mqueues_init, w_broadcasts = 0, w_app = 0\<rparr>"

definition demo_callbacks :: "(jptr, nat hc_world) callbacks" where
  "demo_callbacks = \<lparr>run_pre = (\<lambda>f a w. Inr w), run_op = (\<lambda>f obj a w. Inr (w\<lparr>w_app := w_app w + obj\<rparr>)),
     run_post = (\<lambda>f a w. Inr w)\<rparr>"

theorem headcrab_dispatch_runs_handlers_witness:
  "\<exists>ht at h s. dispatch demo_callbacks 4 demo_full (demo_world (message_heap ht at (cstr ''command''))) =
     on_json (json_decref 4) ((demo_world h)\<lparr>w_app := 6\<rparr>) \<and> object_at h 9 1 [cstr ''seqID'' \<mapsto> s]"
proof -
  from message_heap_exists obtain ht at where
    m: "object_at (message_heap ht at (cstr ''command'')) 4 5 (map_of message_members)"
      "object_at (message_heap ht at (cstr ''command'')) 9 0 Map.empty" "jheap_wf (message_heap ht at (cstr ''command''))"
      "members_live (message_heap ht at (cstr ''command'')) (map_of message_members)"
      "is_command (message_heap ht at (cstr ''command'')) (map_of message_members)" by blast
  let ?h = "message_heap ht at (cstr ''command'')"
  have "object_at (w_json (demo_world ?h)) 4 5 (map_of message_members)"
      "members_live (w_json (demo_world ?h)) (map_of message_members)"
      "is_command (w_json (demo_world ?h)) (map_of message_members)"
      "jheap_wf (w_json (demo_world ?h))" "2 \<le> jmem (w_json (demo_world ?h))"
      "map_of message_members (cstr ''args'') = Some 9" "object_at (w_json (demo_world ?h)) 9 0 Map.empty"
      "9 \<notin> static_ptrs" "0 < (1610612741 :: nat)" "Map.empty (cstr ''seqID'') = None"
    using m by (simp_all add: demo_world_def message_members_def static_ptrs_def, simp add: message_heap_def)
  from headcrab_dispatch_runs_handlers[OF demo_full_wf this, of demo_callbacks]
  obtain h s tg vb where r: "string_of ?h (map_of message_members (cstr ''target'')) = Some tg"
    "string_of ?h (map_of message_members (cstr ''command'')) = Some vb"
    "object_at h 9 1 [cstr ''seqID'' \<mapsto> s]"
    "dispatch demo_callbacks 4 demo_full (demo_world ?h) =
      obind (case find_entry tg [\<lparr>o_name = [], o_object = 0, o_bindings = []\<rparr>,
         \<lparr>o_name = cstr ''a'', o_object = 3, o_bindings = [demo_binding, demo_binding]\<rparr>] of
          None \<Rightarrow> Inr ((demo_world ?h)\<lparr>w_json := h\<rparr>)
        | Some obj \<Rightarrow> run_bindings demo_callbacks (o_object obj) vb 9 (o_bindings obj) ((demo_world ?h)\<lparr>w_json := h\<rparr>))
      (on_json (json_decref 4))" by (auto simp del: cstr_Cons simp: demo_world_def)
  have "tg = cstr ''a''" "vb = cstr ''run''"
    using r(1,2) by (simp_all add: string_of_def message_heap_def message_members_def)
  with r(4) have "dispatch demo_callbacks 4 demo_full (demo_world ?h) =
      on_json (json_decref 4) ((demo_world h)\<lparr>w_app := 6\<rparr>)"
    by (simp add: demo_binding_def demo_callbacks_def call_hook_def demo_world_def)
  with r(3) show ?thesis by blast
qed




lemma demo_callbacks_keep: "callbacks_keep demo_callbacks"
  by (simp add: callbacks_keep_def keeps_in_queue_def demo_callbacks_def)


lemma headcrab_bind_object_table:
  assumes "table_wf m os" and "4 \<le> mem_left m"
  shows "\<exists>m'. headcrab_bind_object t (Some name) (Some verb) pre preArgs op post postArgs m = Inr m' \<and>
      table_wf m' (bind_entry t name \<lparr>b_verb = verb, b_pre = pre, b_preArgs = preArgs, b_op = op,
        b_post = post, b_postArgs = postArgs\<rparr> os) \<and> mem_left m \<le> mem_left m' + 4"
proof -
  let ?m = "m\<lparr>mem_left := mem_left m - 2\<rparr>"
  let ?b = "\<lparr>b_verb = verb, b_pre = pre, b_preArgs = preArgs, b_op = op, b_post = post, b_postArgs = postArgs\<rparr>"
  have "headcrab_bind_object t (Some name) (Some verb) pre preArgs op post postArgs m = dispatch_table_add t name ?b ?m"
    using assms(2) by (simp add: headcrab_bind_object_def numeral_2_eq_2)
  moreover have "table_wf ?m os" "2 \<le> mem_left ?m" using assms by simp_all
  from dtab.bind_law[OF this, of t name ?b] obtain m' where
    "dispatch_table_add t name ?b ?m = Inr m'" "table_wf m' (bind_entry t name ?b os)" "mem_left ?m \<le> mem_left m' + 2"
    by blast
  ultimately show ?thesis by auto
qed

text \<open>C26: \<open>headcrab_bind_object\<close> appends the binding to its object, or a new object, of a
  well-formed table while memory lasts; a null verb is ignored; a null name, or no memory for
  the copy of the name, is a write through null, as neither is checked.\<close>

theorem headcrab_bind_object_correct:
  assumes "table_wf m os" and "4 \<le> mem_left m"
  shows "(\<exists>m'. headcrab_bind_object t (Some name) (Some verb) pre preArgs op post postArgs m = Inr m' \<and>
      table_wf m' (bind_entry t name \<lparr>b_verb = verb, b_pre = pre, b_preArgs = preArgs, b_op = op,
        b_post = post, b_postArgs = postArgs\<rparr> os) \<and> mem_left m \<le> mem_left m' + 4) \<and>
    headcrab_bind_object t n None pre preArgs op post postArgs m = Inr m \<and>
    headcrab_bind_object t None (Some verb) pre preArgs op post postArgs m = Inl Null_Deref \<and>
    headcrab_bind_object t (Some name) (Some verb) pre preArgs op post postArgs (m\<lparr>mem_left := 0\<rparr>) = Inl Null_Deref"
  using headcrab_bind_object_table[OF assms] by (simp add: headcrab_bind_object_def copy_string_def)

theorem headcrab_bind_object_correct_witness:
  "\<exists>m'. headcrab_bind_object 3 (Some (cstr ''flock'')) (Some (cstr ''pause'')) (Some 1) 0 None None 0 demo_mem = Inr m' \<and>
     table_wf m' [\<lparr>o_name = [], o_object = 0, o_bindings = []\<rparr>, \<lparr>o_name = cstr ''flock'', o_object = 3,
       o_bindings = [\<lparr>b_verb = cstr ''pause'', b_pre = Some 1, b_preArgs = 0, b_op = None, b_post = None, b_postArgs = 0\<rparr>]\<rparr>]"
proof -
  have "4 \<le> mem_left demo_mem" by (simp add: demo_mem_def)
  from headcrab_bind_object_correct[OF demo_mem_wf this, of 3 "cstr ''flock''" "cstr ''pause''" "Some 1" 0 None None 0]
  show ?thesis by auto
qed

text \<open>C27: \<open>headcrab_post_message\<close> stores the sequence number, sign-extended, in the message, pushes
  the message on the out-queue, where it comes last, and notifies the clients; when the queue
  is full the message is dropped without a sign to the caller.\<close>

theorem headcrab_post_message_correct:
  assumes "object_at (w_json w) p k M" and "M (cstr ''seqID'') = None" and "k < 1610612741" and "p \<notin> static_ptrs"
    and "jheap_wf (w_json w)" and "3 \<le> jmem (w_json w)" and "mqueues_inv (w_queues w)"
  shows "\<exists>w' n. headcrab_post_message seqID p w = Inr w' \<and>
    object_at (w_json w') p (Suc k) (M(cstr ''seqID'' \<mapsto> n)) \<and> integer_at (w_json w') n (word_of_int (sint seqID)) \<and>
    mqueues_inv (w_queues w') \<and> in_msgs (w_queues w') = in_msgs (w_queues w) \<and>
    out_msgs (w_queues w') = (if length (out_msgs (w_queues w)) < MQ_LEN then out_msgs (w_queues w) @ [Some p]
      else out_msgs (w_queues w)) \<and> w_broadcasts w' = Suc (w_broadcasts w)"
  by (rule headcrab_post_message_spec[OF assms])

theorem headcrab_post_message_correct_witness:
  "\<exists>ht at w' n. headcrab_post_message (-1) 9 (demo_world (message_heap ht at (cstr ''query''))) = Inr w' \<and>
     out_msgs (w_queues w') = [Some 9] \<and> integer_at (w_json w') n (-1) \<and> object_at (w_json w') 9 1 [cstr ''seqID'' \<mapsto> n]"
proof -
  from message_heap_exists obtain ht at where
    m: "object_at (message_heap ht at (cstr ''query'')) 9 0 Map.empty" "jheap_wf (message_heap ht at (cstr ''query''))" by blast
  let ?w = "demo_world (message_heap ht at (cstr ''query''))"
  have "object_at (w_json ?w) 9 0 Map.empty" "Map.empty (cstr ''seqID'') = None" "0 < (1610612741::nat)"
    "9 \<notin> static_ptrs" "jheap_wf (w_json ?w)" "3 \<le> jmem (w_json ?w)" "mqueues_inv (w_queues ?w)"
    using m by (simp_all add: demo_world_def static_ptrs_def mqueues_inv_init, simp add: message_heap_def)
  from headcrab_post_message_correct[OF this, of "-1"] show ?thesis
    by (auto simp: demo_world_def MQ_LEN_def)
qed

end
