(* ===== verification/Json_Error.thy ===== *)
theory Json_Error
  imports Strbuffer
begin

text \<open>
  \<open>src/lib/jansson-2.4/src/error.c\<close>: the error record that the parser, the packer and the
  unpacker fill in, and the few conversions of \<open>printf\<close> that their messages use.  The
  \<open>char\<close> arrays of the record are the C strings they hold; a message is cut to the size of
  its array.
\<close>

section \<open>Formatting\<close>

fun digit_char :: "nat \<Rightarrow> byte" where
  "digit_char d = (if d < 10 then of_nat (48 + d) else of_nat (87 + d))"

definition upper_char :: "byte \<Rightarrow> byte" where
  "upper_char b = (if 97 \<le> b \<and> b \<le> 122 then b - 32 else b)"

text \<open>The digits of a number in a base; zero has one digit.\<close>

function digits :: "nat \<Rightarrow> nat \<Rightarrow> byte list" where
  "digits base n = (if base \<le> 1 \<or> n < base then [digit_char n] else digits base (n div base) @ [digit_char (n mod base)])"
  by pat_completeness auto
termination by (relation "measure snd") auto

declare digits.simps [simp del]

definition pad_zeros :: "nat \<Rightarrow> byte list \<Rightarrow> byte list" where
  "pad_zeros k ds = replicate (k - length ds) 48 @ ds"

text \<open>\<open>%x\<close> and \<open>%04X\<close>, \<open>%d\<close>.\<close>

definition fmt_x :: "int \<Rightarrow> byte list" where
  "fmt_x n = digits 16 (nat (n mod 2 ^ 32))"

definition fmt_04X :: "int \<Rightarrow> byte list" where
  "fmt_04X n = map upper_char (pad_zeros 4 (fmt_x n))"

definition fmt_d :: "int \<Rightarrow> byte list" where
  "fmt_d n = (if n < 0 then 45 # digits 10 (nat (- n)) else digits 10 (nat n))"

text \<open>The C string that a block holds.\<close>

fun block_cstr :: "block \<Rightarrow> byte list outcome" where
  "block_cstr [] = Inl Out_Of_Bounds"
| "block_cstr (None # b) = Inl Out_Of_Bounds"
| "block_cstr (Some x # b) = (if x = 0 then Inr [] else obind (block_cstr b) (\<lambda>bs. Inr (x # bs)))"

lemma block_cstr_holds:
  "0 \<notin> set bs \<Longrightarrow> block_cstr (map Some (bs @ [0]) @ rest) = Inr bs"
  by (induction bs) auto

section \<open>The error record\<close>

definition JSON_ERROR_TEXT_LENGTH :: nat where "JSON_ERROR_TEXT_LENGTH = 160"
definition JSON_ERROR_SOURCE_LENGTH :: nat where "JSON_ERROR_SOURCE_LENGTH = 80"

record json_error_t =
  e_line :: int
  e_column :: int
  e_position :: int
  e_source :: "byte list"
  e_text :: "byte list"

text \<open>Printing into an array of \<open>JSON_ERROR_TEXT_LENGTH\<close> bytes.\<close>

definition error_text :: "byte list \<Rightarrow> byte list" where
  "error_text s = take (JSON_ERROR_TEXT_LENGTH - 1) s"

text \<open>A long source name keeps its end, after three dots.\<close>

definition jsonp_error_set_source :: "json_error_t option \<Rightarrow> byte list option \<Rightarrow> json_error_t option" where
  "jsonp_error_set_source error source =
     (case (error, source) of
        (Some e, Some s) \<Rightarrow>
          Some (e\<lparr>e_source :=
            (if length s < JSON_ERROR_SOURCE_LENGTH then s
             else cstr ''...'' @ drop (length s - JSON_ERROR_SOURCE_LENGTH + 4) s)\<rparr>)
      | _ \<Rightarrow> error)"

definition jsonp_error_init :: "json_error_t option \<Rightarrow> byte list option \<Rightarrow> json_error_t option" where
  "jsonp_error_init error source =
     (case error of None \<Rightarrow> None
      | Some e \<Rightarrow>
          (let e = e\<lparr>e_text := [], e_line := -1, e_column := -1, e_position := 0\<rparr>
           in if source \<noteq> None then jsonp_error_set_source (Some e) source else Some (e\<lparr>e_source := []\<rparr>)))"

text \<open>Only the first error is kept.  The message is given formatted.\<close>

definition jsonp_error_vset :: "json_error_t option \<Rightarrow> int \<Rightarrow> int \<Rightarrow> int \<Rightarrow> byte list \<Rightarrow> json_error_t option" where
  "jsonp_error_vset error line column position msg =
     (case error of None \<Rightarrow> None
      | Some e \<Rightarrow>
          if e_text e \<noteq> [] then Some e
          else Some (e\<lparr>e_line := line, e_column := column, e_position := position, e_text := error_text msg\<rparr>))"

definition jsonp_error_set :: "json_error_t option \<Rightarrow> int \<Rightarrow> int \<Rightarrow> int \<Rightarrow> byte list \<Rightarrow> json_error_t option" where
  "jsonp_error_set error line column position msg = jsonp_error_vset error line column position msg"

text \<open>The arrays of the record never overflow.\<close>

definition error_fits :: "json_error_t \<Rightarrow> bool" where
  "error_fits e \<longleftrightarrow> length (e_source e) < JSON_ERROR_SOURCE_LENGTH \<and> length (e_text e) < JSON_ERROR_TEXT_LENGTH"

lemma jsonp_error_vset_fits:
  "error_fits e \<Longrightarrow> \<exists>e'. jsonp_error_vset (Some e) l c p msg = Some e' \<and> error_fits e' \<and>
     (e_text e \<noteq> [] \<longrightarrow> e' = e)"
  by (auto simp: jsonp_error_vset_def error_fits_def error_text_def JSON_ERROR_TEXT_LENGTH_def)

lemma jsonp_error_init_fits:
  "\<exists>e'. jsonp_error_init (Some e) (Some source) = Some e' \<and> error_fits e' \<and> e_text e' = [] \<and>
     (length source < JSON_ERROR_SOURCE_LENGTH \<longrightarrow> e_source e' = source)"
  by (auto simp: jsonp_error_init_def jsonp_error_set_source_def error_fits_def Let_def
      JSON_ERROR_TEXT_LENGTH_def JSON_ERROR_SOURCE_LENGTH_def)

end
