(* ===== verification/Json_Number.thy ===== *)
theory Json_Number
  imports Json_Error Doubles
begin

text \<open>
  \<open>src/lib/jansson-2.4/src/strconv.c\<close> and the conversions of the C library under it:
  \<open>strtoll\<close>, \<open>strtod\<close> on decimal numbers and \<open>%.17g\<close>.  All of them are exact: a number is
  read and printed as a rational number and rounded once, to nearest.  The locale is that of a
  program that never calls \<open>setlocale\<close>, so that the decimal point is a dot and the two locale
  conversions do nothing.
\<close>

section \<open>Reading numbers\<close>

definition is_digit :: "byte \<Rightarrow> bool" where
  "is_digit b \<longleftrightarrow> 48 \<le> b \<and> b \<le> 57"

definition digit_val :: "byte \<Rightarrow> nat" where
  "digit_val b = unat b - 48"

definition digits_val :: "byte list \<Rightarrow> nat" where
  "digits_val ds = foldl (\<lambda>n d. 10 * n + digit_val d) 0 ds"

text \<open>An optional sign: whether it is a minus, and the rest.\<close>

fun scan_sign :: "byte list \<Rightarrow> bool \<times> byte list" where
  "scan_sign [] = (False, [])"
| "scan_sign (b # bs) = (if b = 45 then (True, bs) else if b = 43 then (False, bs) else (False, b # bs))"

text \<open>\<open>strtoll\<close> in base 10: the value, the number of bytes read, and whether \<open>errno\<close> is
  \<open>ERANGE\<close>.\<close>

definition strtoll :: "byte list \<Rightarrow> int \<times> nat \<times> bool" where
  "strtoll s =
     (let (neg, r) = scan_sign s; ds = takeWhile is_digit r;
          v = (if neg then - int (digits_val ds) else int (digits_val ds))
      in if ds = [] then (0, 0, False)
         else (max (- (2 ^ 63)) (min (2 ^ 63 - 1) v), length s - length r + length ds,
           v < - (2 ^ 63) \<or> 2 ^ 63 - 1 < v))"

text \<open>The exponent part, when it has digits; and the bytes it takes.\<close>

definition scan_exponent :: "byte list \<Rightarrow> int \<times> nat" where
  "scan_exponent s =
     (if s \<noteq> [] \<and> (hd s = 101 \<or> hd s = 69)
      then let (neg, r) = scan_sign (tl s); ds = takeWhile is_digit r
        in if ds = [] then (0, 0)
           else (if neg then - int (digits_val ds) else int (digits_val ds), length s - length r + length ds)
      else (0, 0))"

definition double_of_decimal :: "bool \<Rightarrow> nat \<Rightarrow> int \<Rightarrow> double" where
  "double_of_decimal neg m e =
     (if 0 \<le> e then double_of_ratio neg (m * 10 ^ nat e) 1 else double_of_ratio neg m (10 ^ nat (- e)))"

text \<open>
  A result that is too large is infinite and sets \<open>ERANGE\<close>; one below the normal numbers sets
  it as well, as glibc does, when it is not exact.
\<close>

definition inexact_tiny :: "double \<Rightarrow> nat \<Rightarrow> int \<Rightarrow> bool" where
  "inexact_tiny v m e \<longleftrightarrow> double_exponent v = 0 \<and>
     (if 0 \<le> e then (m * 10 ^ nat e) * 2 ^ 1074 \<noteq> fst (double_parts v)
      else m * 2 ^ 1074 \<noteq> fst (double_parts v) * 10 ^ nat (- e))"

definition strtod :: "byte list \<Rightarrow> double \<times> nat \<times> bool" where
  "strtod s =
     (let (neg, r) = scan_sign s; ip = takeWhile is_digit r; r1 = dropWhile is_digit r;
          fp = (if r1 \<noteq> [] \<and> hd r1 = 46 then takeWhile is_digit (tl r1) else []);
          r2 = (if r1 \<noteq> [] \<and> hd r1 = 46 \<and> (ip \<noteq> [] \<or> fp \<noteq> []) then dropWhile is_digit (tl r1) else r1);
          (ex, n) = scan_exponent r2; m = digits_val (ip @ fp); e = ex - int (length fp);
          v = double_of_decimal neg m e
      in if ip = [] \<and> fp = [] then (0, 0, False)
         else (v, length s - length r2 + n, isinf v \<or> inexact_tiny v m e))"

text \<open>\<open>jsonp_strtod\<close> on the text of the buffer: \<open>None\<close> is the return of -1.\<close>

definition jsonp_strtod :: "byte list \<Rightarrow> double option outcome" where
  "jsonp_strtod text =
     (let (v, n, erange) = strtod text
      in if n \<noteq> length text then Inl Assert_Failed
         else if erange \<and> \<not> double_zero v then Inr None
         else Inr (Some v))"

section \<open>Printing numbers\<close>

text \<open>The decimal exponent of \<open>n / d\<close>: the \<open>k\<close> with \<open>10 ^ k \<le> n / d < 10 ^ (k + 1)\<close>.\<close>

function tenths :: "nat \<Rightarrow> nat \<Rightarrow> nat" where
  "tenths n d = (if n = 0 \<or> d \<le> n then 0 else Suc (tenths (10 * n) d))"
  by pat_completeness auto
termination by (relation "measure (\<lambda>(n, d). d - n)") auto

declare tenths.simps [simp del]

definition decimal_exponent :: "nat \<Rightarrow> nat \<Rightarrow> int" where
  "decimal_exponent n d =
     (if d \<le> n then int (length (digits 10 (n div d))) - 1 else - int (tenths n d))"

text \<open>17 significant digits, rounded, with the exponent of the first one.\<close>

definition digits_17 :: "nat \<Rightarrow> nat \<Rightarrow> byte list \<times> int" where
  "digits_17 n d =
     (let k = decimal_exponent n d;
          D = (if 16 \<le> k then round_div n (d * 10 ^ nat (k - 16)) else round_div (n * 10 ^ nat (16 - k)) d)
      in if D = 10 ^ 17 then (digits 10 (10 ^ 16), k + 1) else (digits 10 D, k))"

definition strip_zeros :: "byte list \<Rightarrow> byte list" where
  "strip_zeros ds = rev (dropWhile (\<lambda>b. b = 48) (rev ds))"

definition with_point :: "byte list \<Rightarrow> byte list \<Rightarrow> byte list" where
  "with_point ip fp = (let fp = strip_zeros fp in if fp = [] then ip else ip @ 46 # fp)"

definition fmt_17g :: "double \<Rightarrow> byte list" where
  "fmt_17g x =
     (let sign = (if double_sign x then [45] else []); (m, e) = double_parts x
      in if isnan x then sign @ cstr ''nan''
         else if isinf x then sign @ cstr ''inf''
         else if double_zero x then sign @ [48]
         else let (n, d) = (if 0 \<le> e then (m * 2 ^ nat e, 1) else (m, 2 ^ nat (- e)));
                (ds, k) = digits_17 n d
           in sign @
             (if k < -4 \<or> 17 \<le> k
              then with_point [hd ds] (tl ds) @ (if k < 0 then cstr ''e-'' else cstr ''e+'') @
                pad_zeros 2 (digits 10 (nat \<bar>k\<bar>))
              else if 0 \<le> k then with_point (take (nat k + 1) ds) (drop (nat k + 1) ds)
              else with_point [48] (replicate (nat (- k) - 1) 48 @ ds)))"

text \<open>The position of a byte, as \<open>strchr\<close> finds it.\<close>

definition strchr :: "byte list \<Rightarrow> byte \<Rightarrow> nat option" where
  "strchr s c = (let n = length (takeWhile (\<lambda>b. b \<noteq> c) s) in if n = length s then None else Some n)"

text \<open>
  \<open>jsonp_dtostr\<close> into a buffer of the given size: \<open>None\<close> is -1, otherwise the bytes whose number
  is returned.  The exponent loses its plus and its leading zeros.
\<close>

definition jsonp_dtostr :: "nat \<Rightarrow> double \<Rightarrow> byte list option" where
  "jsonp_dtostr n v =
     (let buffer = fmt_17g v
      in if length buffer \<ge> n then None
         else if strchr buffer 46 = None \<and> strchr buffer 101 = None \<and> length buffer + 3 \<ge> n then None
         else let buffer = (if strchr buffer 46 = None \<and> strchr buffer 101 = None then buffer @ [46, 48] else buffer)
           in case strchr buffer 101 of
                None \<Rightarrow> Some buffer
              | Some i \<Rightarrow>
                  (let start = i + 1;
                       start' = (if buffer ! start = 45 then start + 1 else start);
                       stop = start + 1 + length (takeWhile (\<lambda>b. b = 48) (drop (start + 1) buffer))
                   in Some (take start' buffer @ drop stop buffer)))"

end
