(* ===== verification/Json_Dump.thy ===== *)
theory Json_Dump
  imports Json_Value Json_Number
begin

text \<open>
  \<open>src/lib/jansson-2.4/src/dump.c\<close>: writing a value as text.  The output goes through a callback
  with a state of its own, which answers 0, or something else to stop.  The marks of the cycle
  detection are part of the heap.  The recursion carries fuel for its depth; a value that is
  being dumped is marked, so the depth never exceeds the number of cells.
\<close>

section \<open>Flags\<close>

definition JSON_INDENT :: "size_t \<Rightarrow> nat" where "JSON_INDENT n = unat (n AND 0x1F)"
definition JSON_COMPACT :: size_t where "JSON_COMPACT = 0x20"
definition JSON_ENSURE_ASCII :: size_t where "JSON_ENSURE_ASCII = 0x40"
definition JSON_SORT_KEYS :: size_t where "JSON_SORT_KEYS = 0x80"
definition JSON_PRESERVE_ORDER :: size_t where "JSON_PRESERVE_ORDER = 0x100"
definition JSON_ENCODE_ANY :: size_t where "JSON_ENCODE_ANY = 0x200"
definition JSON_ESCAPE_SLASH :: size_t where "JSON_ESCAPE_SLASH = 0x400"

definition has_flag :: "size_t \<Rightarrow> size_t \<Rightarrow> bool" where
  "has_flag flags f \<longleftrightarrow> flags AND f \<noteq> 0"

text \<open>A callback takes the bytes and its state.  \<open>and_then\<close> goes on when the result is 0 and
  returns -1 otherwise.\<close>

type_synonym 'd dumper = "byte list \<Rightarrow> 'd \<Rightarrow> (int \<times> 'd) outcome"

definition and_then :: "(int \<times> 'd) outcome \<Rightarrow> ('d \<Rightarrow> (int \<times> 'e) outcome) \<Rightarrow> ('d \<Rightarrow> 'e) \<Rightarrow> (int \<times> 'e) outcome" where
  "and_then r f g = obind r (\<lambda>(c, d). if c \<noteq> 0 then Inr (-1, g d) else f d)"

section \<open>Indentation and strings\<close>

definition whitespace :: "byte list" where
  "whitespace = replicate 32 32"

fun indent_loop :: "nat \<Rightarrow> nat \<Rightarrow> 'd dumper \<Rightarrow> 'd \<Rightarrow> (int \<times> 'd) outcome" where
  "indent_loop 0 ws_count dump d = Inr (0, d)"
| "indent_loop (Suc k) ws_count dump d =
     and_then (dump (take ws_count whitespace) d) (indent_loop k ws_count dump) id"

definition dump_indent :: "size_t \<Rightarrow> nat \<Rightarrow> bool \<Rightarrow> 'd dumper \<Rightarrow> 'd \<Rightarrow> (int \<times> 'd) outcome" where
  "dump_indent flags depth space dump d =
     (if JSON_INDENT flags > 0
      then and_then (dump [10] d) (indent_loop depth (JSON_INDENT flags) dump) id
      else if space \<and> \<not> has_flag flags JSON_COMPACT then dump [32] d
      else Inr (0, d))"

definition needs_escape :: "size_t \<Rightarrow> int \<Rightarrow> bool" where
  "needs_escape flags codepoint \<longleftrightarrow> codepoint = 92 \<or> codepoint = 34 \<or> codepoint < 0x20 \<or>
     has_flag flags JSON_ESCAPE_SLASH \<and> codepoint = 47 \<or> has_flag flags JSON_ENSURE_ASCII \<and> codepoint > 0x7F"

text \<open>
  The inner loop: pointers into the string are its suffixes.  The result is \<open>pos\<close>, \<open>end\<close> and
  the last code point, or \<open>None\<close> for the return of -1 on a bad sequence.
\<close>

fun plain_run :: "nat \<Rightarrow> size_t \<Rightarrow> byte list \<Rightarrow> byte list \<Rightarrow> int \<Rightarrow> (byte list \<times> byte list \<times> int) option outcome" where
  "plain_run 0 flags pos stop codepoint = Inl Diverges"
| "plain_run (Suc n) flags pos stop codepoint =
     obind (cstr_at stop 0) (\<lambda>b.
     if b = 0 then Inr (Some (pos, stop, codepoint))
     else obind (utf8_iterate pos) (\<lambda>r.
       case r of None \<Rightarrow> Inr None
       | Some (c, stop) \<Rightarrow>
           let codepoint = (case c of None \<Rightarrow> codepoint | Some c \<Rightarrow> c)
           in if needs_escape flags codepoint then Inr (Some (pos, stop, codepoint))
              else plain_run n flags stop stop codepoint))"

text \<open>The hexadecimal escape of a code unit, \<open>%04x\<close>.\<close>

definition unit_escape :: "int \<Rightarrow> byte list" where
  "unit_escape u = [92, 117] @ pad_zeros 4 (fmt_x u)"

definition escape_text :: "int \<Rightarrow> byte list" where
  "escape_text codepoint =
     (if codepoint = 92 then [92, 92]
      else if codepoint = 34 then [92, 34]
      else if codepoint = 8 then [92, 98]
      else if codepoint = 12 then [92, 102]
      else if codepoint = 10 then [92, 110]
      else if codepoint = 13 then [92, 114]
      else if codepoint = 9 then [92, 116]
      else if codepoint = 47 then [92, 47]
      else if codepoint < 0x10000 then unit_escape codepoint
      else let c = codepoint - 0x10000
        in unit_escape (0xD800 OR drop_bit 10 (c AND 0xffc00)) @ unit_escape (0xDC00 OR (c AND 0x003ff)))"

fun dump_string_loop :: "nat \<Rightarrow> size_t \<Rightarrow> byte list \<Rightarrow> int \<Rightarrow> 'd dumper \<Rightarrow> 'd \<Rightarrow> (int \<times> 'd) outcome" where
  "dump_string_loop 0 flags str codepoint dump d = Inl Diverges"
| "dump_string_loop (Suc n) flags str codepoint dump d =
     obind (plain_run (Suc (length str)) flags str str codepoint) (\<lambda>r.
     case r of None \<Rightarrow> Inr (-1, d)
     | Some (pos, stop, codepoint) \<Rightarrow>
         and_then (if length pos \<noteq> length str then dump (take (length str - length pos) str) d else Inr (0, d))
           (\<lambda>d. if length stop = length pos then dump [34] d
             else and_then (dump (escape_text codepoint) d) (dump_string_loop n flags stop codepoint dump) id) id)"

definition dump_string :: "byte list \<Rightarrow> 'd dumper \<Rightarrow> size_t \<Rightarrow> 'd \<Rightarrow> (int \<times> 'd) outcome" where
  "dump_string str dump flags d =
     and_then (dump [34] d) (dump_string_loop (Suc (length str)) flags str 0 dump) id"

section \<open>Values\<close>

text \<open>\<open>strcmp\<close> and the comparison of serial numbers, as orders; keys of one object differ, so
  that \<open>qsort\<close> has one result for the first, and a stable sort stands for it on the second.\<close>

fun strcmp_le :: "byte list \<Rightarrow> byte list \<Rightarrow> bool" where
  "strcmp_le [] ys \<longleftrightarrow> True"
| "strcmp_le (x # xs) [] \<longleftrightarrow> False"
| "strcmp_le (x # xs) (y # ys) \<longleftrightarrow> x < y \<or> x = y \<and> strcmp_le xs ys"

fun insert_by :: "('a \<Rightarrow> 'a \<Rightarrow> bool) \<Rightarrow> 'a \<Rightarrow> 'a list \<Rightarrow> 'a list" where
  "insert_by le x [] = [x]"
| "insert_by le x (y # ys) = (if le x y then x # y # ys else y # insert_by le x ys)"

definition qsort :: "('a \<Rightarrow> 'a \<Rightarrow> bool) \<Rightarrow> 'a list \<Rightarrow> 'a list" where
  "qsort le xs = foldr (insert_by le) xs []"

record object_key =
  k_serial :: nat
  k_key :: "byte list"

definition object_key_compare_keys :: "object_key \<Rightarrow> object_key \<Rightarrow> bool" where
  "object_key_compare_keys a b = strcmp_le (k_key a) (k_key b)"

definition object_key_compare_serials :: "object_key \<Rightarrow> object_key \<Rightarrow> bool" where
  "object_key_compare_serials a b \<longleftrightarrow> k_serial a \<le> k_serial b"

text \<open>Statements on the callback's state in the middle of statements on the heap.\<close>

definition out_then :: "(int \<times> 'd) outcome \<Rightarrow> jheap \<Rightarrow> ('d \<Rightarrow> (int \<times> 'd \<times> jheap) outcome) \<Rightarrow>
    (int \<times> 'd \<times> jheap) outcome" where
  "out_then r h f = and_then r f (\<lambda>d. (d, h))"

text \<open>Setting \<open>visited\<close>, for arrays and objects.\<close>

definition set_visited :: "jptr \<Rightarrow> int \<Rightarrow> jheap \<Rightarrow> jheap outcome" where
  "set_visited p v h =
     obind (get_cell h p) (\<lambda>c.
     case body c of
       Array a \<Rightarrow> put_body p (Array (a\<lparr>a_visited := v\<rparr>)) h
     | Object x \<Rightarrow> put_body p (Object (x\<lparr>o_visited := v\<rparr>)) h
     | _ \<Rightarrow> Inr h)"

text \<open>What follows an element: a comma or the closing indentation.\<close>

definition dump_next :: "bool \<Rightarrow> size_t \<Rightarrow> nat \<Rightarrow> 'd dumper \<Rightarrow> 'd \<Rightarrow> (int \<times> 'd) outcome" where
  "dump_next again flags depth dump d =
     (if again then and_then (dump [44] d) (dump_indent flags (depth + 1) True dump) id
      else dump_indent flags depth False dump d)"

text \<open>\<open>dv\<close> is \<open>do_dump\<close> one level down; the loops stop with the first result other than 0.\<close>

type_synonym 'd value_dumper = "jptr \<Rightarrow> 'd \<Rightarrow> jheap \<Rightarrow> (int \<times> 'd \<times> jheap) outcome"

definition both_then :: "(int \<times> 'd \<times> jheap) outcome \<Rightarrow> ('d \<Rightarrow> jheap \<Rightarrow> (int \<times> 'd \<times> jheap) outcome) \<Rightarrow>
    (int \<times> 'd \<times> jheap) outcome" where
  "both_then r f = obind r (\<lambda>(c, d, h). if c \<noteq> 0 then Inr (-1, d, h) else f d h)"

fun dump_elements :: "'d value_dumper \<Rightarrow> size_t \<Rightarrow> nat \<Rightarrow> 'd dumper \<Rightarrow> jptr \<Rightarrow> nat \<Rightarrow> nat \<Rightarrow> 'd \<Rightarrow> jheap \<Rightarrow>
    (int \<times> 'd \<times> jheap) outcome" where
  "dump_elements dv flags depth dump p i 0 d h = Inr (0, d, h)"
| "dump_elements dv flags depth dump p i (Suc k) d h =
     obind (json_array_get h p i) (\<lambda>v.
     both_then (dv v d h) (\<lambda>d h.
     out_then (dump_next (k > 0) flags depth dump d) h (\<lambda>d.
     dump_elements dv flags depth dump p (Suc i) k d h)))"

text \<open>One entry; the result of \<open>dump_string\<close> on the key is not looked at.\<close>

definition dump_entry :: "'d value_dumper \<Rightarrow> size_t \<Rightarrow> nat \<Rightarrow> 'd dumper \<Rightarrow> byte list \<Rightarrow> jptr \<Rightarrow> bool \<Rightarrow> 'd \<Rightarrow>
    jheap \<Rightarrow> (int \<times> 'd \<times> jheap) outcome" where
  "dump_entry dv flags depth dump key v again d h =
     obind (dump_string key dump flags d) (\<lambda>(_, d).
     out_then (dump (if has_flag flags JSON_COMPACT then [58] else [58, 32]) d) h (\<lambda>d.
     both_then (dv v d h) (\<lambda>d h.
     out_then (dump_next again flags depth dump d) h (\<lambda>d. Inr (0, d, h)))))"

text \<open>Collecting the keys, in iteration order.\<close>

fun collect_keys :: "nat \<Rightarrow> jheap \<Rightarrow> jptr \<Rightarrow> nat option \<Rightarrow> object_key list outcome" where
  "collect_keys 0 h p iter = Inl Diverges"
| "collect_keys (Suc n) h p iter =
     (case iter of None \<Rightarrow> Inr []
      | Some a \<Rightarrow>
          obind (get_object h p) (\<lambda>x. case x of None \<Rightarrow> Inl Use_After_Free
          | Some ob \<Rightarrow>
              obind (hashtable_iter_serial (hashtable ob) a) (\<lambda>ser.
              obind (hashtable_iter_key (hashtable ob) a) (\<lambda>key.
              obind (json_object_iter_next h p iter) (\<lambda>iter.
              obind (collect_keys n h p iter) (\<lambda>ks. Inr (\<lparr>k_serial = ser, k_key = key\<rparr> # ks)))))))"

fun dump_keys :: "'d value_dumper \<Rightarrow> size_t \<Rightarrow> nat \<Rightarrow> 'd dumper \<Rightarrow> jptr \<Rightarrow> object_key list \<Rightarrow> 'd \<Rightarrow> jheap \<Rightarrow>
    (int \<times> 'd \<times> jheap) outcome" where
  "dump_keys dv flags depth dump p [] d h = Inr (0, d, h)"
| "dump_keys dv flags depth dump p (k # ks) d h =
     obind (json_object_get h p (k_key k)) (\<lambda>v.
     if v = 0 then Inl Assert_Failed
     else both_then (dump_entry dv flags depth dump (k_key k) v (ks \<noteq> []) d h) (dump_keys dv flags depth dump p ks))"

fun dump_entries :: "nat \<Rightarrow> 'd value_dumper \<Rightarrow> size_t \<Rightarrow> nat \<Rightarrow> 'd dumper \<Rightarrow> jptr \<Rightarrow> nat option \<Rightarrow> 'd \<Rightarrow> jheap \<Rightarrow>
    (int \<times> 'd \<times> jheap) outcome" where
  "dump_entries 0 dv flags depth dump p iter d h = Inl Diverges"
| "dump_entries (Suc n) dv flags depth dump p iter d h =
     (case iter of None \<Rightarrow> Inr (0, d, h)
      | Some a \<Rightarrow>
          obind (json_object_iter_next h p iter) (\<lambda>next_iter.
          obind (json_object_iter_key h p iter) (\<lambda>key.
          obind (json_object_iter_value h p iter) (\<lambda>v.
          both_then (dump_entry dv flags depth dump (the key) v (next_iter \<noteq> None) d h)
            (dump_entries n dv flags depth dump p next_iter)))))"

text \<open>Unmarking the container on every way out; \<open>close\<close> is written on the good one.\<close>

definition dump_close :: "jptr \<Rightarrow> byte list \<Rightarrow> 'd dumper \<Rightarrow> (int \<times> 'd \<times> jheap) outcome \<Rightarrow>
    (int \<times> 'd \<times> jheap) outcome" where
  "dump_close p close dump r =
     obind r (\<lambda>(c, d, h).
     obind (set_visited p 0 h) (\<lambda>h.
     if c \<noteq> 0 then Inr (-1, d, h) else obind (dump close d) (\<lambda>(c, d). Inr (c, d, h))))"

definition dump_array :: "'d value_dumper \<Rightarrow> size_t \<Rightarrow> nat \<Rightarrow> 'd dumper \<Rightarrow> jptr \<Rightarrow> json_array_t \<Rightarrow> 'd \<Rightarrow> jheap \<Rightarrow>
    (int \<times> 'd \<times> jheap) outcome" where
  "dump_array dv flags depth dump p a d h =
     (if a_visited a \<noteq> 0 then obind (set_visited p 0 h) (\<lambda>h. Inr (-1, d, h))
      else obind (set_visited p 1 h) (\<lambda>h.
        obind (json_array_size h p) (\<lambda>n.
        dump_close p [93] dump
          (out_then (dump [91] d) h (\<lambda>d.
           if n = 0 then Inr (0, d, h)
           else out_then (dump_indent flags (depth + 1) False dump d) h (\<lambda>d.
             dump_elements dv flags depth dump p 0 n d h))))))"

definition dump_object :: "'d value_dumper \<Rightarrow> size_t \<Rightarrow> nat \<Rightarrow> 'd dumper \<Rightarrow> jptr \<Rightarrow> json_object_t \<Rightarrow> 'd \<Rightarrow> jheap \<Rightarrow>
    (int \<times> 'd \<times> jheap) outcome" where
  "dump_object dv flags depth dump p ob d h =
     (if o_visited ob \<noteq> 0 then obind (set_visited p 0 h) (\<lambda>h. Inr (-1, d, h))
      else obind (set_visited p 1 h) (\<lambda>h.
        obind (json_object_iter h p) (\<lambda>iter.
        dump_close p [125] dump
          (out_then (dump [123] d) h (\<lambda>d.
           if iter = None then Inr (0, d, h)
           else out_then (dump_indent flags (depth + 1) False dump d) h (\<lambda>d.
             if has_flag flags JSON_SORT_KEYS \<or> has_flag flags JSON_PRESERVE_ORDER
             then let (ok, h) = json_malloc h in
               if \<not> ok then Inr (-1, d, h)
               else obind (collect_keys (Suc (next_pair (hashtable ob))) h p iter) (\<lambda>keys.
                 if length keys \<noteq> ht_size (hashtable ob) then Inl Assert_Failed
                 else dump_keys dv flags depth dump p
                   (qsort (if has_flag flags JSON_SORT_KEYS then object_key_compare_keys
                      else object_key_compare_serials) keys) d h)
             else dump_entries (Suc (next_pair (hashtable ob))) dv flags depth dump p iter d h))))))"

definition MAX_REAL_STR_LENGTH :: nat where "MAX_REAL_STR_LENGTH = 100"
definition MAX_INTEGER_STR_LENGTH :: nat where "MAX_INTEGER_STR_LENGTH = 100"

text \<open>The callback's state changes, the heap does not.\<close>

definition with_heap :: "jheap \<Rightarrow> (int \<times> 'd) outcome \<Rightarrow> (int \<times> 'd \<times> jheap) outcome" where
  "with_heap h r = obind r (\<lambda>(c, d). Inr (c, d, h))"

fun do_dump :: "nat \<Rightarrow> size_t \<Rightarrow> nat \<Rightarrow> 'd dumper \<Rightarrow> 'd value_dumper" where
  "do_dump 0 flags depth dump p d h = Inl Diverges"
| "do_dump (Suc n) flags depth dump p d h =
     obind (get_cell h p) (\<lambda>c.
     case body c of
       Null_body \<Rightarrow> with_heap h (dump (cstr ''null'') d)
     | True_body \<Rightarrow> with_heap h (dump (cstr ''true'') d)
     | False_body \<Rightarrow> with_heap h (dump (cstr ''false'') d)
     | Integer i \<Rightarrow>
         (let buffer = fmt_d (sint i)
          in if length buffer \<ge> MAX_INTEGER_STR_LENGTH then Inr (-1, d, h) else with_heap h (dump buffer d))
     | Real r \<Rightarrow>
         (case jsonp_dtostr MAX_REAL_STR_LENGTH r of
            None \<Rightarrow> Inr (-1, d, h)
          | Some buffer \<Rightarrow> with_heap h (dump buffer d))
     | String s \<Rightarrow> with_heap h (dump_string s dump flags d)
     | Array a \<Rightarrow> dump_array (do_dump n flags (depth + 1) dump) flags depth dump p a d h
     | Object ob \<Rightarrow> dump_object (do_dump n flags (depth + 1) dump) flags depth dump p ob d h)"

definition json_dump_callback :: "jptr \<Rightarrow> 'd dumper \<Rightarrow> 'd \<Rightarrow> size_t \<Rightarrow> jheap \<Rightarrow> (int \<times> 'd \<times> jheap) outcome" where
  "json_dump_callback json callback d flags h =
     obind (if has_flag flags JSON_ENCODE_ANY then Inr True
       else obind (json_is JSON_ARRAY h json) (\<lambda>a. if a then Inr True else json_is JSON_OBJECT h json)) (\<lambda>good.
     if \<not> good then Inr (-1, d, h) else do_dump (Suc (jnext h)) flags 0 callback json d h)"

section \<open>Entry points\<close>

definition dump_to_strbuffer :: "(size_t \<Rightarrow> bool) \<Rightarrow> strbuffer_t dumper" where
  "dump_to_strbuffer ok buffer d = strbuffer_append_bytes ok d buffer (of_nat (length buffer))"

text \<open>A file with room for so many bytes; \<open>fwrite\<close> of no byte at all returns 0, not 1.\<close>

definition dump_to_file :: "(byte list \<times> nat) dumper" where
  "dump_to_file buffer d =
     (case d of (written, room) \<Rightarrow>
        if buffer = [] \<or> room < length buffer then Inr (-1, d)
        else Inr (0, written @ buffer, room - length buffer))"

definition jsonp_strdup :: "(size_t \<Rightarrow> bool) \<Rightarrow> byte list \<Rightarrow> byte list option" where
  "jsonp_strdup ok str = (case jsonp_malloc ok (of_nat (length str + 1)) of None \<Rightarrow> None | Some _ \<Rightarrow> Some str)"

definition json_dumps :: "(size_t \<Rightarrow> bool) \<Rightarrow> jptr \<Rightarrow> size_t \<Rightarrow> jheap \<Rightarrow> (byte list option \<times> jheap) outcome" where
  "json_dumps ok json flags h =
     obind (strbuffer_init ok \<lparr>sb_value = None, sb_length = 0, sb_size = 0\<rparr>) (\<lambda>(r, sb).
     if r \<noteq> 0 then Inr (None, h)
     else obind (json_dump_callback json (dump_to_strbuffer ok) sb flags h) (\<lambda>(r, sb, h).
       if r \<noteq> 0 then Inr (None, h)
       else obind (need (strbuffer_value sb)) (\<lambda>b. obind (block_cstr b) (\<lambda>s. Inr (jsonp_strdup ok s, h)))))"

definition json_dumpf :: "jptr \<Rightarrow> byte list \<times> nat \<Rightarrow> size_t \<Rightarrow> jheap \<Rightarrow> (int \<times> (byte list \<times> nat) \<times> jheap) outcome" where
  "json_dumpf json output flags h = json_dump_callback json dump_to_file output flags h"

text \<open>\<open>fopen\<close> for writing gives an empty file with its room, or fails.\<close>

definition json_dump_file :: "(byte list \<Rightarrow> nat option) \<Rightarrow> jptr \<Rightarrow> byte list \<Rightarrow> size_t \<Rightarrow> jheap \<Rightarrow>
    (int \<times> byte list option \<times> jheap) outcome" where
  "json_dump_file fopen json fpath flags h =
     (case fopen fpath of None \<Rightarrow> Inr (-1, None, h)
      | Some room \<Rightarrow> obind (json_dumpf json ([], room) flags h) (\<lambda>(r, (written, _), h). Inr (r, Some written, h)))"

end
