(* ===== verification/Json_Load.thy ===== *)
theory Json_Load
  imports Json_Value Json_Number
begin

text \<open>
  \<open>src/lib/jansson-2.4/src/load.c\<close>: the byte stream, the lexer and the recursive descent parser.
  A stream reads from a source through its \<open>get\<close> function, as in the code: a string, a buffer,
  a file or a callback.  Characters are \<open>int\<close>, and a byte that comes back from the stream's
  \<open>char\<close> buffer is sign-extended, as \<open>char\<close> is signed.  The error record, when the caller gave
  one, is part of the lexer's state.  \<open>l_ok n\<close> says whether an allocation of \<open>n\<close> bytes for
  text succeeds.  Loops and the recursion of the parser carry a number of rounds; a run that
  needs more is \<open>Diverges\<close>.
\<close>

section \<open>Characters\<close>

definition ch :: "char \<Rightarrow> int" where
  "ch c = of_char c"

definition EOF :: int where "EOF = -1"
definition STREAM_STATE_OK :: int where "STREAM_STATE_OK = 0"
definition STREAM_STATE_EOF :: int where "STREAM_STATE_EOF = -1"
definition STREAM_STATE_ERROR :: int where "STREAM_STATE_ERROR = -2"

definition TOKEN_INVALID :: int where "TOKEN_INVALID = -1"
definition TOKEN_EOF :: int where "TOKEN_EOF = 0"
definition TOKEN_STRING :: int where "TOKEN_STRING = 256"
definition TOKEN_INTEGER :: int where "TOKEN_INTEGER = 257"
definition TOKEN_REAL :: int where "TOKEN_REAL = 258"
definition TOKEN_TRUE :: int where "TOKEN_TRUE = 259"
definition TOKEN_FALSE :: int where "TOKEN_FALSE = 260"
definition TOKEN_NULL :: int where "TOKEN_NULL = 261"

definition JSON_REJECT_DUPLICATES :: size_t where "JSON_REJECT_DUPLICATES = 1"
definition JSON_DISABLE_EOF_CHECK :: size_t where "JSON_DISABLE_EOF_CHECK = 2"
definition JSON_DECODE_ANY :: size_t where "JSON_DECODE_ANY = 4"

definition l_isupper :: "int \<Rightarrow> bool" where
  "l_isupper c \<longleftrightarrow> ch CHR ''A'' \<le> c \<and> c \<le> ch CHR ''Z''"

definition l_islower :: "int \<Rightarrow> bool" where
  "l_islower c \<longleftrightarrow> ch CHR ''a'' \<le> c \<and> c \<le> ch CHR ''z''"

definition l_isalpha :: "int \<Rightarrow> bool" where
  "l_isalpha c \<longleftrightarrow> l_isupper c \<or> l_islower c"

definition l_isdigit :: "int \<Rightarrow> bool" where
  "l_isdigit c \<longleftrightarrow> ch CHR ''0'' \<le> c \<and> c \<le> ch CHR ''9''"

text \<open>The macro as it is written, with \<open>or\<close> throughout.\<close>

definition l_isxdigit :: "int \<Rightarrow> bool" where
  "l_isxdigit c \<longleftrightarrow> l_isdigit c \<or> ch CHR ''A'' \<le> c \<or> c \<le> ch CHR ''F'' \<or> ch CHR ''a'' \<le> c \<or> c \<le> ch CHR ''f''"

section \<open>State\<close>

record 'd stream_t =
  s_get :: "'d \<Rightarrow> (int \<times> 'd) outcome"
  s_data :: 'd
  s_buffer :: "byte list"
  s_buffer_pos :: nat
  s_state :: int
  s_line :: int
  s_column :: int
  s_last_column :: int
  s_position :: int

text \<open>The union of the lexer holds what its token says.\<close>

datatype lex_value = VString "byte list option" | VInteger json_int_t | VReal double

record 'd lex_t =
  l_stream :: "'d stream_t"
  l_saved_text :: strbuffer_t
  l_token :: int
  l_value :: lex_value
  l_error :: "json_error_t option"
  l_ok :: "size_t \<Rightarrow> bool"

section \<open>Errors\<close>

text \<open>\<open>error_set\<close> with the message already formatted.\<close>

definition error_set :: "byte list \<Rightarrow> 'd lex_t \<Rightarrow> 'd lex_t outcome" where
  "error_set msg lx =
     (if l_error lx = None then Inr lx
      else let msg_text = error_text msg in
        obind (case strbuffer_value (l_saved_text lx) of None \<Rightarrow> Inr [] | Some b \<Rightarrow> block_cstr b) (\<lambda>saved.
        let result =
          (if saved \<noteq> []
           then (if sb_length (l_saved_text lx) \<le> 20
                 then error_text (msg_text @ cstr '' near '' @ [39] @ saved @ [39]) else msg_text)
           else if s_state (l_stream lx) = STREAM_STATE_ERROR then msg_text
           else error_text (msg_text @ cstr '' near end of file''))
        in Inr (lx\<lparr>l_error := jsonp_error_set (l_error lx) (s_line (l_stream lx))
             (s_column (l_stream lx)) (s_position (l_stream lx)) result\<rparr>)))"

section \<open>The stream\<close>

definition stream_init :: "('d \<Rightarrow> (int \<times> 'd) outcome) \<Rightarrow> 'd \<Rightarrow> 'd stream_t" where
  "stream_init get data =
     \<lparr>s_get = get, s_data = data, s_buffer = [0, 0, 0, 0, 0], s_buffer_pos = 0, s_state = STREAM_STATE_OK,
      s_line = 1, s_column = 0, s_last_column = 0, s_position = 0\<rparr>"

definition buffer_at :: "'d stream_t \<Rightarrow> nat \<Rightarrow> byte outcome" where
  "buffer_at s i = (if i < length (s_buffer s) then Inr (s_buffer s ! i) else Inl Out_Of_Bounds)"

definition buffer_put :: "nat \<Rightarrow> byte \<Rightarrow> 'd stream_t \<Rightarrow> 'd stream_t outcome" where
  "buffer_put i b s =
     (if i < length (s_buffer s) then Inr (s\<lparr>s_buffer := (s_buffer s)[i := b]\<rparr>) else Inl Out_Of_Bounds)"

text \<open>The loop \<open>for(i = 1; i < count; i++)\<close> over the continuation bytes, \<open>k\<close> to go.\<close>

fun read_rest :: "nat \<Rightarrow> nat \<Rightarrow> 'd stream_t \<Rightarrow> 'd stream_t outcome" where
  "read_rest i 0 s = Inr s"
| "read_rest i (Suc k) s =
     obind (s_get s (s_data s)) (\<lambda>(c, d).
     obind (buffer_put i (word_of_int c) (s\<lparr>s_data := d\<rparr>)) (read_rest (Suc i) k))"

text \<open>\<open>Inr (Some s)\<close> when the buffer holds a whole character, \<open>None\<close> for the label \<open>out\<close>.\<close>

definition stream_fill :: "int \<Rightarrow> 'd stream_t \<Rightarrow> ('d stream_t option \<times> 'd stream_t) outcome" where
  "stream_fill c s =
     obind (buffer_put 0 (word_of_int c) s) (\<lambda>s.
     let s = s\<lparr>s_buffer_pos := 0\<rparr> in
     if 0x80 \<le> c \<and> c \<le> 0xFF
     then let count = utf8_check_first (word_of_int c) in
       if count = 0 then Inr (None, s)
       else if count < 2 then Inl Assert_Failed
       else obind (read_rest 1 (count - 1) s) (\<lambda>s.
         obind (utf8_check_full (s_buffer s) count) (\<lambda>r.
         if r = None then Inr (None, s)
         else obind (buffer_put count 0 s) (\<lambda>s. Inr (Some s, s))))
     else obind (buffer_put 1 0 s) (\<lambda>s. Inr (Some s, s)))"

definition stream_next :: "'d stream_t \<Rightarrow> (int \<times> 'd stream_t) outcome" where
  "stream_next s =
     obind (buffer_at s (s_buffer_pos s)) (\<lambda>b.
     let c = sint b;
         s = s\<lparr>s_buffer_pos := Suc (s_buffer_pos s), s_position := s_position s + 1\<rparr>;
         s = (if c = 10 then s\<lparr>s_line := s_line s + 1, s_last_column := s_column s, s_column := 0\<rparr>
              else if utf8_check_first b \<noteq> 0 then s\<lparr>s_column := s_column s + 1\<rparr> else s)
     in Inr (c, s))"

definition stream_get :: "'d lex_t \<Rightarrow> (int \<times> 'd lex_t) outcome" where
  "stream_get lx =
     (let s = l_stream lx in
      if s_state s \<noteq> STREAM_STATE_OK then Inr (s_state s, lx)
      else obind (buffer_at s (s_buffer_pos s)) (\<lambda>b.
        if b \<noteq> 0 then obind (stream_next s) (\<lambda>(c, s). Inr (c, lx\<lparr>l_stream := s\<rparr>))
        else obind (s_get s (s_data s)) (\<lambda>(c, d).
          let s = s\<lparr>s_data := d\<rparr> in
          if c = EOF then Inr (STREAM_STATE_EOF, lx\<lparr>l_stream := s\<lparr>s_state := STREAM_STATE_EOF\<rparr>\<rparr>)
          else obind (stream_fill c s) (\<lambda>(r, s).
            case r of
              None \<Rightarrow>
                obind (error_set (cstr ''unable to decode byte 0x'' @ fmt_x c)
                  (lx\<lparr>l_stream := s\<lparr>s_state := STREAM_STATE_ERROR\<rparr>\<rparr>)) (\<lambda>lx.
                Inr (STREAM_STATE_ERROR, lx))
            | Some s \<Rightarrow> obind (stream_next s) (\<lambda>(c, s). Inr (c, lx\<lparr>l_stream := s\<rparr>))))))"

definition stream_unget :: "int \<Rightarrow> 'd stream_t \<Rightarrow> 'd stream_t outcome" where
  "stream_unget c s =
     (if c = STREAM_STATE_EOF \<or> c = STREAM_STATE_ERROR then Inr s
      else let s = s\<lparr>s_position := s_position s - 1\<rparr>;
          s = (if c = 10 then s\<lparr>s_line := s_line s - 1, s_column := s_last_column s\<rparr>
               else if utf8_check_first (word_of_int c) \<noteq> 0 then s\<lparr>s_column := s_column s - 1\<rparr> else s)
        in if s_buffer_pos s = 0 then Inl Assert_Failed
           else let s = s\<lparr>s_buffer_pos := s_buffer_pos s - 1\<rparr> in
             obind (buffer_at s (s_buffer_pos s)) (\<lambda>b. if sint b = c then Inr s else Inl Assert_Failed))"

section \<open>The lexer\<close>

definition lex_get :: "'d lex_t \<Rightarrow> (int \<times> 'd lex_t) outcome" where
  "lex_get lx = stream_get lx"

definition lex_save :: "int \<Rightarrow> 'd lex_t \<Rightarrow> 'd lex_t outcome" where
  "lex_save c lx =
     obind (strbuffer_append_byte (l_ok lx) (l_saved_text lx) (word_of_int c)) (\<lambda>(_, sb).
     Inr (lx\<lparr>l_saved_text := sb\<rparr>))"

definition lex_get_save :: "'d lex_t \<Rightarrow> (int \<times> 'd lex_t) outcome" where
  "lex_get_save lx =
     obind (stream_get lx) (\<lambda>(c, lx).
     if c \<noteq> STREAM_STATE_EOF \<and> c \<noteq> STREAM_STATE_ERROR
     then obind (lex_save c lx) (\<lambda>lx. Inr (c, lx)) else Inr (c, lx))"

definition lex_unget :: "int \<Rightarrow> 'd lex_t \<Rightarrow> 'd lex_t outcome" where
  "lex_unget c lx = obind (stream_unget c (l_stream lx)) (\<lambda>s. Inr (lx\<lparr>l_stream := s\<rparr>))"

definition lex_unget_unsave :: "int \<Rightarrow> 'd lex_t \<Rightarrow> 'd lex_t outcome" where
  "lex_unget_unsave c lx =
     (if c \<noteq> STREAM_STATE_EOF \<and> c \<noteq> STREAM_STATE_ERROR
      then obind (stream_unget c (l_stream lx)) (\<lambda>s.
        obind (strbuffer_pop (l_saved_text lx)) (\<lambda>(d, sb).
        if c = sint d then Inr (lx\<lparr>l_stream := s, l_saved_text := sb\<rparr>) else Inl Assert_Failed))
      else Inr lx)"

text \<open>At most the rest of the five bytes of the buffer is saved.\<close>

fun save_cached :: "nat \<Rightarrow> 'd lex_t \<Rightarrow> 'd lex_t outcome" where
  "save_cached 0 lx = Inl Diverges"
| "save_cached (Suc n) lx =
     (let s = l_stream lx in
      obind (buffer_at s (s_buffer_pos s)) (\<lambda>b.
      if b = 0 then Inr lx
      else obind (lex_save (sint b) lx) (\<lambda>lx.
        save_cached n (lx\<lparr>l_stream :=
          s\<lparr>s_buffer_pos := Suc (s_buffer_pos s), s_position := s_position s + 1\<rparr>\<rparr>))))"

definition lex_save_cached :: "'d lex_t \<Rightarrow> 'd lex_t outcome" where
  "lex_save_cached lx = save_cached 6 lx"

text \<open>The bytes 1 to 4 after the \<open>u\<close> at \<open>p\<close>, \<open>k\<close> of them to go.\<close>

fun decode_digits :: "block \<Rightarrow> nat \<Rightarrow> nat \<Rightarrow> int \<Rightarrow> int outcome" where
  "decode_digits str p 0 val = Inr val"
| "decode_digits str p (Suc k) val =
     obind (load_byte str p) (\<lambda>b.
     let c = sint b; val = val * 16 in
     if l_isdigit c then decode_digits str (Suc p) k (val + (c - ch CHR ''0''))
     else if l_islower c then decode_digits str (Suc p) k (val + (c - ch CHR ''a'' + 10))
     else if l_isupper c then decode_digits str (Suc p) k (val + (c - ch CHR ''A'' + 10))
     else Inl Assert_Failed)"

definition decode_unicode_escape :: "block \<Rightarrow> nat \<Rightarrow> int outcome" where
  "decode_unicode_escape str p =
     obind (load_byte str p) (\<lambda>b.
     if sint b \<noteq> ch CHR ''u'' then Inl Assert_Failed else decode_digits str (Suc p) 4 0)"

text \<open>The \<open>for\<close> loop over the four digits of an escape: \<open>None\<close> is the invalid escape.\<close>

fun scan_escape_digits :: "nat \<Rightarrow> int \<Rightarrow> 'd lex_t \<Rightarrow> (int option \<times> 'd lex_t) outcome" where
  "scan_escape_digits 0 c lx = Inr (Some c, lx)"
| "scan_escape_digits (Suc k) c lx =
     (if \<not> l_isxdigit c then obind (error_set (cstr ''invalid escape'') lx) (\<lambda>lx. Inr (None, lx))
      else obind (lex_get_save lx) (\<lambda>(c, lx). scan_escape_digits k c lx))"

text \<open>The loop that reads up to the closing quote: \<open>False\<close> is the label \<open>out\<close>.\<close>

fun scan_string_loop :: "nat \<Rightarrow> int \<Rightarrow> 'd lex_t \<Rightarrow> (bool \<times> 'd lex_t) outcome" where
  "scan_string_loop 0 c lx = Inl Diverges"
| "scan_string_loop (Suc n) c lx =
     (if c = 34 then Inr (True, lx)
      else if c = STREAM_STATE_ERROR then Inr (False, lx)
      else if c = STREAM_STATE_EOF
      then obind (error_set (cstr ''premature end of input'') lx) (\<lambda>lx. Inr (False, lx))
      else if 0 \<le> c \<and> c \<le> 0x1F
      then obind (lex_unget_unsave c lx) (\<lambda>lx.
        obind (error_set (if c = 10 then cstr ''unexpected newline''
            else cstr ''control character 0x'' @ fmt_x c) lx) (\<lambda>lx.
        Inr (False, lx)))
      else if c = 92
      then obind (lex_get_save lx) (\<lambda>(c, lx).
        if c = ch CHR ''u''
        then obind (lex_get_save lx) (\<lambda>(c, lx).
          obind (scan_escape_digits 4 c lx) (\<lambda>(r, lx).
          case r of None \<Rightarrow> Inr (False, lx) | Some c \<Rightarrow> scan_string_loop n c lx))
        else if c \<in> {34, 92, ch CHR ''/'', ch CHR ''b'', ch CHR ''f'', ch CHR ''n'', ch CHR ''r'', ch CHR ''t''}
        then obind (lex_get_save lx) (\<lambda>(c, lx). scan_string_loop n c lx)
        else obind (error_set (cstr ''invalid escape'') lx) (\<lambda>lx. Inr (False, lx)))
      else obind (lex_get_save lx) (\<lambda>(c, lx). scan_string_loop n c lx))"

text \<open>
  Decoding the saved text from the pointer \<open>p\<close> into the block of \<open>cap\<close> bytes: \<open>t\<close> is what
  was written.  A unicode escape yields its code point and the pointer behind it; \<open>Inl\<close> inside
  the result is the error message of the label \<open>out\<close>.
\<close>

definition decode_escape :: "block \<Rightarrow> nat \<Rightarrow> (byte list + int \<times> nat) outcome" where
  "decode_escape str p =
     obind (decode_unicode_escape str p) (\<lambda>val.
     let p = p + 5 in
     if 0xD800 \<le> val \<and> val \<le> 0xDBFF
     then obind (load_byte str p) (\<lambda>b0.
       obind (if b0 = 92 then obind (load_byte str (p + 1)) (\<lambda>b1. Inr (sint b1 = ch CHR ''u'')) else Inr False)
         (\<lambda>pair.
       if pair
       then obind (decode_unicode_escape str (p + 1)) (\<lambda>value2.
         if 0xDC00 \<le> value2 \<and> value2 \<le> 0xDFFF
         then Inr (Inr ((val - 0xD800) * 1024 + (value2 - 0xDC00) + 0x10000, p + 6))
         else Inr (Inl (cstr ''invalid Unicode '' @ [39, 92] @ cstr ''u'' @ fmt_04X val @ [92] @ cstr ''u'' @
           fmt_04X value2 @ [39])))
       else Inr (Inl (cstr ''invalid Unicode '' @ [39, 92] @ cstr ''u'' @ fmt_04X val @ [39]))))
     else if 0xDC00 \<le> val \<and> val \<le> 0xDFFF
     then Inr (Inl (cstr ''invalid Unicode '' @ [39, 92] @ cstr ''u'' @ fmt_04X val @ [39]))
     else if val = 0 then Inr (Inl ([92] @ cstr ''u0000 is not allowed''))
     else Inr (Inr (val, p)))"

definition put_text :: "nat \<Rightarrow> byte list \<Rightarrow> byte list \<Rightarrow> byte list outcome" where
  "put_text cap t bs = (if cap < length t + length bs then Inl Out_Of_Bounds else Inr (t @ bs))"

definition simple_escape :: "byte \<Rightarrow> byte outcome" where
  "simple_escape b =
     (let c = sint b in
      if c = 34 \<or> c = 92 \<or> c = ch CHR ''/'' then Inr b
      else if c = ch CHR ''b'' then Inr 8
      else if c = ch CHR ''f'' then Inr 12
      else if c = ch CHR ''n'' then Inr 10
      else if c = ch CHR ''r'' then Inr 13
      else if c = ch CHR ''t'' then Inr 9
      else Inl Assert_Failed)"

fun decode_text :: "nat \<Rightarrow> block \<Rightarrow> nat \<Rightarrow> nat \<Rightarrow> byte list \<Rightarrow> (byte list + byte list) outcome" where
  "decode_text 0 str cap p t = Inl Diverges"
| "decode_text (Suc n) str cap p t =
     obind (load_byte str p) (\<lambda>b.
     if b = 34 then obind (put_text cap t [0]) (\<lambda>_. Inr (Inr t))
     else if b = 92
     then obind (load_byte str (p + 1)) (\<lambda>b.
       if sint b = ch CHR ''u''
       then obind (decode_escape str (p + 1)) (\<lambda>r.
         case r of Inl msg \<Rightarrow> Inr (Inl msg)
         | Inr (val, p) \<Rightarrow>
             (case utf8_encode val of None \<Rightarrow> Inl Assert_Failed
              | Some bs \<Rightarrow> obind (put_text cap t bs) (decode_text n str cap p)))
       else obind (simple_escape b) (\<lambda>b. obind (put_text cap t [b]) (decode_text n str cap (p + 2))))
     else obind (put_text cap t [b]) (decode_text n str cap (p + 1)))"

definition lex_scan_string :: "nat \<Rightarrow> 'd lex_t \<Rightarrow> 'd lex_t outcome" where
  "lex_scan_string n lx =
     (let lx = lx\<lparr>l_value := VString None, l_token := TOKEN_INVALID\<rparr> in
      obind (lex_get_save lx) (\<lambda>(c, lx).
      obind (scan_string_loop n c lx) (\<lambda>(closed, lx).
      if \<not> closed then Inr lx
      else let len = sb_length (l_saved_text lx) in
        if jsonp_malloc (l_ok lx) (len + 1) = None then Inr lx
        else obind (need (strbuffer_value (l_saved_text lx))) (\<lambda>str.
          obind (decode_text (Suc (length str)) str (unat (len + 1)) 1 []) (\<lambda>r.
          case r of Inl msg \<Rightarrow> error_set msg lx
          | Inr t \<Rightarrow> Inr (lx\<lparr>l_value := VString (Some t), l_token := TOKEN_STRING\<rparr>))))))"

text \<open>\<open>while(l_isdigit(c)) c = lex_get_save(lex, error)\<close>, and the same for letters.\<close>

fun skip_digits :: "nat \<Rightarrow> int \<Rightarrow> 'd lex_t \<Rightarrow> (int \<times> 'd lex_t) outcome" where
  "skip_digits 0 c lx = Inl Diverges"
| "skip_digits (Suc n) c lx =
     (if l_isdigit c then obind (lex_get_save lx) (\<lambda>(c, lx). skip_digits n c lx) else Inr (c, lx))"

fun skip_letters :: "nat \<Rightarrow> int \<Rightarrow> 'd lex_t \<Rightarrow> (int \<times> 'd lex_t) outcome" where
  "skip_letters 0 c lx = Inl Diverges"
| "skip_letters (Suc n) c lx =
     (if l_isalpha c then obind (lex_get_save lx) (\<lambda>(c, lx). skip_letters n c lx) else Inr (c, lx))"

definition saved_cstr :: "'d lex_t \<Rightarrow> byte list outcome" where
  "saved_cstr lx = obind (need (strbuffer_value (l_saved_text lx))) block_cstr"

text \<open>The parts of \<open>lex_scan_number\<close>; \<open>None\<close> is the label \<open>out\<close>.\<close>

definition scan_int_part :: "nat \<Rightarrow> int \<Rightarrow> 'd lex_t \<Rightarrow> (int option \<times> 'd lex_t) outcome" where
  "scan_int_part n c lx =
     obind (if c = ch CHR ''-'' then lex_get_save lx else Inr (c, lx)) (\<lambda>(c, lx).
     if c = ch CHR ''0''
     then obind (lex_get_save lx) (\<lambda>(c, lx).
       if l_isdigit c then obind (lex_unget_unsave c lx) (\<lambda>lx. Inr (None, lx)) else Inr (Some c, lx))
     else if l_isdigit c
     then obind (lex_get_save lx) (\<lambda>(c, lx). obind (skip_digits n c lx) (\<lambda>(c, lx). Inr (Some c, lx)))
     else obind (lex_unget_unsave c lx) (\<lambda>lx. Inr (None, lx)))"

definition scan_integer :: "int \<Rightarrow> 'd lex_t \<Rightarrow> (int \<times> 'd lex_t) outcome" where
  "scan_integer c lx =
     obind (lex_unget_unsave c lx) (\<lambda>lx.
     obind (saved_cstr lx) (\<lambda>text.
     let (val, stop, erange) = strtoll text in
     if erange
     then obind (error_set (if val < 0 then cstr ''too big negative integer'' else cstr ''too big integer'') lx)
       (\<lambda>lx. Inr (-1, lx))
     else if stop \<noteq> unat (sb_length (l_saved_text lx)) then Inl Assert_Failed
     else Inr (0, lx\<lparr>l_token := TOKEN_INTEGER, l_value := VInteger (word_of_int val)\<rparr>)))"

definition scan_fraction :: "nat \<Rightarrow> int \<Rightarrow> 'd lex_t \<Rightarrow> (int option \<times> 'd lex_t) outcome" where
  "scan_fraction n c lx =
     (if c = ch CHR ''.''
      then obind (lex_get lx) (\<lambda>(c, lx).
        if \<not> l_isdigit c then obind (lex_unget c lx) (\<lambda>lx. Inr (None, lx))
        else obind (lex_save c lx) (\<lambda>lx.
          obind (lex_get_save lx) (\<lambda>(c, lx).
          obind (skip_digits n c lx) (\<lambda>(c, lx). Inr (Some c, lx)))))
      else Inr (Some c, lx))"

definition scan_exponent_part :: "nat \<Rightarrow> int \<Rightarrow> 'd lex_t \<Rightarrow> (int option \<times> 'd lex_t) outcome" where
  "scan_exponent_part n c lx =
     (if c = ch CHR ''E'' \<or> c = ch CHR ''e''
      then obind (lex_get_save lx) (\<lambda>(c, lx).
        obind (if c = ch CHR ''+'' \<or> c = ch CHR ''-'' then lex_get_save lx else Inr (c, lx)) (\<lambda>(c, lx).
        if \<not> l_isdigit c then obind (lex_unget_unsave c lx) (\<lambda>lx. Inr (None, lx))
        else obind (lex_get_save lx) (\<lambda>(c, lx).
          obind (skip_digits n c lx) (\<lambda>(c, lx). Inr (Some c, lx)))))
      else Inr (Some c, lx))"

definition scan_real :: "int \<Rightarrow> 'd lex_t \<Rightarrow> (int \<times> 'd lex_t) outcome" where
  "scan_real c lx =
     obind (lex_unget_unsave c lx) (\<lambda>lx.
     obind (saved_cstr lx) (\<lambda>text.
     obind (jsonp_strtod text) (\<lambda>r.
     case r of None \<Rightarrow> obind (error_set (cstr ''real number overflow'') lx) (\<lambda>lx. Inr (-1, lx))
     | Some v \<Rightarrow> Inr (0, lx\<lparr>l_token := TOKEN_REAL, l_value := VReal v\<rparr>))))"

definition lex_scan_number :: "nat \<Rightarrow> int \<Rightarrow> 'd lex_t \<Rightarrow> (int \<times> 'd lex_t) outcome" where
  "lex_scan_number n c lx =
     (let lx = lx\<lparr>l_token := TOKEN_INVALID\<rparr> in
      obind (scan_int_part n c lx) (\<lambda>(r, lx).
      case r of None \<Rightarrow> Inr (-1, lx)
      | Some c \<Rightarrow>
          if c \<noteq> ch CHR ''.'' \<and> c \<noteq> ch CHR ''E'' \<and> c \<noteq> ch CHR ''e'' then scan_integer c lx
          else obind (scan_fraction n c lx) (\<lambda>(r, lx).
            case r of None \<Rightarrow> Inr (-1, lx)
            | Some c \<Rightarrow> obind (scan_exponent_part n c lx) (\<lambda>(r, lx).
                case r of None \<Rightarrow> Inr (-1, lx) | Some c \<Rightarrow> scan_real c lx))))"

fun skip_spaces :: "nat \<Rightarrow> int \<Rightarrow> 'd lex_t \<Rightarrow> (int \<times> 'd lex_t) outcome" where
  "skip_spaces 0 c lx = Inl Diverges"
| "skip_spaces (Suc n) c lx =
     (if c = 32 \<or> c = 9 \<or> c = 10 \<or> c = 13
      then obind (lex_get lx) (\<lambda>(c, lx). skip_spaces n c lx) else Inr (c, lx))"

definition punctuation :: "int set" where
  "punctuation = {ch CHR ''{'', ch CHR ''}'', ch CHR ''['', ch CHR '']'', ch CHR '':'', ch CHR '',''}"

definition word_token :: "byte list \<Rightarrow> int" where
  "word_token text =
     (if text = cstr ''true'' then TOKEN_TRUE
      else if text = cstr ''false'' then TOKEN_FALSE
      else if text = cstr ''null'' then TOKEN_NULL
      else TOKEN_INVALID)"

text \<open>\<open>lex_scan\<close> returns the token that it leaves in the lexer.\<close>

definition lex_scan :: "nat \<Rightarrow> 'd lex_t \<Rightarrow> 'd lex_t outcome" where
  "lex_scan n lx =
     obind (strbuffer_clear (l_saved_text lx)) (\<lambda>sb.
     let lx = lx\<lparr>l_saved_text := sb\<rparr>;
         lx = (if l_token lx = TOKEN_STRING then lx\<lparr>l_value := VString None\<rparr> else lx)
     in obind (lex_get lx) (\<lambda>(c, lx).
        obind (skip_spaces n c lx) (\<lambda>(c, lx).
        if c = STREAM_STATE_EOF then Inr (lx\<lparr>l_token := TOKEN_EOF\<rparr>)
        else if c = STREAM_STATE_ERROR then Inr (lx\<lparr>l_token := TOKEN_INVALID\<rparr>)
        else obind (lex_save c lx) (\<lambda>lx.
          if c \<in> punctuation then Inr (lx\<lparr>l_token := c\<rparr>)
          else if c = 34 then lex_scan_string n lx
          else if l_isdigit c \<or> c = ch CHR ''-''
          then obind (lex_scan_number n c lx) (\<lambda>(_, lx). Inr lx)
          else if l_isalpha c
          then obind (lex_get_save lx) (\<lambda>(c, lx).
            obind (skip_letters n c lx) (\<lambda>(c, lx).
            obind (lex_unget_unsave c lx) (\<lambda>lx.
            obind (saved_cstr lx) (\<lambda>text. Inr (lx\<lparr>l_token := word_token text\<rparr>)))))
          else obind (lex_save_cached lx) (\<lambda>lx. Inr (lx\<lparr>l_token := TOKEN_INVALID\<rparr>))))))"

definition lex_steal_string :: "'d lex_t \<Rightarrow> byte list option \<times> 'd lex_t" where
  "lex_steal_string lx =
     (if l_token lx = TOKEN_STRING
      then (case l_value lx of VString s \<Rightarrow> (s, lx\<lparr>l_value := VString None\<rparr>) | _ \<Rightarrow> (None, lx))
      else (None, lx))"

text \<open>\<open>None\<close> when the text buffer cannot be allocated.\<close>

definition lex_init :: "('d \<Rightarrow> (int \<times> 'd) outcome) \<Rightarrow> 'd \<Rightarrow> json_error_t option \<Rightarrow> (size_t \<Rightarrow> bool) \<Rightarrow>
    'd lex_t option outcome" where
  "lex_init get data error ok =
     obind (strbuffer_init ok \<lparr>sb_value = None, sb_length = 0, sb_size = 0\<rparr>) (\<lambda>(r, sb).
     Inr (if r \<noteq> 0 then None
       else Some \<lparr>l_stream = stream_init get data, l_saved_text = sb, l_token = TOKEN_INVALID,
         l_value = VString None, l_error = error, l_ok = ok\<rparr>))"

section \<open>The parser\<close>

text \<open>
  The functions return the new value, 0 for null, with the lexer and the heap.  \<open>m\<close> is the
  number of rounds that the lexer and the two loops get, \<open>n\<close> the depth of the recursion; \<open>pv\<close>
  is \<open>parse_value\<close> one level down.
\<close>

text \<open>The label \<open>error\<close>: an error message if there is one to set, then the value is released.\<close>

definition parse_fail :: "byte list option \<Rightarrow> jptr \<Rightarrow> 'd lex_t \<Rightarrow> jheap \<Rightarrow> (jptr \<times> 'd lex_t \<times> jheap) outcome" where
  "parse_fail msg p lx h =
     obind (case msg of None \<Rightarrow> Inr lx | Some s \<Rightarrow> error_set s lx) (\<lambda>lx.
     obind (json_decref p h) (\<lambda>h. Inr (0, lx, h)))"

text \<open>The reference that \<open>json_object_set_nocheck\<close> and \<open>json_array_append\<close> took is the one that
  stays; the parser gives its own back.\<close>

definition parse_null :: "byte list \<Rightarrow> 'd lex_t \<Rightarrow> jheap \<Rightarrow> (jptr \<times> 'd lex_t \<times> jheap) outcome" where
  "parse_null msg lx h = obind (error_set msg lx) (\<lambda>lx. Inr (0, lx, h))"

type_synonym 'd parser = "'d lex_t \<Rightarrow> jheap \<Rightarrow> (jptr \<times> 'd lex_t \<times> jheap) outcome"

fun object_loop :: "nat \<Rightarrow> 'd parser \<Rightarrow> nat \<Rightarrow> size_t \<Rightarrow> jptr \<Rightarrow> 'd parser" where
  "object_loop 0 pv m flags object lx h = Inl Diverges"
| "object_loop (Suc n) pv m flags object lx h =
     (if l_token lx \<noteq> TOKEN_STRING
      then parse_fail (Some (cstr ''string or '' @ [39, 125, 39] @ cstr '' expected'')) object lx h
      else let (key, lx) = lex_steal_string lx in
        case key of None \<Rightarrow> Inr (0, lx, h)
        | Some key \<Rightarrow>
            obind (if flags AND JSON_REJECT_DUPLICATES \<noteq> 0 then json_object_get h object key else Inr 0) (\<lambda>dup.
            if dup \<noteq> 0 then parse_fail (Some (cstr ''duplicate object key'')) object lx h
            else obind (lex_scan m lx) (\<lambda>lx.
              if l_token lx \<noteq> ch CHR '':'' then parse_fail (Some ([39, 58, 39] @ cstr '' expected'')) object lx h
              else obind (lex_scan m lx) (\<lambda>lx.
                obind (pv lx h) (\<lambda>(val, lx, h).
                if val = 0 then parse_fail None object lx h
                else obind (json_object_set_nocheck object (Some key) val h) (\<lambda>(r, h).
                  if r \<noteq> 0 then obind (json_decref val h) (parse_fail None object lx)
                  else obind (json_decref val h) (\<lambda>h.
                    obind (lex_scan m lx) (\<lambda>lx.
                    if l_token lx \<noteq> ch CHR '',''
                    then (if l_token lx \<noteq> ch CHR ''}''
                          then parse_fail (Some ([39, 125, 39] @ cstr '' expected'')) object lx h
                          else Inr (object, lx, h))
                    else obind (lex_scan m lx) (\<lambda>lx. object_loop n pv m flags object lx h)))))))))"

definition parse_object :: "'d parser \<Rightarrow> nat \<Rightarrow> size_t \<Rightarrow> 'd parser" where
  "parse_object pv m flags lx h =
     obind (json_object h) (\<lambda>(object, h).
     if object = 0 then Inr (0, lx, h)
     else obind (lex_scan m lx) (\<lambda>lx.
       if l_token lx = ch CHR ''}'' then Inr (object, lx, h)
       else object_loop m pv m flags object lx h))"

fun array_loop :: "nat \<Rightarrow> 'd parser \<Rightarrow> nat \<Rightarrow> jptr \<Rightarrow> 'd parser" where
  "array_loop 0 pv m array lx h = Inl Diverges"
| "array_loop (Suc n) pv m array lx h =
     (if l_token lx = 0 then parse_fail (Some ([39, 93, 39] @ cstr '' expected'')) array lx h
      else obind (pv lx h) (\<lambda>(elem, lx, h).
        if elem = 0 then parse_fail None array lx h
        else obind (json_array_append array elem h) (\<lambda>(r, h).
          if r \<noteq> 0 then obind (json_decref elem h) (parse_fail None array lx)
          else obind (json_decref elem h) (\<lambda>h.
            obind (lex_scan m lx) (\<lambda>lx.
            if l_token lx \<noteq> ch CHR '',''
            then (if l_token lx \<noteq> ch CHR '']''
                  then parse_fail (Some ([39, 93, 39] @ cstr '' expected'')) array lx h
                  else Inr (array, lx, h))
            else obind (lex_scan m lx) (\<lambda>lx. array_loop n pv m array lx h))))))"

definition parse_array :: "'d parser \<Rightarrow> nat \<Rightarrow> 'd parser" where
  "parse_array pv m lx h =
     obind (json_array h) (\<lambda>(array, h).
     if array = 0 then Inr (0, lx, h)
     else obind (lex_scan m lx) (\<lambda>lx.
       if l_token lx = ch CHR '']'' then Inr (array, lx, h)
       else array_loop m pv m array lx h))"

text \<open>The value of the union, as the token says; the parser never reads another member.\<close>

definition parse_scalar :: "'d parser" where
  "parse_scalar lx h =
     (case l_value lx of
        VString s \<Rightarrow> obind (json_string_nocheck s h) (\<lambda>(p, h). Inr (p, lx, h))
      | VInteger i \<Rightarrow> obind (json_integer i h) (\<lambda>(p, h). Inr (p, lx, h))
      | VReal r \<Rightarrow> obind (json_real r h) (\<lambda>(p, h). Inr (p, lx, h)))"

fun parse_value :: "nat \<Rightarrow> nat \<Rightarrow> size_t \<Rightarrow> 'd parser" where
  "parse_value 0 m flags lx h = Inl Diverges"
| "parse_value (Suc n) m flags lx h =
     (let t = l_token lx in
      if t = TOKEN_STRING \<or> t = TOKEN_INTEGER \<or> t = TOKEN_REAL then parse_scalar lx h
      else if t = TOKEN_TRUE then Inr (json_true, lx, h)
      else if t = TOKEN_FALSE then Inr (json_false, lx, h)
      else if t = TOKEN_NULL then Inr (json_null, lx, h)
      else if t = ch CHR ''{'' then parse_object (parse_value n m flags) m flags lx h
      else if t = ch CHR ''['' then parse_array (parse_value n m flags) m lx h
      else if t = TOKEN_INVALID then parse_null (cstr ''invalid token'') lx h
      else parse_null (cstr ''unexpected token'') lx h)"

definition parse_json :: "nat \<Rightarrow> size_t \<Rightarrow> 'd lex_t \<Rightarrow> jheap \<Rightarrow> (jptr \<times> 'd lex_t \<times> jheap) outcome" where
  "parse_json n flags lx h =
     obind (lex_scan n lx) (\<lambda>lx.
     if flags AND JSON_DECODE_ANY = 0 \<and> l_token lx \<noteq> ch CHR ''['' \<and> l_token lx \<noteq> ch CHR ''{''
     then parse_null ([39, 91, 39] @ cstr '' or '' @ [39, 123, 39] @ cstr '' expected'') lx h
     else obind (parse_value n n flags lx h) (\<lambda>(result, lx, h).
       if result = 0 then Inr (0, lx, h)
       else obind (if flags AND JSON_DISABLE_EOF_CHECK = 0
           then obind (lex_scan n lx) (\<lambda>lx. Inr (l_token lx \<noteq> TOKEN_EOF, lx)) else Inr (False, lx)) (\<lambda>(bad, lx).
         if bad then parse_fail (Some (cstr ''end of file expected'')) result lx h
         else Inr (result, lx\<lparr>l_error := map_option (\<lambda>e. e\<lparr>e_position := s_position (l_stream lx)\<rparr>) (l_error lx)\<rparr>, h))))"

text \<open>\<open>lex_init\<close>, \<open>parse_json\<close>, \<open>lex_close\<close>, which every entry point runs on its own source.\<close>

definition load_from :: "nat \<Rightarrow> ('d \<Rightarrow> (int \<times> 'd) outcome) \<Rightarrow> 'd \<Rightarrow> size_t \<Rightarrow> json_error_t option \<Rightarrow>
    (size_t \<Rightarrow> bool) \<Rightarrow> jheap \<Rightarrow> (jptr \<times> json_error_t option \<times> jheap) outcome" where
  "load_from n get data flags error ok h =
     obind (lex_init get data error ok) (\<lambda>r.
     case r of None \<Rightarrow> Inr (0, error, h)
     | Some lx \<Rightarrow> obind (parse_json n flags lx h) (\<lambda>(result, lx, h). Inr (result, l_error lx, h)))"

definition wrong_arguments :: "json_error_t option \<Rightarrow> json_error_t option" where
  "wrong_arguments error = jsonp_error_set error (-1) (-1) 0 (cstr ''wrong arguments'')"

section \<open>The sources\<close>

text \<open>\<open>string_data_t\<close>: the string and the position in it.\<close>

definition string_get :: "byte list \<times> nat \<Rightarrow> (int \<times> byte list \<times> nat) outcome" where
  "string_get d =
     (case d of (data, pos) \<Rightarrow>
        obind (cstr_at data pos) (\<lambda>c.
        Inr (if c = 0 then (EOF, data, pos) else (uint c, data, pos + 1))))"

definition buffer_get :: "byte list \<times> nat \<times> nat \<Rightarrow> (int \<times> byte list \<times> nat \<times> nat) outcome" where
  "buffer_get d =
     (case d of (data, len, pos) \<Rightarrow>
        if pos \<ge> len then Inr (EOF, data, len, pos)
        else if pos < length data then Inr (uint (data ! pos), data, len, pos + 1) else Inl Out_Of_Bounds)"

text \<open>\<open>fgetc\<close> on a file whose remaining bytes are known.\<close>

definition file_get :: "byte list \<Rightarrow> (int \<times> byte list) outcome" where
  "file_get bs = Inr (case bs of [] \<Rightarrow> (EOF, []) | b # bs \<Rightarrow> (uint b, bs))"

definition MAX_BUF_LEN :: nat where "MAX_BUF_LEN = 1024"

text \<open>
  The callback is given the buffer size and answers with the bytes it stored, or \<open>None\<close> for
  \<open>(size_t)-1\<close>.  One that stores more than it may overruns the buffer.
\<close>

definition callback_get :: "(nat \<Rightarrow> 'c \<Rightarrow> byte list option \<times> 'c) \<Rightarrow> byte list \<times> nat \<times> 'c \<Rightarrow>
    (int \<times> byte list \<times> nat \<times> 'c) outcome" where
  "callback_get cb d =
     (case d of (data, pos, arg) \<Rightarrow>
        if pos \<ge> length data
        then (case cb MAX_BUF_LEN arg of
            (None, arg) \<Rightarrow> Inr (EOF, [], 0, arg)
          | (Some bs, arg) \<Rightarrow>
              if bs = [] then Inr (EOF, [], 0, arg)
              else if length bs > MAX_BUF_LEN then Inl Out_Of_Bounds
              else Inr (uint (hd bs), bs, 1, arg))
        else Inr (uint (data ! pos), data, pos + 1, arg))"

definition json_loads :: "byte list option \<Rightarrow> size_t \<Rightarrow> json_error_t option \<Rightarrow> (size_t \<Rightarrow> bool) \<Rightarrow> jheap \<Rightarrow>
    (jptr \<times> json_error_t option \<times> jheap) outcome" where
  "json_loads string flags error ok h =
     (let error = jsonp_error_init error (Some (cstr ''<string>'')) in
      case string of None \<Rightarrow> Inr (0, wrong_arguments error, h)
      | Some s \<Rightarrow> load_from (length s + 3) string_get (s, 0) flags error ok h)"

definition json_loadb :: "byte list option \<Rightarrow> nat \<Rightarrow> size_t \<Rightarrow> json_error_t option \<Rightarrow> (size_t \<Rightarrow> bool) \<Rightarrow> jheap \<Rightarrow>
    (jptr \<times> json_error_t option \<times> jheap) outcome" where
  "json_loadb buffer buflen flags error ok h =
     (let error = jsonp_error_init error (Some (cstr ''<buffer>'')) in
      case buffer of None \<Rightarrow> Inr (0, wrong_arguments error, h)
      | Some s \<Rightarrow> load_from (buflen + 3) buffer_get (s, buflen, 0) flags error ok h)"

text \<open>A file stream is null or has bytes left; \<open>stdin\<close> is told from the others by a flag.\<close>

definition json_loadf :: "bool \<Rightarrow> byte list option \<Rightarrow> size_t \<Rightarrow> json_error_t option \<Rightarrow> (size_t \<Rightarrow> bool) \<Rightarrow> jheap \<Rightarrow>
    (jptr \<times> json_error_t option \<times> jheap) outcome" where
  "json_loadf is_stdin input flags error ok h =
     (let error = jsonp_error_init error (Some (if is_stdin then cstr ''<stdin>'' else cstr ''<stream>'')) in
      case input of None \<Rightarrow> Inr (0, wrong_arguments error, h)
      | Some s \<Rightarrow> load_from (length s + 3) file_get s flags error ok h)"

text \<open>\<open>fopen\<close> gives the contents of the file, or the text of \<open>strerror(errno)\<close>.\<close>

definition json_load_file :: "(byte list \<Rightarrow> byte list + byte list) \<Rightarrow> byte list option \<Rightarrow> size_t \<Rightarrow> json_error_t option \<Rightarrow>
    (size_t \<Rightarrow> bool) \<Rightarrow> jheap \<Rightarrow> (jptr \<times> json_error_t option \<times> jheap) outcome" where
  "json_load_file fopen fpath flags error ok h =
     (let error = jsonp_error_init error fpath in
      case fpath of None \<Rightarrow> Inr (0, wrong_arguments error, h)
      | Some p \<Rightarrow>
          (case fopen p of
             Inl reason \<Rightarrow> Inr (0, jsonp_error_set error (-1) (-1) 0
               (cstr ''unable to open '' @ p @ cstr '': '' @ reason), h)
           | Inr contents \<Rightarrow> json_loadf False (Some contents) flags error ok h))"

text \<open>A callback need not ever end its input, so the rounds are a parameter.\<close>

definition json_load_callback :: "nat \<Rightarrow> (nat \<Rightarrow> 'c \<Rightarrow> byte list option \<times> 'c) option \<Rightarrow> 'c \<Rightarrow> size_t \<Rightarrow>
    json_error_t option \<Rightarrow> (size_t \<Rightarrow> bool) \<Rightarrow> jheap \<Rightarrow> (jptr \<times> json_error_t option \<times> jheap) outcome" where
  "json_load_callback n callback arg flags error ok h =
     (let error = jsonp_error_init error (Some (cstr ''<callback>'')) in
      case callback of None \<Rightarrow> Inr (0, wrong_arguments error, h)
      | Some cb \<Rightarrow> load_from n (callback_get cb) ([], 0, arg) flags error ok h)"

end
