(* ===== verification/Json_Lex.thy ===== *)
theory Json_Lex
  imports Json_Load
begin

text \<open>
  What the stream and the lexer of \<open>load.c\<close> do, as functions of the text that the source holds.
  A source is anything that delivers a known list of bytes one by one and then the end; the
  three sources of the library are instances.  Above the stream the text is a list of bytes and
  the way it ends; above the lexer it is tokens.
\<close>

section \<open>Sources\<close>

locale byte_source =
  fixes get :: "'d \<Rightarrow> (int \<times> 'd) outcome"
    and left :: "'d \<Rightarrow> byte list"
    and valid :: "'d \<Rightarrow> bool"
  assumes get_law: "valid d \<Longrightarrow> \<exists>d'. get d = Inr (case left d of [] \<Rightarrow> EOF | b # bs \<Rightarrow> uint b, d') \<and>
    valid d' \<and> left d' = tl (left d)"

definition string_left :: "byte list \<times> nat \<Rightarrow> byte list" where
  "string_left d = (case d of (data, pos) \<Rightarrow> takeWhile (\<lambda>b. b \<noteq> 0) (drop pos data))"

definition string_valid :: "byte list \<times> nat \<Rightarrow> bool" where
  "string_valid d \<longleftrightarrow> (case d of (data, pos) \<Rightarrow> pos \<le> length data)"

definition buffer_left :: "byte list \<times> nat \<times> nat \<Rightarrow> byte list" where
  "buffer_left d = (case d of (data, len, pos) \<Rightarrow> drop pos (take len data))"

definition buffer_valid :: "byte list \<times> nat \<times> nat \<Rightarrow> bool" where
  "buffer_valid d \<longleftrightarrow> (case d of (data, len, pos) \<Rightarrow> len \<le> length data)"

interpretation string_src: byte_source string_get string_left string_valid
proof
  fix d assume "string_valid d"
  then obtain data pos where d: "d = (data, pos)" "pos \<le> length data" by (cases d) (auto simp: string_valid_def)
  show "\<exists>d'. string_get d = Inr (case string_left d of [] \<Rightarrow> EOF | b # bs \<Rightarrow> uint b, d') \<and> string_valid d' \<and>
    string_left d' = tl (string_left d)"
  proof (cases "pos < length data")
    case True
    then have "drop pos data = data ! pos # drop (Suc pos) data" by (simp add: Cons_nth_drop_Suc)
    with True d show ?thesis
      by (cases "data ! pos = 0") (simp_all add: string_get_def string_left_def string_valid_def cstr_at_def)
  next
    case False
    with d show ?thesis by (simp add: string_get_def string_left_def string_valid_def cstr_at_def)
  qed
qed

interpretation buffer_src: byte_source buffer_get buffer_left buffer_valid
proof
  fix d assume "buffer_valid d"
  then obtain data len pos where d: "d = (data, len, pos)" "len \<le> length data"
    by (cases d) (auto simp: buffer_valid_def)
  show "\<exists>d'. buffer_get d = Inr (case buffer_left d of [] \<Rightarrow> EOF | b # bs \<Rightarrow> uint b, d') \<and> buffer_valid d' \<and>
    buffer_left d' = tl (buffer_left d)"
  proof (cases "pos < len")
    case True
    with d have "drop pos (take len data) = data ! pos # drop (Suc pos) (take len data)"
      by (subst Cons_nth_drop_Suc[symmetric]) auto
    with True d show ?thesis by (simp add: buffer_get_def buffer_left_def buffer_valid_def)
  next
    case False
    with d show ?thesis by (simp add: buffer_get_def buffer_left_def buffer_valid_def)
  qed
qed

interpretation file_src: byte_source file_get "\<lambda>bs. bs" "\<lambda>_. True"
  by unfold_locales (auto simp: file_get_def split: list.split)

section \<open>The text of a source\<close>

text \<open>The longest prefix that is well-formed UTF-8, and how it ends.\<close>

function text_of :: "byte list \<Rightarrow> byte list \<times> int" where
  "text_of bs =
     (if bs = [] then ([], STREAM_STATE_EOF)
      else let n = utf8_check_first (hd bs) in
        if n = 0 \<or> length bs < n \<or> \<not> utf8_valid (take n bs) then ([], STREAM_STATE_ERROR)
        else (take n bs @ fst (text_of (drop n bs)), snd (text_of (drop n bs))))"
  by pat_completeness auto
termination by (relation "measure length") auto

declare text_of.simps [simp del]

lemma text_of_Nil [simp]: "text_of [] = ([], STREAM_STATE_EOF)"
  by (simp add: text_of.simps)

lemma text_of_end: "snd (text_of bs) \<in> {STREAM_STATE_EOF, STREAM_STATE_ERROR}"
  by (induction bs rule: text_of.induct) (subst text_of.simps, auto simp: Let_def)

lemma text_of_length: "length (fst (text_of bs)) \<le> length bs"
proof (induction bs rule: text_of.induct)
  case (1 bs)
  show ?case
    by (subst text_of.simps) (use 1 in \<open>auto simp: Let_def\<close>)
qed

lemma text_of_prefix: "\<exists>r. bs = fst (text_of bs) @ r"
proof (induction bs rule: text_of.induct)
  case (1 bs)
  let ?n = "utf8_check_first (hd bs)"
  show ?case
  proof (cases "bs = [] \<or> ?n = 0 \<or> length bs < ?n \<or> \<not> utf8_valid (take ?n bs)")
    case True
    then show ?thesis by (subst text_of.simps) (auto simp: Let_def)
  next
    case False
    with 1 obtain r where "drop ?n bs = fst (text_of (drop ?n bs)) @ r" by auto
    then have "bs = take ?n bs @ fst (text_of (drop ?n bs)) @ r" by (metis append_take_drop_id)
    with False show ?thesis by (subst text_of.simps) (auto simp: Let_def)
  qed
qed

lemma text_of_utf8_bytes:
  assumes "scalar_value c"
  shows "text_of (utf8_bytes c @ bs) = (utf8_bytes c @ fst (text_of bs), snd (text_of bs))"
proof -
  have "utf8_valid (utf8_bytes c)"
    unfolding utf8_valid_def using assms by (intro exI[of _ "[c]"]) simp
  then show ?thesis
    using assms check_first_hd[OF assms] by (subst text_of.simps) (simp add: Let_def)
qed

lemma text_of_valid_append: "utf8_valid xs \<Longrightarrow> text_of (xs @ bs) = (xs @ fst (text_of bs), snd (text_of bs))"
proof -
  assume "utf8_valid xs"
  then obtain cs where "\<forall>c \<in> set cs. scalar_value c" "xs = concat (map utf8_bytes cs)" by (auto simp: utf8_valid_def)
  then show ?thesis
    by (induction cs arbitrary: xs) (simp_all add: text_of_utf8_bytes)
qed

lemma text_of_valid: "utf8_valid bs \<Longrightarrow> text_of bs = (bs, STREAM_STATE_EOF)"
  using text_of_valid_append[of bs "[]"] by simp

text \<open>No byte of a text is the sign-extended form of an end mark.\<close>

lemma utf8_bytes_marks: "scalar_value c \<Longrightarrow> b \<in> set (utf8_bytes c) \<Longrightarrow> uint b < 0xFE"
proof -
  assume c: "scalar_value c" and b: "b \<in> set (utf8_bytes c)"
  have "0 \<le> c" "c \<le> 0x10FFFF" using c by (auto simp: scalar_value_def)
  moreover from this have "0 \<le> c div 64" "0 \<le> c div 4096" "0 \<le> c div 262144" "c div 262144 \<le> 4"
    using zdiv_mono1[of c "0x10FFFF" 262144] by (simp_all add: pos_imp_zdiv_nonneg_iff)
  moreover have "c < 0x800 \<Longrightarrow> c div 64 < 32" "c < 0x10000 \<Longrightarrow> c div 4096 < 16" by simp_all
  moreover have "x mod 64 < 64" "0 \<le> x mod 64" for x :: int by simp_all
  ultimately show ?thesis using b
    by (auto simp: utf8_bytes_def uint_to_byte uint_cont_byte simp del: of_int_add of_int_numeral split: if_splits)
qed

section \<open>The stream\<close>

text \<open>The bytes that were fetched and not yet handed out.\<close>

definition pending :: "'d stream_t \<Rightarrow> byte list" where
  "pending s = takeWhile (\<lambda>b. b \<noteq> 0) (drop (s_buffer_pos s) (s_buffer s))"

definition buffer_wf :: "'d stream_t \<Rightarrow> bool" where
  "buffer_wf s \<longleftrightarrow> length (s_buffer s) = 5 \<and> s_buffer s ! 4 = 0 \<and> s_buffer_pos s \<le> 4"

definition no_mark :: "byte \<Rightarrow> bool" where
  "no_mark b \<longleftrightarrow> uint b < 0xFE"

text \<open>The stream still delivers the bytes \<open>bs\<close> and then \<open>e\<close>.\<close>

definition stream_holds :: "('d \<Rightarrow> byte list) \<Rightarrow> ('d \<Rightarrow> bool) \<Rightarrow> ('d \<Rightarrow> (int \<times> 'd) outcome) \<Rightarrow> 'd stream_t \<Rightarrow>
    byte list \<Rightarrow> int \<Rightarrow> bool" where
  "stream_holds left valid get s bs e \<longleftrightarrow> buffer_wf s \<and> valid (s_data s) \<and> s_get s = get \<and>
     (if s_state s = STREAM_STATE_OK
      then text_of (left (s_data s)) = (drop (length (pending s)) bs, e) \<and>
        take (length (pending s)) bs = pending s \<and> (\<forall>b \<in> set (pending s). no_mark b)
      else bs = [] \<and> s_state s = e \<and> (e = STREAM_STATE_EOF \<or> e = STREAM_STATE_ERROR))"

text \<open>The byte \<open>b\<close> was handed out last.\<close>

definition last_read :: "'d stream_t \<Rightarrow> byte \<Rightarrow> bool" where
  "last_read s b \<longleftrightarrow> s_state s = STREAM_STATE_OK \<and> 0 < s_buffer_pos s \<and> s_buffer s ! (s_buffer_pos s - 1) = b \<and>
     (b = 0 \<longrightarrow> pending s = []) \<and> no_mark b"

lemma sint_byte: "sint b = (if uint b < 128 then uint b else uint b - 256)" for b :: byte
proof -
  have u: "0 \<le> uint b" "uint b < 256" by (rule uint_byte_bounds)+
  have "(uint b + 128) mod 256 = (if uint b < 128 then uint b + 128 else uint b - 128)"
  proof (cases "uint b < 128")
    case False
    have "(uint b - 128 + 256) mod 256 = (uint b - 128) mod 256" by (rule mod_add_self2)
    also have "\<dots> = uint b - 128" by (rule mod_pos_pos_trivial) (use u False in simp_all)
    finally show ?thesis using False by (simp add: add.commute)
  qed (use u in simp)
  moreover have "sint b = (uint b + 128) mod 256 - 128"
    by (simp add: sint_uint signed_take_bit_eq_take_bit_shift take_bit_eq_mod)
  ultimately show ?thesis by simp
qed

lemma sint_byte_inj: "sint a = sint b \<longleftrightarrow> a = b" for a b :: byte
proof
  assume "sint a = sint b"
  then have "(word_of_int (sint a) :: byte) = word_of_int (sint b)" by simp
  then show "a = b" by simp
qed simp

lemma no_mark_sint: "no_mark b \<Longrightarrow> sint b \<noteq> STREAM_STATE_EOF \<and> sint b \<noteq> STREAM_STATE_ERROR"
  unfolding no_mark_def sint_byte STREAM_STATE_EOF_def STREAM_STATE_ERROR_def
  using uint_byte_bounds(1)[of b] by presburger

text \<open>The bytes that the loop over a sequence stores: those of the source, then its end mark.\<close>

definition filled :: "nat \<Rightarrow> byte list \<Rightarrow> byte list" where
  "filled k bs = take k bs @ replicate (k - length bs) 0xFF"

lemma length_filled [simp]: "length (filled k bs) = k"
  by (simp add: filled_def)

lemma filled_Suc: "filled (Suc k) bs = (case bs of [] \<Rightarrow> 0xFF | b # _ \<Rightarrow> b) # filled k (tl bs)"
  by (cases bs) (simp_all add: filled_def)


context byte_source
begin

lemma read_rest_spec:
  "valid (s_data s) \<Longrightarrow> s_get s = get \<Longrightarrow> i + k \<le> length (s_buffer s) \<Longrightarrow>
     \<exists>d'. read_rest i k s = Inr (s\<lparr>s_data := d', s_buffer := take i (s_buffer s) @ filled k (left (s_data s)) @
       drop (i + k) (s_buffer s)\<rparr>) \<and> valid d' \<and> left d' = drop k (left (s_data s))"
proof (induction k arbitrary: i s)
  case 0
  then show ?case by (auto simp: filled_def intro!: exI[of _ "s_data s"])
next
  case (Suc k)
  let ?c = "case left (s_data s) of [] \<Rightarrow> EOF | b # bs \<Rightarrow> uint b"
  let ?b = "case left (s_data s) of [] \<Rightarrow> 0xFF | b # _ \<Rightarrow> b"
  from get_law[OF Suc.prems(1)] obtain d where d: "get (s_data s) = Inr (?c, d)" "valid d"
    "left d = tl (left (s_data s))" by blast
  have b: "word_of_int ?c = ?b" by (simp add: EOF_def split: list.split)
  let ?s = "s\<lparr>s_data := d, s_buffer := (s_buffer s)[i := ?b]\<rparr>"
  have i: "i < length (s_buffer s)" using Suc.prems(3) by simp
  have "valid (s_data ?s)" "s_get ?s = get" "Suc i + k \<le> length (s_buffer ?s)"
    using d(2) Suc.prems by simp_all
  from Suc.IH[OF this] obtain d' where d': "read_rest (Suc i) k ?s = Inr (?s\<lparr>s_data := d',
      s_buffer := take (Suc i) (s_buffer ?s) @ filled k (left (s_data ?s)) @ drop (Suc i + k) (s_buffer ?s)\<rparr>)"
    "valid d'" "left d' = drop k (left (s_data ?s))" by blast
  have buf: "take (Suc i) (s_buffer ?s) @ filled k (left d) @ drop (Suc i + k) (s_buffer ?s) =
      take i (s_buffer s) @ filled (Suc k) (left (s_data s)) @ drop (i + Suc k) (s_buffer s)"
    using i d(3) by (simp add: filled_Suc take_Suc_conv_app_nth)
  have "read_rest i (Suc k) s = read_rest (Suc i) k ?s"
    using d(1) Suc.prems(2) b i by (simp add: buffer_put_def)
  with d' buf d(3) show ?case by (auto simp: drop_Suc tl_drop)
qed

end

lemma filled_prefix: "k \<le> length bs \<Longrightarrow> filled k bs = take k bs"
  by (simp add: filled_def)

lemma filled_short: "length bs < k \<Longrightarrow> 0xFF \<in> set (filled k bs)"
  by (simp add: filled_def)

lemma check_filled:
  assumes "1 < utf8_check_first b" "n = utf8_check_first b" "take n buf = b # filled (n - 1) bs" "n \<le> length buf"
  shows "\<exists>r. utf8_check_full buf n = Inr r \<and>
    (r \<noteq> None \<longleftrightarrow> n \<le> length (b # bs) \<and> utf8_valid (take n (b # bs)))"
proof -
  obtain m where m: "n = Suc m" "0 < m" using that[of "n - 1"] assms(1,2) by simp
  then obtain c cs where cs: "buf = c # cs" using assms(4) by (cases buf) auto
  with assms(3) m have "c = b" "take m cs = filled m bs" by simp_all
  with cs have buf: "hd buf = b" "buf \<noteq> []" by simp_all
  from check_full_returns[OF buf(2)] obtain r where r: "utf8_check_full buf n = Inr r" by blast
  have some: "r = Some v \<longleftrightarrow> scalar_value v \<and> length (utf8_bytes v) = n \<and> take n buf = utf8_bytes v" for v
    using check_sequence[of buf n v] assms(1,2,4) buf r by simp
  show ?thesis
  proof (cases "n \<le> length (b # bs)")
    case True
    then have tk: "take n buf = take n (b # bs)" using assms(3) m by (simp add: filled_prefix)
    have "utf8_valid (take n (b # bs)) \<longleftrightarrow> (\<exists>c. scalar_value c \<and> length (utf8_bytes c) = n \<and> take n (b # bs) = utf8_bytes c)"
      using utf8_valid_step[of "take n (b # bs)" n] True assms(2) m by simp
    moreover have "r \<noteq> None \<longleftrightarrow> (\<exists>v. r = Some v)" by simp
    ultimately have "r \<noteq> None \<longleftrightarrow> utf8_valid (take n (b # bs))" unfolding some tk by simp
    with r True show ?thesis by blast
  next
    case False
    then have mark: "0xFF \<in> set (take n buf)" using assms(3) m by (simp add: filled_short)
    have "r = None"
    proof (rule ccontr)
      assume "r \<noteq> None"
      then obtain v where "r = Some v" by auto
      then have v: "scalar_value v" "take n buf = utf8_bytes v" using some by blast+
      have "0xFF \<in> set (utf8_bytes v)" using mark unfolding v(2) .
      from utf8_bytes_marks[OF v(1) this] show False by simp
    qed
    with r False show ?thesis by simp
  qed
qed

lemma utf8_bytes_nonzero: "scalar_value c \<Longrightarrow> c \<noteq> 0 \<Longrightarrow> 0 \<notin> set (utf8_bytes c)"
proof -
  assume c: "scalar_value c" "c \<noteq> 0"
  have "\<exists>x. b = word_of_int (0x80 + x mod 64)" if "b \<in> set (tl (utf8_bytes c))" for b
    using that by (auto simp: utf8_bytes_def simp del: of_int_add of_int_numeral split: if_splits)
  moreover have "(word_of_int (0x80 + x mod 64) :: byte) \<noteq> 0" for x
  proof
    assume "(word_of_int (0x80 + x mod 64) :: byte) = 0"
    then have "uint (word_of_int (0x80 + x mod 64) :: byte) = 0" by simp
    moreover have "0 \<le> x mod 64" by simp
    ultimately show False unfolding uint_cont_byte by linarith
  qed
  ultimately have "0 \<notin> set (tl (utf8_bytes c))" by metis
  moreover have "set (utf8_bytes c) = insert (hd (utf8_bytes c)) (set (tl (utf8_bytes c)))"
    by (metis list.collapse list.simps(15) utf8_bytes_nonempty)
  ultimately show "0 \<notin> set (utf8_bytes c)" using scalar_value_hd_nonzero[OF c] by auto
qed

lemma sequence_bytes:
  assumes "utf8_valid (take n (b # bs))" "n = utf8_check_first b" "n \<noteq> 0" "n \<le> length (b # bs)"
  shows "\<forall>x \<in> set (take n (b # bs)). no_mark x" "b \<noteq> 0 \<longrightarrow> 0 \<notin> set (take n (b # bs))"
proof -
  obtain m where m: "n = Suc m" using assms(3) by (cases n) auto
  then have "\<exists>c. scalar_value c \<and> length (utf8_bytes c) = n \<and> take n (take n (b # bs)) = utf8_bytes c"
    using utf8_valid_step[of "take n (b # bs)" n] assms(1,2) by simp
  then obtain c where c: "scalar_value c" "take n (b # bs) = utf8_bytes c" by auto
  show "\<forall>x \<in> set (take n (b # bs)). no_mark x"
    unfolding c(2) using utf8_bytes_marks[OF c(1)] by (simp add: no_mark_def)
  have "b = hd (utf8_bytes c)" using c(2) m by (metis list.sel(1) take_Suc_Cons)
  moreover have "hd (utf8_bytes 0) = 0" by (simp add: utf8_bytes_def)
  ultimately show "b \<noteq> 0 \<longrightarrow> 0 \<notin> set (take n (b # bs))"
    unfolding c(2) using utf8_bytes_nonzero[OF c(1)] by metis
qed

definition whole_sequence :: "byte \<Rightarrow> byte list \<Rightarrow> bool" where
  "whole_sequence b bs \<longleftrightarrow> (let n = utf8_check_first b in n \<noteq> 0 \<and> n \<le> length (b # bs) \<and> utf8_valid (take n (b # bs)))"

lemma text_of_Cons:
  "text_of (b # bs) = (if whole_sequence b bs
     then let n = utf8_check_first b in (take n (b # bs) @ fst (text_of (drop n (b # bs))), snd (text_of (drop n (b # bs))))
     else ([], STREAM_STATE_ERROR))"
  by (subst text_of.simps) (auto simp: whole_sequence_def Let_def)

context byte_source
begin

lemma stream_fill_spec:
  assumes wf: "buffer_wf s" and get: "s_get s = get" and val: "valid (s_data s)" and bs: "left (s_data s) = bs"
  shows "\<exists>s'. stream_fill (uint b) s = Inr (if whole_sequence b bs then Some s' else None, s') \<and>
    buffer_wf s' \<and> s_get s' = get \<and> valid (s_data s') \<and> s_state s' = s_state s \<and>
    (whole_sequence b bs \<longrightarrow> s_buffer_pos s' = 0 \<and> s_buffer s' ! 0 = b \<and>
       left (s_data s') = drop (utf8_check_first b) (b # bs) \<and>
       pending s' = (if b = 0 then [] else take (utf8_check_first b) (b # bs)) \<and> (b = 0 \<longrightarrow> s_buffer s' ! 1 = 0))"
proof -
  let ?n = "utf8_check_first b"
  have len: "length (s_buffer s) = 5" and four: "s_buffer s ! 4 = 0" using wf by (auto simp: buffer_wf_def)
  obtain b0 b1 b2 b3 b4 where buf: "s_buffer s = [b0, b1, b2, b3, b4]"
    using len by (auto simp: length_Suc_conv eval_nat_numeral)
  with four have b4: "b4 = 0" by simp
  consider "uint b < 0x80" "?n = 1" | "0x80 \<le> uint b" "?n = 0" | "0x80 \<le> uint b" "1 < ?n" "?n \<le> 4"
  proof -
    have "uint b < 0x80 \<and> ?n = 1 \<or> 0x80 \<le> uint b \<and> ?n = 0 \<or> 0x80 \<le> uint b \<and> 1 < ?n \<and> ?n \<le> 4"
      unfolding check_first_cases by auto
    then show thesis using that by blast
  qed
  then show ?thesis
  proof cases
    case 1
    have "utf8_valid [b]" using ascii_sequence[OF 1(2)] unfolding utf8_valid_def
      by (intro exI[of _ "[uint b]"]) simp
    with 1 have w: "whole_sequence b bs" by (simp add: whole_sequence_def)
    let ?s = "s\<lparr>s_buffer := [b, 0, b2, b3, 0], s_buffer_pos := 0\<rparr>"
    have run: "stream_fill (uint b) s = Inr (Some ?s, ?s)"
      using 1 buf b4 by (simp add: stream_fill_def buffer_put_def)
    show ?thesis
      by (rule exI[of _ ?s]) (use run w 1 bs get val in \<open>simp add: buffer_wf_def pending_def\<close>)
  next
    case 2
    then have w: "\<not> whole_sequence b bs" by (simp add: whole_sequence_def)
    let ?s = "s\<lparr>s_buffer := [b, b1, b2, b3, 0], s_buffer_pos := 0\<rparr>"
    have run: "stream_fill (uint b) s = Inr (None, ?s)"
      using 2 buf b4 uint_byte_bounds[of b] by (simp add: stream_fill_def buffer_put_def)
    show ?thesis
      by (rule exI[of _ ?s]) (use run w get val in \<open>simp add: buffer_wf_def\<close>)
  next
    case 3
    obtain m where m: "?n = Suc m" "0 < m" "m \<le> 3" using 3 that[of "?n - 1"] by simp
    let ?s = "s\<lparr>s_buffer := [b, b1, b2, b3, 0], s_buffer_pos := 0\<rparr>"
    have "valid (s_data ?s)" "s_get ?s = get" "1 + m \<le> length (s_buffer ?s)" using val get m by simp_all
    from read_rest_spec[OF this] obtain d where d: "read_rest 1 m ?s = Inr (?s\<lparr>s_data := d,
        s_buffer := b # filled m bs @ drop m [b1, b2, b3, 0]\<rparr>)" "valid d" "left d = drop m bs"
      using bs by auto
    let ?buf = "b # filled m bs @ drop m [b1, b2, b3, 0]"
    have lb: "length ?buf = 5" using m by simp
    have "?buf ! 4 = 0"
      using m by (simp add: nth_append)
    note buf4 = this
    have "take ?n ?buf = b # filled (?n - 1) bs" "?n \<le> length ?buf" using m by simp_all
    from check_filled[OF 3(2) refl this] obtain r where r: "utf8_check_full ?buf ?n = Inr r"
      "r \<noteq> None \<longleftrightarrow> whole_sequence b bs" using 3 by (auto simp: whole_sequence_def Let_def)
    let ?s1 = "?s\<lparr>s_data := d, s_buffer := ?buf\<rparr>"
    have pre: "stream_fill (uint b) s = (if r = None then Inr (None, ?s1)
        else obind (buffer_put ?n 0 ?s1) (\<lambda>s. Inr (Some s, s)))"
      using 3 buf b4 uint_byte_bounds[of b] d(1) r(1) m
      by (simp add: stream_fill_def buffer_put_def)
    show ?thesis
    proof (cases "whole_sequence b bs")
      case False
      with r pre have "stream_fill (uint b) s = Inr (None, ?s1)" by simp
      then show ?thesis using False lb buf4 get d(2) by (intro exI[of _ ?s1]) (simp add: buffer_wf_def)
    next
      case True
      let ?s2 = "?s1\<lparr>s_buffer := ?buf[?n := 0]\<rparr>"
      have "stream_fill (uint b) s = Inr (Some ?s2, ?s2)"
        using pre r True lb m by (simp add: buffer_put_def)
      moreover have "b \<noteq> 0" using 3 by auto
      moreover have ge: "m \<le> length bs" using True m by (simp add: whole_sequence_def Let_def)
      moreover have "?buf[?n := 0] ! 4 = 0"
      proof -
        have "?n < length ?buf" using lb m by simp
        from nth_list_update[OF this, of 0 4] show ?thesis by (simp only: buf4 if_cancel)
      qed
      moreover have "takeWhile (\<lambda>b. b \<noteq> 0) (?buf[?n := 0]) = take ?n (b # bs)"
      proof -
        have tk: "take ?n (?buf[?n := 0]) = b # take m bs" using ge m by (simp add: filled_prefix)
        have "(?buf[?n := 0]) ! ?n = 0" using lb m by simp
        moreover have "?n < length (?buf[?n := 0])" using lb m by simp
        ultimately have eq: "?buf[?n := 0] = (b # take m bs) @ 0 # drop (Suc ?n) (?buf[?n := 0])"
          using id_take_nth_drop[of ?n "?buf[?n := 0]"] unfolding tk by simp
        have no: "\<forall>x \<in> set (b # take m bs). x \<noteq> 0"
          using sequence_bytes(2)[of ?n b bs] True \<open>b \<noteq> 0\<close> m by (auto simp: whole_sequence_def Let_def)
        have "takeWhile (\<lambda>b. b \<noteq> 0) ((b # take m bs) @ 0 # drop (Suc ?n) (?buf[?n := 0])) = b # take m bs"
          by (subst takeWhile_append2) (use no in auto)
        then show ?thesis unfolding eq[symmetric] using m by simp
      qed
      ultimately show ?thesis using True lb get d(2,3) m
        by (intro exI[of _ ?s2]) (simp add: buffer_wf_def pending_def)
    qed
  qed
qed

end

text \<open>\<open>error_set\<close> always returns, and changes nothing but the error record.\<close>

lemma block_cstr_until: "block_cstr (map Some (bs @ [0]) @ rest) = Inr (takeWhile (\<lambda>b. b \<noteq> 0) bs)"
  by (induction bs) auto

lemma saved_block:
  assumes "sb_holds sb t"
  obtains b where "sb_value sb = Some b" "block_cstr b = Inr (takeWhile (\<lambda>b. b \<noteq> 0) t)"
    "\<And>i. i \<le> length t \<Longrightarrow> load_byte b i = Inr ((t @ [0]) ! i)" "length t < length b"
proof -
  from assms obtain rest where "sb_value sb = Some (map Some (t @ [0]) @ rest)" by (auto simp: sb_holds_def)
  then show thesis
    using that[of "map Some (t @ [0]) @ rest"] block_cstr_until[of t rest]
    by (auto simp: load_byte_def nth_append less_Suc_eq_le simp del: map_append)
qed

lemma error_set_returns:
  assumes "sb_holds (l_saved_text lx) t"
  shows "\<exists>er. error_set msg lx = Inr (lx\<lparr>l_error := er\<rparr>) \<and> (er = None \<longleftrightarrow> l_error lx = None)"
proof (cases "l_error lx")
  case None
  then show ?thesis by (auto simp: error_set_def intro!: exI[of _ None])
next
  case (Some e)
  from assms obtain b where b: "sb_value (l_saved_text lx) = Some b" "block_cstr b = Inr (takeWhile (\<lambda>b. b \<noteq> 0) t)"
    by (rule saved_block)
  have "l_error lx \<noteq> None" using Some by simp
  then have "\<exists>m. error_set msg lx = Inr (lx\<lparr>l_error := jsonp_error_set (Some e) (s_line (l_stream lx))
      (s_column (l_stream lx)) (s_position (l_stream lx)) m\<rparr>)"
    unfolding error_set_def strbuffer_value_def Let_def Some b option.case obind_Inr
    by (simp only: if_False option.distinct) blast
  moreover have "jsonp_error_set (Some e) l c p m \<noteq> None" for l c p m
    by (simp add: jsonp_error_set_def jsonp_error_vset_def)
  ultimately show ?thesis using Some by (metis option.distinct(1))
qed

lemma stream_next_spec:
  assumes "s_buffer_pos s < length (s_buffer s)"
  shows "\<exists>s'. stream_next s = Inr (sint (s_buffer s ! s_buffer_pos s), s') \<and> s_buffer s' = s_buffer s \<and>
    s_buffer_pos s' = Suc (s_buffer_pos s) \<and> s_data s' = s_data s \<and> s_get s' = s_get s \<and> s_state s' = s_state s"
  using assms by (simp add: stream_next_def buffer_at_def Let_def)

lemma pending_Cons:
  assumes "buffer_wf s" "pending s = b # ps"
  shows "s_buffer_pos s < 4" "s_buffer s ! s_buffer_pos s = b" "b \<noteq> 0"
    "takeWhile (\<lambda>b. b \<noteq> 0) (drop (Suc (s_buffer_pos s)) (s_buffer s)) = ps"
proof -
  let ?p = "s_buffer_pos s"
  have len: "?p < length (s_buffer s)" using assms(1) by (simp add: buffer_wf_def)
  then have d: "drop ?p (s_buffer s) = s_buffer s ! ?p # drop (Suc ?p) (s_buffer s)"
    by (simp add: Cons_nth_drop_Suc)
  with assms(2) show b: "s_buffer s ! ?p = b" "b \<noteq> 0" "takeWhile (\<lambda>b. b \<noteq> 0) (drop (Suc ?p) (s_buffer s)) = ps"
    by (auto simp: pending_def split: if_splits)
  show "?p < 4" using assms(1) b(1,2) by (cases "?p = 4") (auto simp: buffer_wf_def)
qed

lemma pending_Nil: "buffer_wf s \<Longrightarrow> pending s = [] \<longleftrightarrow> s_buffer s ! s_buffer_pos s = 0"
  by (simp add: pending_def buffer_wf_def Cons_nth_drop_Suc[symmetric])

lemma buffer_at_pos: "buffer_wf s \<Longrightarrow> buffer_at s (s_buffer_pos s) = Inr (s_buffer s ! s_buffer_pos s)"
  by (simp add: buffer_at_def buffer_wf_def)

context byte_source
begin

lemma stream_get_next:
  assumes "stream_holds left valid get (l_stream lx) (b # bs) e"
  shows "\<exists>s'. stream_get lx = Inr (sint b, lx\<lparr>l_stream := s'\<rparr>) \<and> stream_holds left valid get s' bs e \<and> last_read s' b"
proof -
  let ?s = "l_stream lx"
  have s: "buffer_wf ?s" "valid (s_data ?s)" "s_get ?s = get" "s_state ?s = STREAM_STATE_OK"
    "text_of (left (s_data ?s)) = (drop (length (pending ?s)) (b # bs), e)"
    "take (length (pending ?s)) (b # bs) = pending ?s" "\<forall>b \<in> set (pending ?s). no_mark b"
    using assms by (auto simp: stream_holds_def split: if_splits)
  show ?thesis
  proof (cases "pending ?s")
    case (Cons p ps)
    with s(6) have p: "p = b" "take (length ps) bs = ps" by auto
    note c = pending_Cons[OF s(1) Cons]
    have "s_buffer_pos ?s < length (s_buffer ?s)" using s(1) c(1) by (simp add: buffer_wf_def)
    from stream_next_spec[OF this] obtain s' where s': "stream_next ?s = Inr (sint b, s')"
      "s_buffer s' = s_buffer ?s" "s_buffer_pos s' = Suc (s_buffer_pos ?s)" "s_data s' = s_data ?s"
      "s_get s' = get" "s_state s' = STREAM_STATE_OK" using c(2) p(1) s(3,4) by auto
    have "pending s' = ps" using s' c(4) by (simp add: pending_def)
    moreover have "buffer_wf s'" using s(1) s' c(1) by (simp add: buffer_wf_def)
    moreover have "stream_get lx = Inr (sint b, lx\<lparr>l_stream := s'\<rparr>)"
      using s(4) buffer_at_pos[OF s(1)] c(2,3) s'(1) by (simp add: stream_get_def Let_def)
    ultimately show ?thesis
      using s s' c p Cons by (intro exI[of _ s']) (auto simp: stream_holds_def last_read_def)
  next
    case Nil
    then have zero: "s_buffer ?s ! s_buffer_pos ?s = 0" using pending_Nil[OF s(1)] by simp
    from s(5) Nil have tx: "text_of (left (s_data ?s)) = (b # bs, e)" by simp
    then obtain b' r where l: "left (s_data ?s) = b' # r" by (cases "left (s_data ?s)") auto
    with tx have whole: "whole_sequence b' r" by (auto simp: text_of_Cons split: if_splits)
    let ?n = "utf8_check_first b'"
    have n: "?n \<noteq> 0" using whole by (auto simp: whole_sequence_def Let_def)
    from tx whole l have bs: "b # bs = take ?n (b' # r) @ fst (text_of (drop ?n (b' # r)))"
      "e = snd (text_of (drop ?n (b' # r)))" by (auto simp: text_of_Cons Let_def)
    with n have b': "b' = b" by (cases ?n) auto
    from get_law[OF s(2)] l obtain d where d: "get (s_data ?s) = Inr (uint b, d)" "valid d" "left d = r"
      using b' by auto
    let ?s0 = "?s\<lparr>s_data := d\<rparr>"
    have "buffer_wf ?s0" "s_get ?s0 = get" "valid (s_data ?s0)" "left (s_data ?s0) = r"
      using s d by (simp_all add: buffer_wf_def)
    from stream_fill_spec[OF this, of b] whole b' obtain s1 where s1: "stream_fill (uint b) ?s0 = Inr (Some s1, s1)"
      "buffer_wf s1" "s_get s1 = get" "valid (s_data s1)" "s_state s1 = STREAM_STATE_OK" "s_buffer_pos s1 = 0"
      "s_buffer s1 ! 0 = b" "left (s_data s1) = drop ?n (b # r)"
      "pending s1 = (if b = 0 then [] else take ?n (b # r))" "b = 0 \<longrightarrow> s_buffer s1 ! 1 = 0" using s(4) by auto
    have "s_buffer_pos s1 < length (s_buffer s1)" using s1(2) by (simp add: buffer_wf_def)
    from stream_next_spec[OF this] obtain s' where s': "stream_next s1 = Inr (sint b, s')"
      "s_buffer s' = s_buffer s1" "s_buffer_pos s' = 1" "s_data s' = s_data s1"
      "s_get s' = get" "s_state s' = STREAM_STATE_OK" using s1 by auto
    have "uint b \<noteq> EOF" using uint_byte_bounds(1)[of b] unfolding EOF_def by linarith
    then have run: "stream_get lx = Inr (sint b, lx\<lparr>l_stream := s'\<rparr>)"
      using s(3,4) buffer_at_pos[OF s(1)] zero d(1) s1(1) s'(1) by (simp add: stream_get_def Let_def)
    obtain m where m: "?n = Suc m" using n by (cases ?n) auto
    with bs b' have bs': "bs = take m r @ fst (text_of (drop m r))" "e = snd (text_of (drop m r))" by auto
    note seq = sequence_bytes[of ?n b r]
    have seqs: "\<forall>x \<in> set (take ?n (b # r)). no_mark x" "b \<noteq> 0 \<longrightarrow> 0 \<notin> set (take ?n (b # r))"
      using seq whole b' by (auto simp: whole_sequence_def Let_def)
    have wf': "buffer_wf s'" using s1(2) s' by (simp add: buffer_wf_def)
    have pend: "pending s' = take m r"
    proof (cases "b = 0")
      case True
      then have "?n = 1" using b' by (simp add: check_first_cases)
      with m have "m = 0" by simp
      moreover have "pending s' = []"
        using pending_Nil[OF wf'] True s' s1(10) by simp
      ultimately show ?thesis by simp
    next
      case False
      then have "pending s1 = b # take m r" using s1(9) m by simp
      from pending_Cons(4)[OF s1(2) this] show ?thesis using s' s1(6) by (simp add: pending_def)
    qed
    have "no_mark b" using seqs(1) m by simp
    moreover have "m \<le> length r" using whole m by (simp add: whole_sequence_def Let_def)
    moreover have "b = 0 \<longrightarrow> m = 0" using m b' by (auto simp: check_first_cases)
    ultimately show ?thesis
      using run s' s1 pend bs' seqs m wf'
      by (intro exI[of _ s']) (simp add: stream_holds_def last_read_def)
  qed
qed

end

lemma end_marks: "STREAM_STATE_EOF = -1" "STREAM_STATE_ERROR = -2" "STREAM_STATE_OK = 0"
  by (simp_all add: STREAM_STATE_EOF_def STREAM_STATE_ERROR_def STREAM_STATE_OK_def)

context byte_source
begin

lemma stream_get_end:
  assumes "stream_holds left valid get (l_stream lx) [] e" and saved: "sb_holds (l_saved_text lx) t"
  shows "\<exists>s' er. stream_get lx = Inr (e, lx\<lparr>l_stream := s', l_error := er\<rparr>) \<and>
    stream_holds left valid get s' [] e \<and> (er = None \<longleftrightarrow> l_error lx = None)"
proof (cases "s_state (l_stream lx) = STREAM_STATE_OK")
  case False
  with assms(1) have "s_state (l_stream lx) = e" by (simp add: stream_holds_def)
  with False assms(1) show ?thesis
    by (intro exI[of _ "l_stream lx"] exI[of _ "l_error lx"]) (simp add: stream_get_def Let_def)
next
  case True
  let ?s = "l_stream lx"
  from True assms(1) have s: "buffer_wf ?s" "valid (s_data ?s)" "s_get ?s = get" "pending ?s = []"
    "text_of (left (s_data ?s)) = ([], e)" by (auto simp: stream_holds_def)
  then have zero: "s_buffer ?s ! s_buffer_pos ?s = 0" using pending_Nil[OF s(1)] by simp
  show ?thesis
  proof (cases "left (s_data ?s)")
    case Nil
    with get_law[OF s(2)] obtain d where d: "get (s_data ?s) = Inr (EOF, d)" "valid d" by auto
    let ?s' = "?s\<lparr>s_data := d, s_state := STREAM_STATE_EOF\<rparr>"
    from Nil s(5) have e: "e = STREAM_STATE_EOF" by simp
    have "stream_get lx = Inr (e, lx\<lparr>l_stream := ?s', l_error := l_error lx\<rparr>)"
      using True buffer_at_pos[OF s(1)] zero d(1) s(3) e by (simp add: stream_get_def Let_def)
    moreover have "stream_holds left valid get ?s' [] e"
      using s d(2) e by (simp add: stream_holds_def buffer_wf_def end_marks)
    ultimately show ?thesis by blast
  next
    case (Cons b r)
    have ne: "\<not> whole_sequence b r"
    proof
      assume w: "whole_sequence b r"
      then have "utf8_check_first b \<noteq> 0" by (auto simp: whole_sequence_def Let_def)
      with w Cons s(5) show False by (auto simp: text_of_Cons Let_def)
    qed
    with Cons s(5) have e: "e = STREAM_STATE_ERROR" by (auto simp: text_of_Cons)
    from get_law[OF s(2)] Cons obtain d where d: "get (s_data ?s) = Inr (uint b, d)" "valid d" "left d = r" by auto
    let ?s0 = "?s\<lparr>s_data := d\<rparr>"
    have "buffer_wf ?s0" "s_get ?s0 = get" "valid (s_data ?s0)" "left (s_data ?s0) = r"
      using s d by (simp_all add: buffer_wf_def)
    from stream_fill_spec[OF this, of b] ne obtain s1 where s1: "stream_fill (uint b) ?s0 = Inr (None, s1)"
      "buffer_wf s1" "s_get s1 = get" "valid (s_data s1)" by auto
    let ?s' = "s1\<lparr>s_state := STREAM_STATE_ERROR\<rparr>"
    from saved have "sb_holds (l_saved_text (lx\<lparr>l_stream := ?s'\<rparr>)) t" by simp
    from error_set_returns[OF this, of "cstr ''unable to decode byte 0x'' @ fmt_x (uint b)"] obtain er where
      er: "error_set (cstr ''unable to decode byte 0x'' @ fmt_x (uint b)) (lx\<lparr>l_stream := ?s'\<rparr>) =
        Inr (lx\<lparr>l_stream := ?s', l_error := er\<rparr>)" "er = None \<longleftrightarrow> l_error lx = None" by auto
    have "uint b \<noteq> EOF" using uint_byte_bounds(1)[of b] unfolding EOF_def by linarith
    then have "stream_get lx = Inr (e, lx\<lparr>l_stream := ?s', l_error := er\<rparr>)"
      using True buffer_at_pos[OF s(1)] zero d(1) s(3) e s1(1) er(1)
      by (simp add: stream_get_def Let_def del: cstr_Cons)
    moreover have "stream_holds left valid get ?s' [] e"
      using s1 e by (simp add: stream_holds_def buffer_wf_def end_marks)
    ultimately show ?thesis using er(2) by metis
  qed
qed

lemma stream_unget_spec:
  assumes "stream_holds left valid get s bs e" "last_read s b"
  shows "\<exists>s'. stream_unget (sint b) s = Inr s' \<and> stream_holds left valid get s' (if b = 0 then bs else b # bs) e"
proof -
  from assms(2) have b: "s_state s = STREAM_STATE_OK" "0 < s_buffer_pos s" "s_buffer s ! (s_buffer_pos s - 1) = b"
    "b = 0 \<longrightarrow> pending s = []" "no_mark b" by (auto simp: last_read_def)
  with assms(1) have s: "buffer_wf s" "valid (s_data s)" "s_get s = get"
    "text_of (left (s_data s)) = (drop (length (pending s)) bs, e)"
    "take (length (pending s)) bs = pending s" "\<forall>b \<in> set (pending s). no_mark b"
    by (auto simp: stream_holds_def)
  have len: "s_buffer_pos s - 1 < length (s_buffer s)" using s(1) by (auto simp: buffer_wf_def)
  have "\<exists>s'. stream_unget (sint b) s = Inr s' \<and> s_buffer s' = s_buffer s \<and>
      s_buffer_pos s' = s_buffer_pos s - 1 \<and> s_data s' = s_data s \<and> s_get s' = s_get s \<and> s_state s' = s_state s"
    using no_mark_sint[OF b(5)] b(2,3) len
    by (cases "sint b = 10"; cases "utf8_check_first b = 0") (auto simp: stream_unget_def Let_def buffer_at_def)
  then obtain s' where s': "stream_unget (sint b) s = Inr s'" "s_buffer s' = s_buffer s"
    "s_buffer_pos s' = s_buffer_pos s - 1" "s_data s' = s_data s" "s_get s' = s_get s" "s_state s' = s_state s" by blast
  have "drop (s_buffer_pos s') (s_buffer s) = b # drop (s_buffer_pos s) (s_buffer s)"
    using len b(2,3) s'(3) Cons_nth_drop_Suc[OF len] by simp
  then have "pending s' = (if b = 0 then [] else b # pending s)" using s'(2) by (simp add: pending_def)
  moreover have "buffer_wf s'" using s(1) s' by (auto simp: buffer_wf_def)
  ultimately show ?thesis using s b s' by (intro exI[of _ s']) (auto simp: stream_holds_def)
qed

end

lemma stream_unget_mark: "e = STREAM_STATE_EOF \<or> e = STREAM_STATE_ERROR \<Longrightarrow> stream_unget e s = Inr s"
  by (simp add: stream_unget_def)

section \<open>The lexer's view\<close>

text \<open>The lexer has saved \<open>t\<close>, and the stream still holds \<open>bs\<close> and ends with \<open>e\<close>.\<close>

definition lexes :: "('d \<Rightarrow> byte list) \<Rightarrow> ('d \<Rightarrow> bool) \<Rightarrow> ('d \<Rightarrow> (int \<times> 'd) outcome) \<Rightarrow> 'd lex_t \<Rightarrow> byte list \<Rightarrow>
    byte list \<Rightarrow> int \<Rightarrow> bool" where
  "lexes left valid get lx t bs e \<longleftrightarrow> stream_holds left valid get (l_stream lx) bs e \<and>
     sb_holds (l_saved_text lx) t \<and> l_ok lx = (\<lambda>_. True) \<and> length t + length bs < 2 ^ 62 \<and>
     (e = STREAM_STATE_EOF \<or> e = STREAM_STATE_ERROR)"

definition same_token :: "'d lex_t \<Rightarrow> 'd lex_t \<Rightarrow> bool" where
  "same_token lx lx' \<longleftrightarrow> l_token lx' = l_token lx \<and> l_value lx' = l_value lx \<and>
     (l_error lx' = None \<longleftrightarrow> l_error lx = None)"

lemma same_token_refl [simp]: "same_token lx lx"
  by (simp add: same_token_def)

lemma same_token_trans [trans]: "same_token a b \<Longrightarrow> same_token b c \<Longrightarrow> same_token a c"
  by (simp add: same_token_def)

text \<open>Appending a byte always succeeds here.\<close>

lemma sb_accepts_True:
  assumes "sb_holds sb t" "length t < 2 ^ 62"
  shows "sb_accepts (\<lambda>_. True) sb 1"
proof -
  have "unat (sb_length sb) = length t" using assms(1) by (simp add: sb_holds_def)
  with assms(2) show ?thesis
    by (cases "unat (sb_length sb) + 1 < unat (sb_size sb)") (auto simp: sb_accepts_def sb_grown_def)
qed

lemma lex_save_spec:
  assumes "sb_holds (l_saved_text lx) t" "l_ok lx = (\<lambda>_. True)" "length t < 2 ^ 62"
  shows "\<exists>sb. lex_save (sint b) lx = Inr (lx\<lparr>l_saved_text := sb\<rparr>) \<and> sb_holds sb (t @ [b])"
  using strbuffer_append_bytes_spec[OF assms(1), of "[b]" "l_ok lx"] sb_accepts_True[OF assms(1,3)] assms(2)
  by (auto simp: lex_save_def strbuffer_append_byte_def)

text \<open>
  In the loops \<open>c\<close> is the current character: the first of \<open>cur\<close>, already saved behind \<open>t\<close>, or
  the end mark when nothing is left.
\<close>

definition scanning :: "('d \<Rightarrow> byte list) \<Rightarrow> ('d \<Rightarrow> bool) \<Rightarrow> ('d \<Rightarrow> (int \<times> 'd) outcome) \<Rightarrow> 'd lex_t \<Rightarrow> byte list \<Rightarrow>
    byte list \<Rightarrow> int \<Rightarrow> int \<Rightarrow> bool" where
  "scanning left valid get lx t cur e c \<longleftrightarrow>
     (case cur of [] \<Rightarrow> c = e \<and> lexes left valid get lx t [] e
      | b # bs \<Rightarrow> c = sint b \<and> lexes left valid get lx (t @ [b]) bs e \<and> last_read (l_stream lx) b)"

context byte_source
begin

abbreviation "holds \<equiv> lexes left valid get"
abbreviation "scans \<equiv> scanning left valid get"

lemma lex_get_save_scans:
  assumes "holds lx t bs e"
  shows "\<exists>c lx'. lex_get_save lx = Inr (c, lx') \<and> scans lx' t bs e c \<and> same_token lx lx'"
proof (cases bs)
  case Nil
  with assms have s: "stream_holds left valid get (l_stream lx) [] e" "sb_holds (l_saved_text lx) t"
    "e = STREAM_STATE_EOF \<or> e = STREAM_STATE_ERROR" by (auto simp: lexes_def)
  from stream_get_end[OF s(1,2)] obtain s' er where "stream_get lx = Inr (e, lx\<lparr>l_stream := s', l_error := er\<rparr>)"
    "stream_holds left valid get s' [] e" "er = None \<longleftrightarrow> l_error lx = None" by metis
  with s Nil assms show ?thesis by (auto simp: lex_get_save_def scanning_def lexes_def same_token_def)
next
  case (Cons b r)
  with assms have s: "stream_holds left valid get (l_stream lx) (b # r) e" "sb_holds (l_saved_text lx) t"
    "l_ok lx = (\<lambda>_. True)" "length t + length bs < 2 ^ 62" "e = STREAM_STATE_EOF \<or> e = STREAM_STATE_ERROR"
    by (auto simp: lexes_def)
  from stream_get_next[OF s(1)] obtain s' where s': "stream_get lx = Inr (sint b, lx\<lparr>l_stream := s'\<rparr>)"
    "stream_holds left valid get s' r e" "last_read s' b" by blast
  have "length t < 2 ^ 62" using s(4) by simp
  with lex_save_spec[of "lx\<lparr>l_stream := s'\<rparr>" t b] s(2,3) obtain sb where
    sb: "lex_save (sint b) (lx\<lparr>l_stream := s'\<rparr>) = Inr (lx\<lparr>l_stream := s', l_saved_text := sb\<rparr>)"
    "sb_holds sb (t @ [b])" by auto
  have "no_mark b" using s'(3) by (simp add: last_read_def)
  with s' sb s Cons no_mark_sint show ?thesis
    by (auto simp: lex_get_save_def scanning_def lexes_def same_token_def)
qed

lemma scans_advance:
  assumes "scans lx t (b # bs) e c"
  shows "\<exists>c' lx'. lex_get_save lx = Inr (c', lx') \<and> scans lx' (t @ [b]) bs e c' \<and> same_token lx lx'"
  using lex_get_save_scans[of lx "t @ [b]" bs e] assms by (simp add: scanning_def)

lemma scans_unget:
  assumes "scans lx t cur e c"
  shows "\<exists>lx'. lex_unget_unsave c lx = Inr lx' \<and> holds lx' t (if cur \<noteq> [] \<and> hd cur = 0 then tl cur else cur) e \<and>
    same_token lx lx'"
proof (cases cur)
  case Nil
  with assms show ?thesis by (auto simp: scanning_def lexes_def lex_unget_unsave_def)
next
  case (Cons b bs)
  with assms have s: "c = sint b" "stream_holds left valid get (l_stream lx) bs e" "sb_holds (l_saved_text lx) (t @ [b])"
    "l_ok lx = (\<lambda>_. True)" "Suc (length t) + length bs < 2 ^ 62" "last_read (l_stream lx) b"
    "e = STREAM_STATE_EOF \<or> e = STREAM_STATE_ERROR"
    by (auto simp: scanning_def lexes_def)
  from stream_unget_spec[OF s(2,6)] obtain s' where s': "stream_unget (sint b) (l_stream lx) = Inr s'"
    "stream_holds left valid get s' (if b = 0 then bs else b # bs) e" by blast
  from sb_holds_pop[OF s(3)] obtain sb where sb: "strbuffer_pop (l_saved_text lx) = Inr (b, sb)" "sb_holds sb t" by auto
  have "no_mark b" using s(6) by (simp add: last_read_def)
  with no_mark_sint have "c \<noteq> STREAM_STATE_EOF" "c \<noteq> STREAM_STATE_ERROR" using s(1) by auto
  then have "lex_unget_unsave c lx = Inr (lx\<lparr>l_stream := s', l_saved_text := sb\<rparr>)"
    using s(1) s'(1) sb(1) by (simp add: lex_unget_unsave_def)
  with s' sb s Cons show ?thesis by (auto simp: lexes_def same_token_def)
qed

end

section \<open>Characters\<close>

text \<open>A character of the lexer against its byte.\<close>

lemma sint_eq_numeral [simp]: "numeral n < (128 :: int) \<Longrightarrow> sint b = numeral n \<longleftrightarrow> b = numeral n" for b :: byte
proof -
  assume n: "numeral n < (128 :: int)"
  then have "uint (word_of_int (numeral n) :: byte) = numeral n" by (rule uint_to_byte[rotated, OF order_less_trans]) simp_all
  then have "sint (numeral n :: byte) = numeral n" using n unfolding sint_byte by (simp only: of_int_numeral if_True)
  with sint_byte_inj[of b "numeral n"] show ?thesis by simp
qed

lemma sint_range: "0 \<le> lo \<Longrightarrow> hi < 128 \<Longrightarrow> lo \<le> sint b \<and> sint b \<le> hi \<longleftrightarrow> lo \<le> uint b \<and> uint b \<le> hi" for b :: byte
  using uint_byte_bounds[of b] by (auto simp: sint_byte)

lemma ch_simps [simp]:
  "ch CHR ''A'' = 65" "ch CHR ''Z'' = 90" "ch CHR ''a'' = 97" "ch CHR ''z'' = 122" "ch CHR ''0'' = 48" "ch CHR ''9'' = 57"
  "ch CHR ''u'' = 117" "ch CHR ''/'' = 47" "ch CHR ''b'' = 98" "ch CHR ''f'' = 102" "ch CHR ''n'' = 110"
  "ch CHR ''r'' = 114" "ch CHR ''t'' = 116" "ch CHR ''-'' = 45" "ch CHR ''+'' = 43" "ch CHR ''.'' = 46"
  "ch CHR ''e'' = 101" "ch CHR ''E'' = 69" "ch CHR ''F'' = 70" "ch CHR ''{'' = 123" "ch CHR ''}'' = 125"
  "ch CHR ''['' = 91" "ch CHR '']'' = 93" "ch CHR '':'' = 58" "ch CHR '','' = 44"
  by (simp_all add: ch_def)

definition is_alpha :: "byte \<Rightarrow> bool" where
  "is_alpha b \<longleftrightarrow> 65 \<le> b \<and> b \<le> 90 \<or> 97 \<le> b \<and> b \<le> 122"

definition is_space :: "byte \<Rightarrow> bool" where
  "is_space b \<longleftrightarrow> b \<in> {32, 9, 10, 13}"

lemma l_isdigit_byte [simp]: "l_isdigit (sint b) = is_digit b"
  unfolding l_isdigit_def ch_simps using sint_range[of 48 57 b] by (simp add: is_digit_def word_le_def)

lemma l_isalpha_byte [simp]: "l_isalpha (sint b) = is_alpha b"
  unfolding l_isalpha_def l_isupper_def l_islower_def ch_simps
  using sint_range[of 65 90 b] sint_range[of 97 122 b] by (simp add: is_alpha_def word_le_def)

lemma l_isxdigit_always [simp]: "l_isxdigit c"
  unfolding l_isxdigit_def ch_simps by (cases "65 \<le> c") simp_all

definition end_mark :: "int \<Rightarrow> bool" where
  "end_mark e \<longleftrightarrow> e = STREAM_STATE_EOF \<or> e = STREAM_STATE_ERROR"

lemma end_mark_class [simp]:
  "end_mark e \<Longrightarrow> \<not> l_isdigit e" "end_mark e \<Longrightarrow> \<not> l_isalpha e" "end_mark e \<Longrightarrow> e \<noteq> numeral n"
  by (auto simp: end_mark_def end_marks l_isdigit_def l_isalpha_def l_isupper_def l_islower_def)

context byte_source
begin

lemma holds_end: "holds lx t bs e \<Longrightarrow> end_mark e"
  by (simp add: lexes_def end_mark_def)

lemma scans_end: "scans lx t cur e c \<Longrightarrow> end_mark e"
  by (cases cur) (auto simp: scanning_def holds_end)

lemma scans_NilD: "scans lx t [] e c \<Longrightarrow> c = e \<and> holds lx t [] e"
  by (simp add: scanning_def)

lemma scans_ConsD: "scans lx t (b # bs) e c \<Longrightarrow> c = sint b \<and> holds lx (t @ [b]) bs e \<and> c \<noteq> STREAM_STATE_EOF \<and> c \<noteq> STREAM_STATE_ERROR"
  using no_mark_sint[of b] by (simp add: scanning_def last_read_def)

lemma scans_next:
  assumes "scans lx t cur e c"
  shows "\<exists>c' lx'. lex_get_save lx = Inr (c', lx') \<and> scans lx' (t @ take 1 cur) (tl cur) e c' \<and> same_token lx lx'"
proof (cases cur)
  case Nil
  with assms show ?thesis using lex_get_save_scans[of lx t "[]" e] by (simp add: scanning_def)
next
  case (Cons b bs)
  with assms show ?thesis using scans_advance[of lx t b bs e c] by simp
qed

lemma skip_digits_spec:
  "scans lx t cur e c \<Longrightarrow> length cur < n \<Longrightarrow>
     \<exists>c' lx'. skip_digits n c lx = Inr (c', lx') \<and>
       scans lx' (t @ takeWhile is_digit cur) (dropWhile is_digit cur) e c' \<and> same_token lx lx'"
proof (induction cur arbitrary: n c lx t)
  case Nil
  then obtain m where "n = Suc m" by (cases n) auto
  with Nil show ?case using scans_NilD[OF Nil.prems(1)] scans_end[OF Nil.prems(1)] by auto
next
  case (Cons b bs)
  obtain m where n: "n = Suc m" "length bs < m" using Cons.prems(2) by (cases n) auto
  have c: "c = sint b" using scans_ConsD[OF Cons.prems(1)] by simp
  show ?case
  proof (cases "is_digit b")
    case False
    with c n(1) Cons.prems(1) show ?thesis by auto
  next
    case True
    from scans_advance[OF Cons.prems(1)] obtain c1 lx1 where 1: "lex_get_save lx = Inr (c1, lx1)"
      "scans lx1 (t @ [b]) bs e c1" "same_token lx lx1" by blast
    from Cons.IH[OF 1(2) n(2)] obtain c' lx' where "skip_digits m c1 lx1 = Inr (c', lx')"
      "scans lx' ((t @ [b]) @ takeWhile is_digit bs) (dropWhile is_digit bs) e c'" "same_token lx1 lx'" by blast
    with 1 c n(1) True same_token_trans[of lx lx1 lx'] show ?thesis by auto
  qed
qed

lemma skip_letters_spec:
  "scans lx t cur e c \<Longrightarrow> length cur < n \<Longrightarrow>
     \<exists>c' lx'. skip_letters n c lx = Inr (c', lx') \<and>
       scans lx' (t @ takeWhile is_alpha cur) (dropWhile is_alpha cur) e c' \<and> same_token lx lx'"
proof (induction cur arbitrary: n c lx t)
  case Nil
  then obtain m where "n = Suc m" by (cases n) auto
  with Nil show ?case using scans_NilD[OF Nil.prems(1)] scans_end[OF Nil.prems(1)] by auto
next
  case (Cons b bs)
  obtain m where n: "n = Suc m" "length bs < m" using Cons.prems(2) by (cases n) auto
  have c: "c = sint b" using scans_ConsD[OF Cons.prems(1)] by simp
  show ?case
  proof (cases "is_alpha b")
    case False
    with c n(1) Cons.prems(1) show ?thesis by auto
  next
    case True
    from scans_advance[OF Cons.prems(1)] obtain c1 lx1 where 1: "lex_get_save lx = Inr (c1, lx1)"
      "scans lx1 (t @ [b]) bs e c1" "same_token lx lx1" by blast
    from Cons.IH[OF 1(2) n(2)] obtain c' lx' where "skip_letters m c1 lx1 = Inr (c', lx')"
      "scans lx' ((t @ [b]) @ takeWhile is_alpha bs) (dropWhile is_alpha bs) e c'" "same_token lx1 lx'" by blast
    with 1 c n(1) True same_token_trans[of lx lx1 lx'] show ?thesis by auto
  qed
qed

end

section \<open>Characters that are read before they are saved\<close>

definition looking :: "('d \<Rightarrow> byte list) \<Rightarrow> ('d \<Rightarrow> bool) \<Rightarrow> ('d \<Rightarrow> (int \<times> 'd) outcome) \<Rightarrow> 'd lex_t \<Rightarrow> byte list \<Rightarrow>
    byte list \<Rightarrow> int \<Rightarrow> int \<Rightarrow> bool" where
  "looking left valid get lx t cur e c \<longleftrightarrow>
     (case cur of [] \<Rightarrow> c = e \<and> lexes left valid get lx t [] e
      | b # bs \<Rightarrow> c = sint b \<and> lexes left valid get lx t bs e \<and> last_read (l_stream lx) b \<and>
          length t + length cur < 2 ^ 62)"

context byte_source
begin

abbreviation "looks \<equiv> looking left valid get"

lemma lex_get_looks:
  assumes "holds lx t bs e"
  shows "\<exists>c lx'. lex_get lx = Inr (c, lx') \<and> looks lx' t bs e c \<and> same_token lx lx'"
proof (cases bs)
  case Nil
  with assms have s: "stream_holds left valid get (l_stream lx) [] e" "sb_holds (l_saved_text lx) t"
    by (auto simp: lexes_def)
  from stream_get_end[OF s] obtain s' er where "stream_get lx = Inr (e, lx\<lparr>l_stream := s', l_error := er\<rparr>)"
    "stream_holds left valid get s' [] e" "er = None \<longleftrightarrow> l_error lx = None" by metis
  with s Nil assms show ?thesis by (auto simp: lex_get_def looking_def lexes_def same_token_def)
next
  case (Cons b r)
  with assms have s: "stream_holds left valid get (l_stream lx) (b # r) e" by (auto simp: lexes_def)
  from stream_get_next[OF s] obtain s' where "stream_get lx = Inr (sint b, lx\<lparr>l_stream := s'\<rparr>)"
    "stream_holds left valid get s' r e" "last_read s' b" by blast
  with assms Cons show ?thesis by (auto simp: lex_get_def looking_def lexes_def same_token_def)
qed

lemma looks_save:
  assumes "looks lx t (b # bs) e c"
  shows "\<exists>lx'. lex_save c lx = Inr lx' \<and> scans lx' t (b # bs) e c \<and> same_token lx lx'"
proof -
  from assms have s: "c = sint b" "sb_holds (l_saved_text lx) t" "l_ok lx = (\<lambda>_. True)" "length t < 2 ^ 62"
    by (auto simp: looking_def lexes_def)
  from lex_save_spec[OF s(2-4), of b] obtain sb where "lex_save (sint b) lx = Inr (lx\<lparr>l_saved_text := sb\<rparr>)"
    "sb_holds sb (t @ [b])" by blast
  with s(1) assms show ?thesis by (auto simp: looking_def scanning_def lexes_def same_token_def)
qed

lemma looks_unget:
  assumes "looks lx t cur e c"
  shows "\<exists>lx'. lex_unget c lx = Inr lx' \<and> holds lx' t (if cur \<noteq> [] \<and> hd cur = 0 then tl cur else cur) e \<and>
    same_token lx lx'"
proof (cases cur)
  case Nil
  with assms show ?thesis by (auto simp: looking_def lexes_def lex_unget_def stream_unget_mark)
next
  case (Cons b bs)
  with assms have s: "c = sint b" "stream_holds left valid get (l_stream lx) bs e" "last_read (l_stream lx) b"
    by (auto simp: looking_def lexes_def)
  from stream_unget_spec[OF s(2,3)] obtain s' where "stream_unget (sint b) (l_stream lx) = Inr s'"
    "stream_holds left valid get s' (if b = 0 then bs else b # bs) e" by blast
  with assms s Cons show ?thesis by (auto simp: lex_unget_def looking_def lexes_def same_token_def)
qed

lemma looks_end: "looks lx t cur e c \<Longrightarrow> end_mark e"
  by (cases cur) (auto simp: looking_def holds_end)

lemma looks_class:
  "looks lx t cur e c \<Longrightarrow> l_isdigit c \<longleftrightarrow> cur \<noteq> [] \<and> is_digit (hd cur)"
  by (cases cur) (auto simp: looking_def dest: holds_end)

lemma scans_class:
  assumes "scans lx t cur e c"
  shows "l_isdigit c \<longleftrightarrow> cur \<noteq> [] \<and> is_digit (hd cur)"
    and "l_isalpha c \<longleftrightarrow> cur \<noteq> [] \<and> is_alpha (hd cur)"
    and "numeral n < (128 :: int) \<Longrightarrow> c = numeral n \<longleftrightarrow> cur \<noteq> [] \<and> hd cur = numeral n"
  using scans_end[OF assms] assms by (cases cur; auto simp: scanning_def)+

end

section \<open>Numbers\<close>

text \<open>The grammar, as functions that split off the longest number part; \<open>None\<close> is an invalid
  number.\<close>

definition split_sign :: "byte list \<Rightarrow> byte list \<times> byte list" where
  "split_sign cur = (if cur \<noteq> [] \<and> hd cur = 45 then ([45], tl cur) else ([], cur))"

definition int_part :: "byte list \<Rightarrow> (byte list \<times> byte list) option" where
  "int_part cur =
     (let (s, r) = split_sign cur in
      if r = [] \<or> \<not> is_digit (hd r) then None
      else if hd r = 48 then (if tl r \<noteq> [] \<and> is_digit (hd (tl r)) then None else Some (s @ [48], tl r))
      else Some (s @ takeWhile is_digit r, dropWhile is_digit r))"

definition frac_part :: "byte list \<Rightarrow> (byte list \<times> byte list) option" where
  "frac_part cur =
     (if cur = [] \<or> hd cur \<noteq> 46 then Some ([], cur)
      else if tl cur = [] \<or> \<not> is_digit (hd (tl cur)) then None
      else Some (46 # takeWhile is_digit (tl cur), dropWhile is_digit (tl cur)))"

definition exp_part :: "byte list \<Rightarrow> (byte list \<times> byte list) option" where
  "exp_part cur =
     (if cur = [] \<or> hd cur \<noteq> 69 \<and> hd cur \<noteq> 101 then Some ([], cur)
      else let x = hd cur; r = tl cur;
             (s, r) = (if r \<noteq> [] \<and> (hd r = 43 \<or> hd r = 45) then ([hd r], tl r) else ([], r))
        in if r = [] \<or> \<not> is_digit (hd r) then None
           else Some (x # s @ takeWhile is_digit r, dropWhile is_digit r))"

context byte_source
begin

text \<open>What is left over when a number is invalid does not matter.\<close>

definition gives_up :: "'d lex_t \<Rightarrow> byte list \<Rightarrow> int \<Rightarrow> bool" where
  "gives_up lx cur e \<longleftrightarrow> (\<exists>t bs. holds lx t bs e \<and> length bs \<le> length cur)"

lemma gives_upI:
  assumes "scans lx t cur e c" "length cur \<le> length cur0"
  shows "\<exists>lx'. lex_unget_unsave c lx = Inr lx' \<and> gives_up lx' cur0 e \<and> same_token lx lx'"
proof -
  from scans_unget[OF assms(1)] obtain lx' where "lex_unget_unsave c lx = Inr lx'"
    "holds lx' t (if cur \<noteq> [] \<and> hd cur = 0 then tl cur else cur) e" "same_token lx lx'" by blast
  moreover have "length (if cur \<noteq> [] \<and> hd cur = 0 then tl cur else cur) \<le> length cur0" using assms(2) by auto
  ultimately show ?thesis unfolding gives_up_def by blast
qed

lemma scan_int_part_spec:
  assumes "scans lx [] cur e c" "length cur < n"
  shows "\<exists>r lx'. scan_int_part n c lx = Inr (r, lx') \<and> same_token lx lx' \<and>
    (case int_part cur of None \<Rightarrow> r = None \<and> gives_up lx' cur e
     | Some (t, cur') \<Rightarrow> \<exists>c'. r = Some c' \<and> scans lx' t cur' e c')"
proof -
  obtain s r where sr: "split_sign cur = (s, r)" by (cases "split_sign cur")
  have len: "length r \<le> length cur" using sr by (auto simp: split_sign_def split: if_splits)
  have "\<exists>c1 lx1. (if c = ch CHR ''-'' then lex_get_save lx else Inr (c, lx)) = Inr (c1, lx1) \<and> scans lx1 s r e c1 \<and>
      same_token lx lx1"
  proof (cases "cur \<noteq> [] \<and> hd cur = 45")
    case True
    then obtain bs where cur: "cur = 45 # bs" by (cases cur) auto
    with sr have "s = [45]" "r = bs" by (simp_all add: split_sign_def)
    with scans_advance[of lx "[]" 45 bs e c] assms(1) cur scans_class(3)[OF assms(1), of "num.Bit1 (num.Bit0 (num.Bit1 (num.Bit1 (num.Bit0 num.One))))"]
    show ?thesis by auto
  next
    case False
    with sr have "s = []" "r = cur" by (auto simp: split_sign_def)
    with False assms(1) scans_class(3)[OF assms(1), of "num.Bit1 (num.Bit0 (num.Bit1 (num.Bit1 (num.Bit0 num.One))))"]
    show ?thesis by auto
  qed
  then obtain c1 lx1 where 1: "(if c = ch CHR ''-'' then lex_get_save lx else Inr (c, lx)) = Inr (c1, lx1)"
    "scans lx1 s r e c1" "same_token lx lx1" by blast
  note cls = scans_class[OF 1(2)]
  have c48: "c1 = 48 \<longleftrightarrow> r \<noteq> [] \<and> hd r = 48" by (rule cls(3)) simp
  show ?thesis
  proof (cases "r = [] \<or> \<not> is_digit (hd r)")
    case True
    then have "c1 \<noteq> 48" using c48 by (auto simp: is_digit_def)
    moreover have "int_part cur = None" using sr True by (simp add: int_part_def)
    moreover obtain lx' where "lex_unget_unsave c1 lx1 = Inr lx'" "gives_up lx' cur e" "same_token lx1 lx'"
      using gives_upI[OF 1(2) len] by blast
    ultimately show ?thesis using True 1 cls(1) same_token_trans[of lx lx1 lx']
      by (auto simp: scan_int_part_def)
  next
    case False
    then obtain b bs where r: "r = b # bs" by (cases r) auto
    from scans_advance[OF 1(2)[unfolded r]] obtain c2 lx2 where 2: "lex_get_save lx1 = Inr (c2, lx2)"
      "scans lx2 (s @ [b]) bs e c2" "same_token lx1 lx2" by blast
    have t2: "same_token lx lx2" using 1(3) 2(3) by (rule same_token_trans)
    show ?thesis
    proof (cases "b = 48")
      case True
      show ?thesis
      proof (cases "bs \<noteq> [] \<and> is_digit (hd bs)")
        case d: True
        have "length bs \<le> length cur" using len r by simp
        from gives_upI[OF 2(2) this] obtain lx' where "lex_unget_unsave c2 lx2 = Inr lx'" "gives_up lx' cur e"
          "same_token lx2 lx'" by blast
        with d 1(1) 2(1) True c48 r sr False scans_class(1)[OF 2(2)] same_token_trans[OF t2, of lx'] show ?thesis
          by (auto simp: scan_int_part_def int_part_def)
      next
        case d: False
        with 1(1) 2 True c48 r sr False scans_class(1)[OF 2(2)] t2 show ?thesis
          by (auto simp: scan_int_part_def int_part_def)
      qed
    next
      case b: False
      have "length bs < n" using len r assms(2) by simp
      from skip_digits_spec[OF 2(2) this] obtain c' lx' where "skip_digits n c2 lx2 = Inr (c', lx')"
        "scans lx' ((s @ [b]) @ takeWhile is_digit bs) (dropWhile is_digit bs) e c'" "same_token lx2 lx'" by blast
      with b 1(1) 2(1) c48 r sr False cls(1) same_token_trans[OF t2, of lx'] show ?thesis
        by (auto simp: scan_int_part_def int_part_def)
    qed
  qed
qed

end

definition ungot :: "byte list \<Rightarrow> byte list" where
  "ungot cur = (if cur \<noteq> [] \<and> hd cur = 0 then tl cur else cur)"

lemma length_ungot: "length (ungot cur) \<le> length cur"
  by (simp add: ungot_def)

lemma ungot_nonzero [simp]: "b \<noteq> 0 \<Longrightarrow> ungot (b # bs) = b # bs" "ungot [] = []"
  by (simp_all add: ungot_def)

definition all_digits :: "byte list \<Rightarrow> bool" where
  "all_digits ds \<longleftrightarrow> ds \<noteq> [] \<and> (\<forall>d \<in> set ds. is_digit d)"

definition signed_digits :: "bool \<Rightarrow> byte list \<Rightarrow> byte list" where
  "signed_digits neg ds = (if neg then 45 # ds else ds)"

lemma all_digits_takeWhile: "r \<noteq> [] \<Longrightarrow> is_digit (hd r) \<Longrightarrow> all_digits (takeWhile is_digit r)"
  by (cases r) (auto simp: all_digits_def dest: set_takeWhileD)

lemma int_part_digits:
  assumes "int_part cur = Some (t, r)"
  shows "\<exists>neg ds. all_digits ds \<and> t = signed_digits neg ds \<and> cur = t @ r \<and> (hd ds \<noteq> 48 \<longrightarrow> r = [] \<or> \<not> is_digit (hd r))"
proof -
  obtain s r0 where sr: "split_sign cur = (s, r0)" by (cases "split_sign cur")
  have s: "s = [] \<or> s = [45]" "cur = s @ r0" using sr by (cases cur; auto simp: split_sign_def split: if_splits)+
  have d48: "is_digit 48" by (simp add: is_digit_def)
  have hd_tw: "hd (takeWhile is_digit r0) = hd r0" if "r0 \<noteq> []" "is_digit (hd r0)" using that by (cases r0) auto
  have dw: "dropWhile is_digit r0 = [] \<or> \<not> is_digit (hd (dropWhile is_digit r0))" using hd_dropWhile[of is_digit r0] by blast
  show ?thesis
  proof (cases "hd r0 = 48")
    case True
    with assms sr have "t = s @ [48]" "r = tl r0" "r0 \<noteq> []" by (auto simp: int_part_def split: if_splits)
    with s True d48 show ?thesis
      by (intro exI[of _ "s = [45]"] exI[of _ "[48]"]) (cases r0; auto simp: all_digits_def signed_digits_def)
  next
    case False
    with assms sr have t: "t = s @ takeWhile is_digit r0" "r = dropWhile is_digit r0" "r0 \<noteq> []" "is_digit (hd r0)"
      by (auto simp: int_part_def split: if_splits)
    then have "all_digits (takeWhile is_digit r0)" by (intro all_digits_takeWhile)
    with s t dw show ?thesis
      by (intro exI[of _ "s = [45]"] exI[of _ "takeWhile is_digit r0"]) (auto simp: signed_digits_def)
  qed
qed

lemma scan_sign_digits:
  assumes "all_digits ds"
  shows "scan_sign (signed_digits neg ds @ r) = (neg, ds @ r)"
proof -
  obtain d ds' where "ds = d # ds'" "is_digit d" using assms by (cases ds) (auto simp: all_digits_def)
  moreover from this have "d \<noteq> 45" "d \<noteq> 43" by (auto simp: is_digit_def)
  ultimately show ?thesis by (simp add: signed_digits_def)
qed

lemma takeWhile_digits:
  assumes "all_digits ds" "r = [] \<or> \<not> is_digit (hd r)"
  shows "takeWhile is_digit (ds @ r) = ds" "dropWhile is_digit (ds @ r) = r"
proof -
  have "takeWhile is_digit r = []" "dropWhile is_digit r = r" using assms(2) by (cases r; auto)+
  then show "takeWhile is_digit (ds @ r) = ds" "dropWhile is_digit (ds @ r) = r"
    using assms(1) by (auto simp: all_digits_def)
qed

lemma strtoll_digits:
  assumes "all_digits ds"
  shows "strtoll (signed_digits neg ds) = (let v = (if neg then - int (digits_val ds) else int (digits_val ds)) in
    (max (- (2 ^ 63)) (min (2 ^ 63 - 1) v), length (signed_digits neg ds), v < - (2 ^ 63) \<or> 2 ^ 63 - 1 < v))"
proof -
  have "ds \<noteq> []" using assms by (simp add: all_digits_def)
  moreover have sc: "scan_sign (signed_digits neg ds) = (neg, ds)" using scan_sign_digits[OF assms, of neg "[]"] by simp
  moreover have tw: "takeWhile is_digit ds = ds" using takeWhile_digits[OF assms, of "[]"] by simp
  moreover have "length ds \<le> length (signed_digits neg ds)" by (simp add: signed_digits_def)
  ultimately show ?thesis unfolding strtoll_def sc Let_def split tw by simp
qed

text \<open>The fraction and the exponent that follow the digits of a number.\<close>

definition frac_text :: "byte list \<Rightarrow> bool" where
  "frac_text f \<longleftrightarrow> f = [] \<or> hd f = 46 \<and> all_digits (tl f)"

definition exp_text :: "byte list \<Rightarrow> bool" where
  "exp_text x \<longleftrightarrow> x = [] \<or> (hd x = 69 \<or> hd x = 101) \<and> (\<exists>s ds. tl x = s @ ds \<and> all_digits ds \<and> (s = [] \<or> s = [43] \<or> s = [45]))"

lemma frac_part_text:
  assumes "frac_part cur = Some (f, r)"
  shows "frac_text f \<and> cur = f @ r \<and> (f = [] \<longrightarrow> r = cur) \<and> (f \<noteq> [] \<longrightarrow> r = [] \<or> \<not> is_digit (hd r))"
proof (cases "cur = [] \<or> hd cur \<noteq> 46")
  case True
  with assms show ?thesis by (auto simp: frac_part_def frac_text_def)
next
  case False
  with assms have "f = 46 # takeWhile is_digit (tl cur)" "r = dropWhile is_digit (tl cur)" "tl cur \<noteq> []" "is_digit (hd (tl cur))"
    by (auto simp: frac_part_def split: if_splits)
  with False all_digits_takeWhile[of "tl cur"] hd_dropWhile[of is_digit "tl cur"] show ?thesis
    by (cases cur) (auto simp: frac_text_def)
qed

lemma exp_part_text:
  assumes "exp_part cur = Some (x, r)"
  shows "exp_text x \<and> cur = x @ r"
proof (cases "cur = [] \<or> hd cur \<noteq> 69 \<and> hd cur \<noteq> 101")
  case True
  with assms show ?thesis by (auto simp: exp_part_def exp_text_def)
next
  case False
  then obtain b bs where cur: "cur = b # bs" "b = 69 \<or> b = 101" by (cases cur) auto
  define sg where "sg = (if bs \<noteq> [] \<and> (hd bs = 43 \<or> hd bs = 45) then ([hd bs], tl bs) else ([], bs))"
  obtain s q where sq: "sg = (s, q)" by (cases sg)
  have s: "bs = s @ q" "s = [] \<or> s = [43] \<or> s = [45]" using sq by (cases bs; auto simp: sg_def split: if_splits)+
  from assms cur sq[unfolded sg_def] have "x = b # s @ takeWhile is_digit q" "r = dropWhile is_digit q" "q \<noteq> []" "is_digit (hd q)"
    by (auto simp: exp_part_def Let_def split: if_splits)
  with cur s all_digits_takeWhile[of q] show ?thesis by (auto simp: exp_text_def)
qed

lemma scan_exponent_text:
  assumes "exp_text x"
  shows "snd (scan_exponent x) = length x"
proof (cases x)
  case (Cons b bs)
  with assms obtain s ds where b: "b = 69 \<or> b = 101" and s: "bs = s @ ds" "all_digits ds" "s = [] \<or> s = [43] \<or> s = [45]"
    by (auto simp: exp_text_def)
  have sc: "scan_sign bs = (s = [45], ds)"
    using s(3) scan_sign_digits[OF s(2), of False "[]"] unfolding s(1) by (auto simp: signed_digits_def)
  have tw: "takeWhile is_digit ds = ds" using takeWhile_digits[OF s(2), of "[]"] by simp
  have ne: "ds \<noteq> []" using s(2) by (simp add: all_digits_def)
  show ?thesis
    unfolding scan_exponent_def Let_def Cons list.sel sc split tw using b s(1) ne by auto
qed (simp add: scan_exponent_def)

lemma exp_text_hd: "exp_text x \<Longrightarrow> x = [] \<or> \<not> is_digit (hd x) \<and> hd x \<noteq> 46"
  by (auto simp: exp_text_def is_digit_def)

lemma frac_text_hd: "frac_text f \<Longrightarrow> f = [] \<or> f = 46 # tl f \<and> all_digits (tl f)"
  by (cases f) (auto simp: frac_text_def)

lemma strtod_text:
  assumes ds: "all_digits ds" and f: "frac_text f" and x: "exp_text x"
  shows "\<exists>v er. strtod (signed_digits neg ds @ f @ x) = (v, length (signed_digits neg ds @ f @ x), er)"
proof -
  let ?t = "signed_digits neg ds @ f @ x"
  have sc: "scan_sign ?t = (neg, ds @ f @ x)" by (rule scan_sign_digits[OF ds])
  have d46: "\<not> is_digit 46" by (simp add: is_digit_def)
  have "f @ x = [] \<or> \<not> is_digit (hd (f @ x))" using frac_text_hd[OF f] exp_text_hd[OF x] d46 by (cases f) auto
  note tw = takeWhile_digits[OF ds this]
  have ne: "ds \<noteq> []" using ds by (simp add: all_digits_def)
  have r2: "(if f @ x \<noteq> [] \<and> hd (f @ x) = 46 \<and> (ds \<noteq> [] \<or> fp \<noteq> []) then dropWhile is_digit (tl (f @ x)) else f @ x) = x" for fp :: "byte list"
  proof (cases f)
    case Nil
    with exp_text_hd[OF x] show ?thesis by auto
  next
    case (Cons a g)
    then have "a = 46" "all_digits g" using frac_text_hd[OF f] by auto
    moreover have "x = [] \<or> \<not> is_digit (hd x)" using exp_text_hd[OF x] by auto
    ultimately show ?thesis using Cons ne takeWhile_digits(2)[of g x] by simp
  qed
  obtain ex n where e: "scan_exponent x = (ex, n)" by (cases "scan_exponent x")
  with scan_exponent_text[OF x] have "n = length x" by simp
  moreover have "length x \<le> length ?t" by simp
  ultimately show ?thesis
    unfolding strtod_def sc Let_def split tw r2 e using ne by auto
qed

lemma jsonp_strtod_text:
  assumes "all_digits ds" "frac_text f" "exp_text x"
  shows "\<exists>r. jsonp_strtod (signed_digits neg ds @ f @ x) = Inr r"
  using strtod_text[OF assms, of neg] by (auto simp: jsonp_strtod_def)

context byte_source
begin

lemma scan_fraction_spec:
  assumes "scans lx t cur e c" "length cur < n"
  shows "\<exists>r lx'. scan_fraction n c lx = Inr (r, lx') \<and> same_token lx lx' \<and>
    (case frac_part cur of None \<Rightarrow> r = None \<and> gives_up lx' cur e
     | Some (f, cur') \<Rightarrow> \<exists>c'. r = Some c' \<and> scans lx' (t @ f) cur' e c')"
proof -
  have c46: "c = 46 \<longleftrightarrow> cur \<noteq> [] \<and> hd cur = 46" by (rule scans_class(3)[OF assms(1)]) simp
  show ?thesis
  proof (cases "cur \<noteq> [] \<and> hd cur = 46")
    case False
    with c46 assms(1) show ?thesis by (auto simp: scan_fraction_def frac_part_def)
  next
    case True
    then obtain bs where cur: "cur = 46 # bs" by (cases cur) auto
    with assms(1) have "holds lx (t @ [46]) bs e" by (simp add: scanning_def)
    from lex_get_looks[OF this] obtain c1 lx1 where 1: "lex_get lx = Inr (c1, lx1)" "looks lx1 (t @ [46]) bs e c1"
      "same_token lx lx1" by blast
    show ?thesis
    proof (cases "bs \<noteq> [] \<and> is_digit (hd bs)")
      case False
      from looks_unget[OF 1(2)] obtain lx' where u: "lex_unget c1 lx1 = Inr lx'"
        "holds lx' (t @ [46]) (ungot bs) e" "same_token lx1 lx'" unfolding ungot_def by blast
      have "length (ungot bs) \<le> length cur" using length_ungot[of bs] cur by simp
      with u(2) have "gives_up lx' cur e" unfolding gives_up_def by blast
      with False 1 u cur c46 looks_class[OF 1(2)] same_token_trans[of lx lx1 lx'] show ?thesis
        by (auto simp: scan_fraction_def frac_part_def)
    next
      case d: True
      then obtain b r where bs: "bs = b # r" "is_digit b" by (cases bs) auto
      from looks_save[OF 1(2)[unfolded bs]] obtain lx2 where 2: "lex_save c1 lx1 = Inr lx2"
        "scans lx2 (t @ [46]) (b # r) e c1" "same_token lx1 lx2" by blast
      from scans_advance[OF 2(2)] obtain c3 lx3 where 3: "lex_get_save lx2 = Inr (c3, lx3)"
        "scans lx3 ((t @ [46]) @ [b]) r e c3" "same_token lx2 lx3" by blast
      have "length r < n" using assms(2) cur bs by simp
      from skip_digits_spec[OF 3(2) this] obtain c' lx' where 4: "skip_digits n c3 lx3 = Inr (c', lx')"
        "scans lx' (((t @ [46]) @ [b]) @ takeWhile is_digit r) (dropWhile is_digit r) e c'" "same_token lx3 lx'" by blast
      have "same_token lx lx'" using 1(3) 2(3) 3(3) 4(3) same_token_trans by blast
      with 1(1) 2(1) 3(1) 4 bs cur c46 looks_class[OF 1(2)] show ?thesis
        by (auto simp: scan_fraction_def frac_part_def)
    qed
  qed
qed

lemma scan_exponent_part_spec:
  assumes "scans lx t cur e c" "length cur < n"
  shows "\<exists>r lx'. scan_exponent_part n c lx = Inr (r, lx') \<and> same_token lx lx' \<and>
    (case exp_part cur of None \<Rightarrow> r = None \<and> gives_up lx' cur e
     | Some (x, cur') \<Rightarrow> \<exists>c'. r = Some c' \<and> scans lx' (t @ x) cur' e c')"
proof -
  have cE: "c = 69 \<longleftrightarrow> cur \<noteq> [] \<and> hd cur = 69" "c = 101 \<longleftrightarrow> cur \<noteq> [] \<and> hd cur = 101"
    by (rule scans_class(3)[OF assms(1)], simp)+
  show ?thesis
  proof (cases "cur = [] \<or> hd cur \<noteq> 69 \<and> hd cur \<noteq> 101")
    case True
    with cE assms(1) show ?thesis by (auto simp: scan_exponent_part_def exp_part_def)
  next
    case False
    then obtain x bs where cur: "cur = x # bs" "x = 69 \<or> x = 101" by (cases cur) auto
    with assms(1) have "scans lx t (x # bs) e c" by simp
    from scans_advance[OF this] obtain c1 lx1 where 1: "lex_get_save lx = Inr (c1, lx1)"
      "scans lx1 (t @ [x]) bs e c1" "same_token lx lx1" by blast
    have c1: "c1 = 43 \<longleftrightarrow> bs \<noteq> [] \<and> hd bs = 43" "c1 = 45 \<longleftrightarrow> bs \<noteq> [] \<and> hd bs = 45"
      by (rule scans_class(3)[OF 1(2)], simp)+
    define sg where "sg = (if bs \<noteq> [] \<and> (hd bs = 43 \<or> hd bs = 45) then ([hd bs], tl bs) else ([], bs))"
    obtain s q where sq: "sg = (s, q)" by (cases sg)
    have len: "length q \<le> length bs" using sq by (auto simp: sg_def split: if_splits)
    have "\<exists>c2 lx2. (if c1 = 43 \<or> c1 = 45 then lex_get_save lx1 else Inr (c1, lx1)) = Inr (c2, lx2) \<and>
        scans lx2 ((t @ [x]) @ s) q e c2 \<and> same_token lx1 lx2"
    proof (cases "bs \<noteq> [] \<and> (hd bs = 43 \<or> hd bs = 45)")
      case True
      then obtain b r where bs: "bs = b # r" by (cases bs) auto
      with True sq have "s = [b]" "q = r" by (auto simp: sg_def)
      with scans_advance[OF 1(2)[unfolded bs]] c1 True bs show ?thesis by auto
    next
      case False
      with sq have "s = []" "q = bs" by (auto simp: sg_def)
      with 1(2) c1 False show ?thesis by auto
    qed
    then obtain c2 lx2 where 2: "(if c1 = 43 \<or> c1 = 45 then lex_get_save lx1 else Inr (c1, lx1)) = Inr (c2, lx2)"
      "scans lx2 ((t @ [x]) @ s) q e c2" "same_token lx1 lx2" by blast
    have t2: "same_token lx lx2" using 1(3) 2(3) by (rule same_token_trans)
    note dig = scans_class(1)[OF 2(2)]
    have exp: "exp_part cur = (if q = [] \<or> \<not> is_digit (hd q) then None
        else Some (x # s @ takeWhile is_digit q, dropWhile is_digit q))"
      using cur sq[unfolded sg_def] by (auto simp: exp_part_def Let_def)
    show ?thesis
    proof (cases "q = [] \<or> \<not> is_digit (hd q)")
      case True
      have "length q \<le> length cur" using len cur by simp
      from gives_upI[OF 2(2) this] obtain lx' where "lex_unget_unsave c2 lx2 = Inr lx'" "gives_up lx' cur e"
        "same_token lx2 lx'" by blast
      with True exp 1(1) 2(1) cur(2) cE cur(1) dig same_token_trans[OF t2, of lx'] show ?thesis
        by (auto simp: scan_exponent_part_def)
    next
      case d: False
      then obtain b r where q: "q = b # r" "is_digit b" by (cases q) auto
      from scans_advance[OF 2(2)[unfolded q]] obtain c3 lx3 where 3: "lex_get_save lx2 = Inr (c3, lx3)"
        "scans lx3 (((t @ [x]) @ s) @ [b]) r e c3" "same_token lx2 lx3" by blast
      have "length r < n" using assms(2) cur q len by simp
      from skip_digits_spec[OF 3(2) this] obtain c' lx' where 4: "skip_digits n c3 lx3 = Inr (c', lx')"
        "scans lx' ((((t @ [x]) @ s) @ [b]) @ takeWhile is_digit r) (dropWhile is_digit r) e c'" "same_token lx3 lx'" by blast
      have "same_token lx lx'" using t2 3(3) 4(3) same_token_trans by blast
      with 1(1) 2(1) 3(1) 4 q exp cur cE dig show ?thesis
        by (auto simp: scan_exponent_part_def)
    qed
  qed
qed

end

definition lex_number :: "byte list \<Rightarrow> (bool \<times> byte list \<times> byte list) option" where
  "lex_number cur =
     (case int_part cur of None \<Rightarrow> None
      | Some (t, r) \<Rightarrow>
          if r = [] \<or> hd r \<notin> {46, 69, 101} then Some (False, t, r)
          else (case frac_part r of None \<Rightarrow> None
            | Some (f, r) \<Rightarrow> (case exp_part r of None \<Rightarrow> None
              | Some (x, r) \<Rightarrow> Some (True, t @ f @ x, r))))"

definition number_value :: "bool \<Rightarrow> byte list \<Rightarrow> (int \<times> lex_value) option" where
  "number_value real t =
     (if real then (case jsonp_strtod t of Inr (Some v) \<Rightarrow> Some (TOKEN_REAL, VReal v) | _ \<Rightarrow> None)
      else (let (v, _, erange) = strtoll t
        in if erange then None else Some (TOKEN_INTEGER, VInteger (word_of_int v))))"

lemma all_digits_nonzero: "all_digits ds \<Longrightarrow> 0 \<notin> set ds"
  by (auto simp: all_digits_def is_digit_def)

lemma number_text_nonzero:
  assumes "all_digits ds" "frac_text f" "exp_text x"
  shows "0 \<notin> set (signed_digits neg ds @ f @ x)"
proof -
  have "0 \<notin> set f" using frac_text_hd[OF assms(2)] all_digits_nonzero[of "tl f"] by (cases f) auto
  moreover have "0 \<notin> set x"
  proof (cases x)
    case (Cons b bs)
    with assms(3) have b: "b \<noteq> 0" and "\<exists>s ds'. bs = s @ ds' \<and> all_digits ds' \<and> (s = [] \<or> s = [43] \<or> s = [45])"
      by (auto simp: exp_text_def)
    then obtain s ds' where "bs = s @ ds'" "all_digits ds'" "s = [] \<or> s = [43] \<or> s = [45]" by blast
    with Cons b all_digits_nonzero[of ds'] show ?thesis by auto
  qed simp
  ultimately show ?thesis using all_digits_nonzero[OF assms(1)] by (auto simp: signed_digits_def)
qed

context byte_source
begin

lemma saved_cstr_spec:
  assumes "holds lx t bs e" "0 \<notin> set t"
  shows "saved_cstr lx = Inr t"
proof -
  from assms(1) have "sb_holds (l_saved_text lx) t" by (simp add: lexes_def)
  then obtain b where "sb_value (l_saved_text lx) = Some b" "block_cstr b = Inr (takeWhile (\<lambda>b. b \<noteq> 0) t)"
    by (rule saved_block)
  moreover have "takeWhile (\<lambda>b. b \<noteq> 0) t = t"
  proof (rule takeWhile_eq_all_conv[THEN iffD2], rule ballI)
    show "b \<noteq> 0" if "b \<in> set t" for b using that assms(2) by metis
  qed
  ultimately show ?thesis unfolding saved_cstr_def strbuffer_value_def by (metis need_simps(2) obind_Inr)
qed

lemma holds_error_set:
  assumes "holds lx t bs e"
  shows "\<exists>lx'. error_set msg lx = Inr lx' \<and> holds lx' t bs e \<and> same_token lx lx'"
proof -
  from assms have "sb_holds (l_saved_text lx) t" by (simp add: lexes_def)
  from error_set_returns[OF this, of msg] obtain er where "error_set msg lx = Inr (lx\<lparr>l_error := er\<rparr>)"
    "er = None \<longleftrightarrow> l_error lx = None" by metis
  with assms show ?thesis by (intro exI[of _ "lx\<lparr>l_error := er\<rparr>"]) (simp add: lexes_def same_token_def)
qed

lemma holds_token [simp]:
  "holds (lx\<lparr>l_token := k\<rparr>) t bs e \<longleftrightarrow> holds lx t bs e" "holds (lx\<lparr>l_value := v\<rparr>) t bs e \<longleftrightarrow> holds lx t bs e"
  by (simp_all add: lexes_def)

lemma scans_token [simp]: "scans (lx\<lparr>l_token := k\<rparr>) t cur e c \<longleftrightarrow> scans lx t cur e c"
  by (simp add: scanning_def split: list.split)

lemma scans_unget':
  assumes "scans lx t cur e c"
  shows "\<exists>lx'. lex_unget_unsave c lx = Inr lx' \<and> holds lx' t (ungot cur) e \<and> same_token lx lx'"
  using scans_unget[OF assms] by (simp add: ungot_def)

lemma scan_integer_spec:
  assumes "scans lx t cur e c" "l_token lx = TOKEN_INVALID" "all_digits ds" "t = signed_digits neg ds"
  shows "\<exists>q lx'. scan_integer c lx = Inr (q, lx') \<and> holds lx' t (ungot cur) e \<and>
    (case number_value False t of None \<Rightarrow> l_token lx' = TOKEN_INVALID
     | Some (k, v) \<Rightarrow> l_token lx' = k \<and> l_value lx' = v)"
proof -
  from scans_unget'[OF assms(1)] obtain lx1 where 1: "lex_unget_unsave c lx = Inr lx1"
    "holds lx1 t (ungot cur) e" "same_token lx lx1" by blast
  have "0 \<notin> set t" using all_digits_nonzero[OF assms(3)] assms(4) by (auto simp: signed_digits_def)
  note tx = saved_cstr_spec[OF 1(2) this]
  obtain v er where st: "strtoll t = (v, length t, er)"
    using strtoll_digits[OF assms(3), of neg] assms(4) by (simp add: Let_def)
  have len: "unat (sb_length (l_saved_text lx1)) = length t" using 1(2) by (simp add: lexes_def sb_holds_def)
  show ?thesis
  proof (cases er)
    case False
    with 1 tx st len show ?thesis by (auto simp: scan_integer_def number_value_def)
  next
    case True
    from holds_error_set[OF 1(2)] obtain lx' where
      "error_set (if v < 0 then cstr ''too big negative integer'' else cstr ''too big integer'') lx1 = Inr lx'"
      "holds lx' t (ungot cur) e" "same_token lx1 lx'" by blast
    with 1 tx st True assms(2) show ?thesis
      by (auto simp: scan_integer_def number_value_def same_token_def simp del: cstr_Cons)
  qed
qed

lemma scan_real_spec:
  assumes "scans lx t cur e c" "l_token lx = TOKEN_INVALID"
    and t: "all_digits ds" "frac_text f" "exp_text x" "t = signed_digits neg ds @ f @ x"
  shows "\<exists>q lx'. scan_real c lx = Inr (q, lx') \<and> holds lx' t (ungot cur) e \<and>
    (case number_value True t of None \<Rightarrow> l_token lx' = TOKEN_INVALID
     | Some (k, v) \<Rightarrow> l_token lx' = k \<and> l_value lx' = v)"
proof -
  from scans_unget'[OF assms(1)] obtain lx1 where 1: "lex_unget_unsave c lx = Inr lx1"
    "holds lx1 t (ungot cur) e" "same_token lx lx1" by blast
  have "0 \<notin> set t" using number_text_nonzero[OF t(1-3)] t(4) by simp
  note tx = saved_cstr_spec[OF 1(2) this]
  from jsonp_strtod_text[OF t(1-3), of neg] t(4) obtain r where r: "jsonp_strtod t = Inr r" by auto
  show ?thesis
  proof (cases r)
    case (Some v)
    with 1 tx r show ?thesis by (auto simp: scan_real_def number_value_def)
  next
    case None
    from holds_error_set[OF 1(2)] obtain lx' where
      "error_set (cstr ''real number overflow'') lx1 = Inr lx'"
      "holds lx' t (ungot cur) e" "same_token lx1 lx'" by blast
    with 1 tx r None assms(2) show ?thesis
      by (auto simp: scan_real_def number_value_def same_token_def simp del: cstr_Cons)
  qed
qed

lemma scans_in:
  assumes "scans lx t cur e c"
  shows "c \<noteq> ch CHR ''.'' \<and> c \<noteq> ch CHR ''E'' \<and> c \<noteq> ch CHR ''e'' \<longleftrightarrow> cur = [] \<or> hd cur \<notin> {46, 69, 101}"
proof -
  have "c = 46 \<longleftrightarrow> cur \<noteq> [] \<and> hd cur = 46" "c = 69 \<longleftrightarrow> cur \<noteq> [] \<and> hd cur = 69" "c = 101 \<longleftrightarrow> cur \<noteq> [] \<and> hd cur = 101"
    by (rule scans_class(3)[OF assms], simp)+
  then show ?thesis by auto
qed

lemma lex_scan_number_spec:
  assumes "scans lx [] cur e c" "length cur < n"
  shows "\<exists>q lx'. lex_scan_number n c lx = Inr (q, lx') \<and>
    (case lex_number cur of None \<Rightarrow> l_token lx' = TOKEN_INVALID \<and> gives_up lx' cur e
     | Some (real, t, r) \<Rightarrow> holds lx' t (ungot r) e \<and>
        (case number_value real t of None \<Rightarrow> l_token lx' = TOKEN_INVALID
         | Some (k, v) \<Rightarrow> l_token lx' = k \<and> l_value lx' = v))"
proof -
  let ?lx = "lx\<lparr>l_token := TOKEN_INVALID\<rparr>"
  have "scans ?lx [] cur e c" using assms(1) by simp
  from scan_int_part_spec[OF this assms(2)] obtain q1 lx1 where 1: "scan_int_part n c ?lx = Inr (q1, lx1)"
    "same_token ?lx lx1" "case int_part cur of None \<Rightarrow> q1 = None \<and> gives_up lx1 cur e
     | Some (t, cur') \<Rightarrow> \<exists>c'. q1 = Some c' \<and> scans lx1 t cur' e c'" by blast
  have tok1: "l_token lx1 = TOKEN_INVALID" using 1(2) by (simp add: same_token_def)
  show ?thesis
  proof (cases "int_part cur")
    case None
    with 1 tok1 show ?thesis by (auto simp: lex_scan_number_def Let_def lex_number_def)
  next
    case (Some p)
    obtain t r where p: "p = (t, r)" by (cases p)
    with Some 1(3) obtain c1 where c1: "q1 = Some c1" "scans lx1 t r e c1" by auto
    from int_part_digits[of cur t r] Some p obtain neg ds where ds: "all_digits ds" "t = signed_digits neg ds" "cur = t @ r" by blast
    note inset = scans_in[OF c1(2)]
    have lr: "length r < n" using ds(3) assms(2) by simp
    show ?thesis
    proof (cases "r = [] \<or> hd r \<notin> {46, 69, 101}")
      case True
      with inset have "lex_scan_number n c lx = scan_integer c1 lx1"
        using 1(1) c1(1) by (auto simp: lex_scan_number_def Let_def)
      moreover have "lex_number cur = Some (False, t, r)" using True Some p by (auto simp: lex_number_def)
      ultimately show ?thesis using scan_integer_spec[OF c1(2) tok1 ds(1,2)] by simp
    next
      case False
      from scan_fraction_spec[OF c1(2) lr] obtain q2 lx2 where 2: "scan_fraction n c1 lx1 = Inr (q2, lx2)"
        "same_token lx1 lx2" "case frac_part r of None \<Rightarrow> q2 = None \<and> gives_up lx2 r e
         | Some (f, cur') \<Rightarrow> \<exists>c'. q2 = Some c' \<and> scans lx2 (t @ f) cur' e c'" by blast
      have tok2: "l_token lx2 = TOKEN_INVALID" using 2(2) tok1 by (simp add: same_token_def)
      have mono: "gives_up x r e \<Longrightarrow> gives_up x cur e" for x
        using ds(3) unfolding gives_up_def by fastforce
      have run: "lex_scan_number n c lx = obind (scan_fraction n c1 lx1) (\<lambda>(r, lx).
            case r of None \<Rightarrow> Inr (-1, lx)
            | Some c \<Rightarrow> obind (scan_exponent_part n c lx) (\<lambda>(r, lx).
                case r of None \<Rightarrow> Inr (-1, lx) | Some c \<Rightarrow> scan_real c lx))"
        using False inset 1(1) c1(1) unfolding lex_scan_number_def Let_def by (simp only: obind_Inr split option.case if_False refl)
      show ?thesis
      proof (cases "frac_part r")
        case None
        with 2 have "q2 = None" "gives_up lx2 r e" by auto
        with run 2(1) tok2 mono None Some p False show ?thesis by (auto simp: lex_number_def)
      next
        case fr: (Some p2)
        obtain f r2 where p2: "p2 = (f, r2)" by (cases p2)
        with fr 2(3) obtain c2 where c2: "q2 = Some c2" "scans lx2 (t @ f) r2 e c2" by auto
        from frac_part_text[of r f r2] fr p2 have f: "frac_text f" "r = f @ r2" by auto
        have lr2: "length r2 < n" using lr f(2) by simp
        from scan_exponent_part_spec[OF c2(2) lr2] obtain q3 lx3 where 3: "scan_exponent_part n c2 lx2 = Inr (q3, lx3)"
          "same_token lx2 lx3" "case exp_part r2 of None \<Rightarrow> q3 = None \<and> gives_up lx3 r2 e
           | Some (x, cur') \<Rightarrow> \<exists>c'. q3 = Some c' \<and> scans lx3 ((t @ f) @ x) cur' e c'" by blast
        have tok3: "l_token lx3 = TOKEN_INVALID" using 3(2) tok2 by (simp add: same_token_def)
        have mono2: "gives_up x r2 e \<Longrightarrow> gives_up x cur e" for x
          using ds(3) f(2) unfolding gives_up_def by fastforce
        show ?thesis
        proof (cases "exp_part r2")
          case None
          with 3 have "q3 = None" "gives_up lx3 r2 e" by auto
          with run 2(1) c2(1) 3(1) tok3 mono2 None fr p2 Some p False show ?thesis by (auto simp: lex_number_def)
        next
          case ex: (Some p3)
          obtain x r3 where p3: "p3 = (x, r3)" by (cases p3)
          with ex 3(3) obtain c3 where c3: "q3 = Some c3" "scans lx3 (t @ f @ x) r3 e c3" by auto
          from exp_part_text[of r2 x r3] ex p3 have x: "exp_text x" by auto
          have "t @ f @ x = signed_digits neg ds @ f @ x" using ds(2) by simp
          from scan_real_spec[OF c3(2) tok3 ds(1) f(1) x this] run 2(1) c2(1) 3(1) c3(1)
          have "\<exists>q lx'. lex_scan_number n c lx = Inr (q, lx') \<and> holds lx' (t @ f @ x) (ungot r3) e \<and>
            (case number_value True (t @ f @ x) of None \<Rightarrow> l_token lx' = TOKEN_INVALID
             | Some (k, v) \<Rightarrow> l_token lx' = k \<and> l_value lx' = v)" by simp
          moreover have "lex_number cur = Some (True, t @ f @ x, r3)"
            using False Some p fr p2 ex p3 by (simp add: lex_number_def)
          ultimately show ?thesis by simp
        qed
      qed
    qed
  qed
qed

end

end
