(* ===== verification/Json_Strings.thy ===== *)
theory Json_Strings
  imports Json_Lex Json_Dump
begin

text \<open>
  String literals: what \<open>lex_scan_string\<close> makes of the text behind the quote, and that it reads
  back what \<open>dump_string\<close> writes.
\<close>

section \<open>The items of a literal\<close>

datatype item = Plain byte | Simple byte | Unicode "byte list"

primrec render :: "item \<Rightarrow> byte list" where
  "render (Plain b) = [b]"
| "render (Simple b) = [92, b]"
| "render (Unicode ds) = 92 # 117 # ds"

definition simple_bytes :: "byte set" where
  "simple_bytes = {34, 92, 47, 98, 102, 110, 114, 116}"

primrec item_ok :: "item \<Rightarrow> bool" where
  "item_ok (Plain b) \<longleftrightarrow> b \<noteq> 34 \<and> b \<noteq> 92 \<and> 32 \<le> b"
| "item_ok (Simple b) \<longleftrightarrow> b \<in> simple_bytes"
| "item_ok (Unicode ds) \<longleftrightarrow> length ds = 4"

definition add_item :: "item \<Rightarrow> (item list \<times> byte list) option \<Rightarrow> (item list \<times> byte list) option" where
  "add_item i r = map_option (\<lambda>(is, q). (i # is, q)) r"

text \<open>The items up to the closing quote and what follows it; the four bytes of a \<open>\u\<close> escape are
  not looked at.\<close>

function items_of :: "byte list \<Rightarrow> (item list \<times> byte list) option" where
  "items_of cur =
     (case cur of [] \<Rightarrow> None
      | b # bs \<Rightarrow>
          if b = 34 then Some ([], bs)
          else if b < 32 then None
          else if b = 92
          then (case bs of [] \<Rightarrow> None
            | x # r \<Rightarrow>
                if x = 117 then add_item (Unicode (take 4 r)) (items_of (drop 4 r))
                else if x \<in> simple_bytes then add_item (Simple x) (items_of r)
                else None)
          else add_item (Plain b) (items_of bs))"
  by pat_completeness auto
termination by (relation "measure length") auto

declare items_of.simps [simp del]

lemma items_of_simps [simp]:
  "items_of [] = None"
  "items_of (34 # r) = Some ([], r)"
  "b \<noteq> 34 \<Longrightarrow> b \<noteq> 92 \<Longrightarrow> 32 \<le> b \<Longrightarrow> items_of (b # r) = add_item (Plain b) (items_of r)"
  "b \<noteq> 34 \<Longrightarrow> b < 32 \<Longrightarrow> items_of (b # r) = None"
  "items_of [92] = None"
  "items_of (92 # 117 # r) = add_item (Unicode (take 4 r)) (items_of (drop 4 r))"
  "x \<in> simple_bytes \<Longrightarrow> items_of (92 # x # r) = add_item (Simple x) (items_of r)"
  "x \<noteq> 117 \<Longrightarrow> x \<notin> simple_bytes \<Longrightarrow> items_of (92 # x # r) = None"
  by (subst items_of.simps, auto simp: simple_bytes_def)+

lemma items_of_ok:
  "items_of cur = Some (is, r) \<Longrightarrow> (\<forall>i \<in> set is. item_ok i) \<and> cur = concat (map render is) @ 34 # r"
proof (induction cur arbitrary: "is" r rule: items_of.induct)
  case (1 cur)
  show ?case
  proof (cases cur)
    case Nil
    with 1 show ?thesis by simp
  next
    case (Cons b bs)
    consider "b = 34" | "b \<noteq> 34" "b < 32" | "b = 92" | "b \<noteq> 34" "b \<noteq> 92" "32 \<le> b" by force
    then show ?thesis
    proof cases
      case 3
      show ?thesis
      proof (cases bs)
        case Nil
        with 3 1(4) Cons show ?thesis by simp
      next
        case bs: (Cons x r')
        consider "x = 117" | "x \<noteq> 117" "x \<in> simple_bytes" | "x \<noteq> 117" "x \<notin> simple_bytes" by blast
        then show ?thesis
        proof cases
          case 1
          with 3 bs Cons "1.prems" obtain is' where i: "items_of (drop 4 r') = Some (is', r)"
            "is = Unicode (take 4 r') # is'" by (auto simp: add_item_def)
          then have "drop 4 r' \<noteq> []" by auto
          then have "length (take 4 r') = 4" by simp
          moreover have "(\<forall>i \<in> set is'. item_ok i) \<and> drop 4 r' = concat (map render is') @ 34 # r"
            using "1.IH"(1)[OF Cons _ _ 3 bs 1 i(1)] 3 by simp
          moreover from this have "r' = take 4 r' @ concat (map render is') @ 34 # r" by (metis append_take_drop_id)
          ultimately show ?thesis using i(2) 3 1 Cons bs by (auto simp del: append_take_drop_id)
        next
          case 2
          with 3 bs Cons "1.prems" obtain is' where i: "items_of r' = Some (is', r)"
            "is = Simple x # is'" by (auto simp: add_item_def)
          with "1.IH"(2)[OF Cons _ _ 3 bs 2 i(1)] 2 3 Cons bs show ?thesis by auto
        next
          case 4: 3
          with 3 bs Cons "1.prems" show ?thesis by simp
        qed
      qed
    next
      case 4
      with Cons "1.prems" obtain is' where i: "items_of bs = Some (is', r)" "is = Plain b # is'" by (auto simp: add_item_def)
      with "1.IH"(3)[OF Cons _ _ _ i(1)] 4 Cons show ?thesis by auto
    qed (use Cons "1.prems" in auto)
  qed
qed

lemma items_of_render:
  "\<forall>i \<in> set is. item_ok i \<Longrightarrow> items_of (concat (map render is) @ 34 # r) = Some (is, r)"
proof (induction "is")
  case (Cons i "is")
  then show ?case by (cases i) (auto simp: add_item_def)
qed simp

lemma length_items_of: "items_of cur = Some (is, r) \<Longrightarrow> length r < length cur"
  using items_of_ok[of cur "is" r] by auto

section \<open>Scanning\<close>

lemma simple_chars: "(c :: int) \<in> {34, 92, ch CHR ''/'', ch CHR ''b'', ch CHR ''f'', ch CHR ''n'', ch CHR ''r'', ch CHR ''t''} \<longleftrightarrow>
    c = 34 \<or> c = 92 \<or> c = 47 \<or> c = 98 \<or> c = 102 \<or> c = 110 \<or> c = 114 \<or> c = 116"
  by auto

context byte_source
begin

lemma gives_up_mono: "gives_up lx a e \<Longrightarrow> length a \<le> length b \<Longrightarrow> gives_up lx b e"
  unfolding gives_up_def by (meson le_trans)

lemma scan_escape_digits_spec:
  "scans lx t cur e c \<Longrightarrow> \<exists>c' lx'. scan_escape_digits k c lx = Inr (Some c', lx') \<and>
     scans lx' (t @ take k cur) (drop k cur) e c' \<and> same_token lx lx'"
proof (induction k arbitrary: c lx t cur)
  case (Suc k)
  from scans_next[OF Suc.prems] obtain c1 lx1 where 1: "lex_get_save lx = Inr (c1, lx1)"
    "scans lx1 (t @ take 1 cur) (tl cur) e c1" "same_token lx lx1" by blast
  from Suc.IH[OF 1(2)] obtain c' lx' where "scan_escape_digits k c1 lx1 = Inr (Some c', lx')"
    "scans lx' ((t @ take 1 cur) @ take k (tl cur)) (drop k (tl cur)) e c'" "same_token lx1 lx'" by blast
  moreover have "take 1 cur @ take k (tl cur) = take (Suc k) cur" "drop k (tl cur) = drop (Suc k) cur"
    by (cases cur; simp)+
  ultimately show ?case using 1 same_token_trans[of lx lx1 lx'] by auto
qed auto

lemma scans_simple:
  assumes "scans lx t cur e c"
  shows "c \<in> {34, 92, ch CHR ''/'', ch CHR ''b'', ch CHR ''f'', ch CHR ''n'', ch CHR ''r'', ch CHR ''t''} \<longleftrightarrow>
    cur \<noteq> [] \<and> hd cur \<in> simple_bytes"
proof -
  have "c = 34 \<longleftrightarrow> cur \<noteq> [] \<and> hd cur = 34" "c = 92 \<longleftrightarrow> cur \<noteq> [] \<and> hd cur = 92" "c = 47 \<longleftrightarrow> cur \<noteq> [] \<and> hd cur = 47"
    "c = 98 \<longleftrightarrow> cur \<noteq> [] \<and> hd cur = 98" "c = 102 \<longleftrightarrow> cur \<noteq> [] \<and> hd cur = 102" "c = 110 \<longleftrightarrow> cur \<noteq> [] \<and> hd cur = 110"
    "c = 114 \<longleftrightarrow> cur \<noteq> [] \<and> hd cur = 114" "c = 116 \<longleftrightarrow> cur \<noteq> [] \<and> hd cur = 116"
    by (rule scans_class(3)[OF assms], simp)+
  then show ?thesis unfolding simple_chars simple_bytes_def by auto
qed

text \<open>The way out with an error message.\<close>

lemma fail_with:
  assumes "holds lx t bs e" "length bs \<le> length cur"
  shows "\<exists>lx'. obind (error_set msg lx) (\<lambda>lx. Inr (False, lx)) = Inr (False, lx') \<and> gives_up lx' cur e \<and> same_token lx lx'"
proof -
  from holds_error_set[OF assms(1)] obtain lx' where "error_set msg lx = Inr lx'" "holds lx' t bs e" "same_token lx lx'" by blast
  with assms(2) show ?thesis unfolding gives_up_def by auto
qed

definition scan_result :: "'d lex_t \<Rightarrow> byte list \<Rightarrow> byte list \<Rightarrow> int \<Rightarrow> (bool \<times> 'd lex_t) outcome \<Rightarrow> bool" where
  "scan_result lx t cur e r \<longleftrightarrow> (\<exists>closed lx'. r = Inr (closed, lx') \<and> same_token lx lx' \<and>
     (case items_of cur of None \<Rightarrow> \<not> closed \<and> gives_up lx' cur e
      | Some (is, q) \<Rightarrow> closed \<and> holds lx' (t @ concat (map render is) @ [34]) q e))"

lemma scan_result_fail:
  assumes "holds lx t' bs e" "length bs \<le> length cur" "items_of cur = None"
  shows "scan_result lx t cur e (obind (error_set msg lx) (\<lambda>lx. Inr (False, lx)))"
  using fail_with[OF assms(1,2), of msg] assms(3) unfolding scan_result_def by auto

lemma scan_result_item:
  assumes "scan_result lx1 (t @ render i) rest e r" "same_token lx lx1" "items_of cur = add_item i (items_of rest)"
    "length rest \<le> length cur"
  shows "scan_result lx t cur e r"
proof -
  from assms(1) obtain closed lx' where r: "r = Inr (closed, lx')" "same_token lx1 lx'"
    "case items_of rest of None \<Rightarrow> \<not> closed \<and> gives_up lx' rest e
     | Some (is, q) \<Rightarrow> closed \<and> holds lx' ((t @ render i) @ concat (map render is) @ [34]) q e"
    unfolding scan_result_def by blast
  have "same_token lx lx'" using assms(2) r(2) by (rule same_token_trans)
  with r assms(3) gives_up_mono[OF _ assms(4), of lx' e] show ?thesis
    unfolding scan_result_def by (cases "items_of rest") (auto simp: add_item_def)
qed

lemma scan_result_same: "scan_result lx1 t cur e r \<Longrightarrow> same_token lx lx1 \<Longrightarrow> scan_result lx t cur e r"
  unfolding scan_result_def using same_token_trans by blast

lemma scan_string_loop_spec:
  "scans lx t cur e c \<Longrightarrow> length cur < n \<Longrightarrow> scan_result lx t cur e (scan_string_loop n c lx)"
proof (induction cur arbitrary: n c lx t rule: length_induct)
  case (1 cur)
  note prem = 1(2) and IH = 1(1)[rule_format]
  obtain m where n: "n = Suc m" "length cur \<le> m" using 1(3) by (cases n) auto
  show ?case
  proof (cases cur)
    case Nil
    with prem have c: "c = e" "holds lx t [] e" "end_mark e" using scans_NilD holds_end by blast+
    show ?thesis
    proof (cases "e = STREAM_STATE_ERROR")
      case True
      have "gives_up lx cur e" using c(2) unfolding gives_up_def Nil by force
      with True c Nil n(1) show ?thesis unfolding scan_result_def
        by (intro exI[of _ False] exI[of _ lx]) (simp add: end_marks)
    next
      case False
      with c(3) have "e = STREAM_STATE_EOF" by (simp add: end_mark_def)
      with n(1) c(1) have "scan_string_loop n c lx =
          obind (error_set (cstr ''premature end of input'') lx) (\<lambda>lx. Inr (False, lx))" by (simp add: end_marks del: cstr_Cons)
      with scan_result_fail[OF c(2)] Nil show ?thesis by simp
    qed
  next
    case (Cons b bs)
    with prem have c: "c = sint b" "holds lx (t @ [b]) bs e" "c \<noteq> STREAM_STATE_EOF" "c \<noteq> STREAM_STATE_ERROR"
      using scans_ConsD by blast+
    have ctl: "0 \<le> c \<and> c \<le> 0x1F \<longleftrightarrow> b < 32"
      using sint_range[of 0 31 b] c(1) by (auto simp: word_less_def)
    have c34: "c = 34 \<longleftrightarrow> b = 34" and c92: "c = 92 \<longleftrightarrow> b = 92" using c(1) by simp_all
    have lm: "length bs < m" using n(2) Cons by simp
    consider "b = 34" | "b \<noteq> 34" "b < 32" | "b = 92" | "b \<noteq> 34" "b \<noteq> 92" "32 \<le> b" by force
    then show ?thesis
    proof cases
      case 1
      with n(1) c34 Cons c(2) show ?thesis unfolding scan_result_def
        by (intro exI[of _ True] exI[of _ lx]) simp
    next
      case 2
      from scans_unget'[OF prem] obtain lx1 where u: "lex_unget_unsave c lx = Inr lx1" "holds lx1 t (ungot cur) e" "same_token lx lx1" by blast
      have "scan_string_loop n c lx = obind (error_set (if c = 10 then cstr ''unexpected newline''
            else cstr ''control character 0x'' @ fmt_x c) lx1) (\<lambda>lx. Inr (False, lx))"
        using n(1) c34 2 c(3,4) ctl u(1) by (simp del: cstr_Cons)
      moreover have "items_of cur = None" using 2 Cons by simp
      ultimately show ?thesis
        using scan_result_same[OF scan_result_fail[OF u(2) length_ungot] u(3)] by simp
    next
      case 4
      then have "\<not> b < 32" by (simp add: not_less)
      with 4 have run: "scan_string_loop n c lx = obind (lex_get_save lx) (\<lambda>(c, lx). scan_string_loop m c lx)"
        unfolding n(1) scan_string_loop.simps ctl c34 c92 using c(3,4) by simp
      from scans_advance[OF prem[unfolded Cons]] obtain c1 lx1 where 1: "lex_get_save lx = Inr (c1, lx1)"
        "scans lx1 (t @ [b]) bs e c1" "same_token lx lx1" by blast
      from IH[OF _ 1(2) lm] Cons have "scan_result lx1 (t @ render (Plain b)) bs e (scan_string_loop m c1 lx1)" by simp
      from scan_result_item[OF this 1(3), of cur] run 1(1) 4 Cons show ?thesis by simp
    next
      case 3
      from scans_advance[OF prem[unfolded Cons]] obtain c1 lx1 where 1: "lex_get_save lx = Inr (c1, lx1)"
        "scans lx1 (t @ [92]) bs e c1" "same_token lx lx1" using 3 by blast
      have c117: "c1 = 117 \<longleftrightarrow> bs \<noteq> [] \<and> hd bs = 117" by (rule scans_class(3)[OF 1(2)]) simp
      note simple = scans_simple[OF 1(2)]
      have c92: "c = 92" using 3 c(1) by simp
      have run: "scan_string_loop n c lx = (if c1 = ch CHR ''u''
        then obind (lex_get_save lx1) (\<lambda>(c, lx).
          obind (scan_escape_digits 4 c lx) (\<lambda>(r, lx).
          case r of None \<Rightarrow> Inr (False, lx) | Some c \<Rightarrow> scan_string_loop m c lx))
        else if c1 \<in> {34, 92, ch CHR ''/'', ch CHR ''b'', ch CHR ''f'', ch CHR ''n'', ch CHR ''r'', ch CHR ''t''}
        then obind (lex_get_save lx1) (\<lambda>(c, lx). scan_string_loop m c lx)
        else obind (error_set (cstr ''invalid escape'') lx1) (\<lambda>lx. Inr (False, lx)))"
        unfolding n(1) scan_string_loop.simps c92 1(1) by (simp add: end_marks del: cstr_Cons ch_simps)
      consider "c1 = 117" | "c1 \<noteq> 117" "bs \<noteq> []" "hd bs \<in> simple_bytes" | "c1 \<noteq> 117" "bs = [] \<or> hd bs \<notin> simple_bytes" by blast
      then show ?thesis
      proof cases
        case a: 1
        then obtain r where bs: "bs = 117 # r" using c117 by (cases bs) auto
        from scans_advance[OF 1(2)[unfolded bs]] obtain c2 lx2 where 2: "lex_get_save lx1 = Inr (c2, lx2)"
          "scans lx2 ((t @ [92]) @ [117]) r e c2" "same_token lx1 lx2" by blast
        from scan_escape_digits_spec[OF 2(2), of 4] obtain c3 lx3 where d: "scan_escape_digits 4 c2 lx2 = Inr (Some c3, lx3)"
          "scans lx3 (((t @ [92]) @ [117]) @ take 4 r) (drop 4 r) e c3" "same_token lx2 lx3" by blast
        have "length (drop 4 r) < length cur" "length (drop 4 r) < m" using Cons bs lm by auto
        from IH[OF this(1) d(2) this(2)] have
          "scan_result lx3 (t @ render (Unicode (take 4 r))) (drop 4 r) e (scan_string_loop m c3 lx3)" by simp
        moreover have "same_token lx lx3" using 1(3) 2(3) d(3) same_token_trans by blast
        moreover have "items_of cur = add_item (Unicode (take 4 r)) (items_of (drop 4 r))" using Cons bs 3 by simp
        moreover have "scan_string_loop n c lx = scan_string_loop m c3 lx3" using run a 2(1) d(1) by simp
        ultimately show ?thesis using scan_result_item[of lx3 t "Unicode (take 4 r)" "drop 4 r" e _ lx cur] \<open>length (drop 4 r) < length cur\<close>
          by simp
      next
        case b: 2
        then obtain x r where bs: "bs = x # r" "x \<in> simple_bytes" by (cases bs) auto
        from scans_advance[OF 1(2)[unfolded bs]] obtain c2 lx2 where 2: "lex_get_save lx1 = Inr (c2, lx2)"
          "scans lx2 ((t @ [92]) @ [x]) r e c2" "same_token lx1 lx2" by blast
        have "length r < length cur" "length r < m" using Cons bs lm by auto
        from IH[OF this(1) 2(2) this(2)] have "scan_result lx2 (t @ render (Simple x)) r e (scan_string_loop m c2 lx2)" by simp
        moreover have "same_token lx lx2" using 1(3) 2(3) same_token_trans by blast
        moreover have "items_of cur = add_item (Simple x) (items_of r)" using Cons bs 3 by simp
        moreover have "scan_string_loop n c lx = scan_string_loop m c2 lx2"
          using run b 2(1) simple by (simp del: insert_iff)
        ultimately show ?thesis using scan_result_item[of lx2 t "Simple x" r e _ lx cur] \<open>length r < length cur\<close> by simp
      next
        case d: 3
        have "scan_string_loop n c lx = obind (error_set (cstr ''invalid escape'') lx1) (\<lambda>lx. Inr (False, lx))"
          using run d simple by (auto simp del: insert_iff cstr_Cons)
        moreover have "items_of cur = None"
        proof (cases bs)
          case (Cons x r)
          with d c117 have "x \<noteq> 117" "x \<notin> simple_bytes" by auto
          with Cons \<open>cur = b # bs\<close> 3 show ?thesis by simp
        qed (use Cons 3 in simp)
        moreover have "\<exists>t' bs'. holds lx1 t' bs' e \<and> length bs' \<le> length cur"
        proof (cases bs)
          case Nil
          with 1(2) scans_NilD show ?thesis by fastforce
        next
          case (Cons x r)
          with 1(2) scans_ConsD[of lx1 "t @ [92]" x r e c1] \<open>cur = b # bs\<close> show ?thesis by (intro exI[of _ "(t @ [92]) @ [x]"] exI[of _ r]) simp
        qed
        ultimately show ?thesis using scan_result_same[OF scan_result_fail 1(3)] by auto
      qed
    qed
  qed
qed

end

section \<open>Decoding\<close>

definition escape_digit :: "byte \<Rightarrow> int option" where
  "escape_digit b =
     (if is_digit b then Some (uint b - 48)
      else if 97 \<le> b \<and> b \<le> 122 then Some (uint b - 87)
      else if 65 \<le> b \<and> b \<le> 90 then Some (uint b - 55)
      else None)"

text \<open>The value of the digits, whatever letters they are; anything else fails the assertion.\<close>

fun escape_value :: "byte list \<Rightarrow> int \<Rightarrow> int outcome" where
  "escape_value [] v = Inr v"
| "escape_value (b # bs) v =
     (case escape_digit b of None \<Rightarrow> Inl Assert_Failed | Some d \<Rightarrow> escape_value bs (v * 16 + d))"

definition escaped_byte :: "byte \<Rightarrow> byte" where
  "escaped_byte b = (if b = 98 then 8 else if b = 102 then 12 else if b = 110 then 10 else if b = 114 then 13
     else if b = 116 then 9 else b)"

definition prepend :: "byte list \<Rightarrow> (byte list + byte list) outcome \<Rightarrow> (byte list + byte list) outcome" where
  "prepend bs r = obind r (\<lambda>x. Inr (case x of Inl msg \<Rightarrow> Inl msg | Inr t \<Rightarrow> Inr (bs @ t)))"

lemma prepend_simps [simp]:
  "prepend bs (Inl f) = Inl f" "prepend bs (Inr (Inl msg)) = Inr (Inl msg)" "prepend bs (Inr (Inr t)) = Inr (Inr (bs @ t))"
  by (simp_all add: prepend_def)

lemma prepend_append: "prepend (a @ b) r = prepend a (prepend b r)"
  by (cases r) (auto simp: prepend_def split: sum.split)

lemma prepend_Nil [simp]: "prepend [] r = r"
  by (cases r) (auto simp: prepend_def split: sum.split)

definition bad_surrogate :: "int \<Rightarrow> byte list" where
  "bad_surrogate v = cstr ''invalid Unicode '' @ [39, 92] @ cstr ''u'' @ fmt_04X v @ [39]"

definition bad_pair :: "int \<Rightarrow> int \<Rightarrow> byte list" where
  "bad_pair v w = cstr ''invalid Unicode '' @ [39, 92] @ cstr ''u'' @ fmt_04X v @ [92] @ cstr ''u'' @ fmt_04X w @ [39]"

definition nul_escape :: "byte list" where
  "nul_escape = [92] @ cstr ''u0000 is not allowed''"

fun decode_items :: "item list \<Rightarrow> (byte list + byte list) outcome" where
  "decode_items [] = Inr (Inr [])"
| "decode_items (Plain b # is) = prepend [b] (decode_items is)"
| "decode_items (Simple b # is) = prepend [escaped_byte b] (decode_items is)"
| "decode_items (Unicode ds # is) =
     obind (escape_value ds 0) (\<lambda>v.
     if 0xD800 \<le> v \<and> v \<le> 0xDBFF
     then (case is of
         Unicode ds2 # is2 \<Rightarrow>
           obind (escape_value ds2 0) (\<lambda>w.
           if 0xDC00 \<le> w \<and> w \<le> 0xDFFF
           then prepend (utf8_bytes ((v - 0xD800) * 1024 + (w - 0xDC00) + 0x10000)) (decode_items is2)
           else Inr (Inl (bad_pair v w)))
       | _ \<Rightarrow> Inr (Inl (bad_surrogate v)))
     else if 0xDC00 \<le> v \<and> v \<le> 0xDFFF then Inr (Inl (bad_surrogate v))
     else if v = 0 then Inr (Inl nul_escape)
     else prepend (utf8_bytes v) (decode_items is))"

text \<open>A block that holds the bytes \<open>S\<close>.\<close>

definition loads :: "block \<Rightarrow> byte list \<Rightarrow> bool" where
  "loads str S \<longleftrightarrow> (\<forall>i < length S. load_byte str i = Inr (S ! i))"

lemma loads_drop:
  assumes "loads str S" "drop p S = x # rest"
  shows "load_byte str p = Inr x" "drop (Suc p) S = rest" "p < length S"
proof -
  show p: "p < length S" using assms(2) by (metis drop_eq_Nil2 linorder_not_less list.distinct(1))
  with assms(2) have "S ! p = x" by (metis Cons_nth_drop_Suc list.inject)
  with assms(1) p show "load_byte str p = Inr x" by (simp add: loads_def)
  show "drop (Suc p) S = rest" using assms(2) by (metis drop_Suc list.sel(3) tl_drop)
qed

lemma escape_digit_spec:
  "escape_digit b = (if l_isdigit (sint b) then Some (sint b - 48) else if l_islower (sint b) then Some (sint b - 97 + 10)
     else if l_isupper (sint b) then Some (sint b - 65 + 10) else None)"
proof -
  have up: "l_isupper (sint b) \<longleftrightarrow> 65 \<le> b \<and> b \<le> 90"
    unfolding l_isupper_def ch_simps using sint_range[of 65 90 b] by (simp add: word_le_def)
  have lo: "l_islower (sint b) \<longleftrightarrow> 97 \<le> b \<and> b \<le> 122"
    unfolding l_islower_def ch_simps using sint_range[of 97 122 b] by (simp add: word_le_def)
  have "is_digit b \<Longrightarrow> sint b = uint b" "65 \<le> b \<and> b \<le> 90 \<Longrightarrow> sint b = uint b" "97 \<le> b \<and> b \<le> 122 \<Longrightarrow> sint b = uint b"
    by (auto simp: is_digit_def sint_byte word_le_def)
  then show ?thesis unfolding up lo l_isdigit_byte escape_digit_def by auto
qed

lemma decode_digits_spec:
  assumes "loads str S"
  shows "drop p S = ds @ rest \<Longrightarrow> decode_digits str p (length ds) v = escape_value ds v"
proof (induction ds arbitrary: p v)
  case (Cons d ds)
  then have "drop p S = d # (ds @ rest)" by simp
  note l = loads_drop[OF assms this]
  from l(1) Cons.IH[OF l(2)] show ?case
    by (simp add: Let_def escape_digit_spec del: l_isdigit_byte)
qed simp

lemma decode_unicode_spec:
  assumes "loads str S" "drop p S = 117 # ds @ rest" "length ds = 4"
  shows "decode_unicode_escape str p = escape_value ds 0"
proof -
  note l = loads_drop[OF assms(1,2)]
  from decode_digits_spec[OF assms(1) l(2), of 0] assms(3) l(1) show ?thesis
    by (simp add: decode_unicode_escape_def sint_byte)
qed

lemma escape_value_bounds:
  assumes "escape_value ds 0 = Inr v" "length ds = 4"
  shows "0 \<le> v" "v < 0x30000"
proof -
  have dig: "0 \<le> d \<and> d \<le> 35" if "escape_digit b = Some d" for b d
    using that by (auto simp: escape_digit_def is_digit_def word_le_def split: if_splits)
  obtain a b c d where ds: "ds = [a, b, c, d]" using assms(2) by (auto simp: length_Suc_conv eval_nat_numeral)
  from assms(1) ds obtain w x y z where "escape_digit a = Some w" "escape_digit b = Some x" "escape_digit c = Some y"
    "escape_digit d = Some z" "v = ((w * 16 + x) * 16 + y) * 16 + z" by (auto split: option.splits)
  with dig[of a w] dig[of b x] dig[of c y] dig[of d z] show "0 \<le> v" "v < 0x30000" by simp_all
qed

lemma simple_escape_spec: "b \<in> simple_bytes \<Longrightarrow> simple_escape b = Inr (escaped_byte b)"
  by (auto simp: simple_bytes_def simple_escape_def escaped_byte_def Let_def sint_byte)

text \<open>What follows an escape: another escape or not.\<close>

lemma render_head:
  assumes "\<forall>i \<in> set is. item_ok i" "tx = concat (map render is) @ 34 # q"
  shows "(case is of Unicode ds # is2 \<Rightarrow> tx = 92 # 117 # ds @ concat (map render is2) @ 34 # q \<and> length ds = 4
      | _ \<Rightarrow> tx \<noteq> [] \<and> (hd tx = 92 \<longrightarrow> tl tx \<noteq> [] \<and> hd (tl tx) \<noteq> 117))"
  using assms by (cases "is"; cases "hd is") (auto simp: simple_bytes_def)

lemma decode_escape_spec:
  assumes S: "loads str S" and p: "drop p S = 117 # ds @ concat (map render is) @ 34 # q" and ds: "length ds = 4"
    and ok: "\<forall>i \<in> set is. item_ok i"
  shows "decode_escape str p = obind (escape_value ds 0) (\<lambda>v.
     if 0xD800 \<le> v \<and> v \<le> 0xDBFF
     then (case is of
         Unicode ds2 # is2 \<Rightarrow>
           obind (escape_value ds2 0) (\<lambda>w.
           if 0xDC00 \<le> w \<and> w \<le> 0xDFFF
           then Inr (Inr ((v - 0xD800) * 1024 + (w - 0xDC00) + 0x10000, p + 11))
           else Inr (Inl (bad_pair v w)))
       | _ \<Rightarrow> Inr (Inl (bad_surrogate v)))
     else if 0xDC00 \<le> v \<and> v \<le> 0xDFFF then Inr (Inl (bad_surrogate v))
     else if v = 0 then Inr (Inl nul_escape)
     else Inr (Inr (v, p + 5)))"
proof (cases "escape_value ds 0")
  case (Inl f)
  with decode_unicode_spec[OF S p ds] show ?thesis by (simp add: decode_escape_def)
next
  case (Inr v)
  let ?tx = "concat (map render is) @ 34 # q"
  have un: "decode_unicode_escape str p = Inr v" using decode_unicode_spec[OF S p ds] Inr by simp
  have "drop (4 + 1) (drop p S) = ?tx" using p ds by (simp add: drop_Suc)
  then have p5: "drop (p + 5) S = ?tx" by (simp add: add.commute)
  show ?thesis
  proof (cases "0xD800 \<le> v \<and> v \<le> 0xDBFF")
    case False
    then show ?thesis
      using un Inr by (auto simp: decode_escape_def Let_def bad_surrogate_def nul_escape_def simp del: cstr_Cons)
  next
    case high: True
    show ?thesis
    proof (cases "\<exists>ds2 is2. is = Unicode ds2 # is2")
      case True
      then obtain ds2 is2 where is2: "is = Unicode ds2 # is2" by blast
      with ok have ds2: "length ds2 = 4" by simp
      have a: "drop (p + 5) S = 92 # 117 # ds2 @ concat (map render is2) @ 34 # q" using p5 is2 by simp
      note l1 = loads_drop[OF S a] and l2 = loads_drop[OF S loads_drop(2)[OF S a]]
      from decode_unicode_spec[OF S l1(2) ds2] have un2: "decode_unicode_escape str (Suc (p + 5)) = escape_value ds2 0" .
      show ?thesis
        using high un Inr l1(1) l2(1) un2 is2
        by (cases "escape_value ds2 0")
          (auto simp: decode_escape_def Let_def bad_pair_def sint_byte simp del: cstr_Cons)
    next
      case False
      then have b: "?tx \<noteq> []" "hd ?tx = 92 \<longrightarrow> tl ?tx \<noteq> [] \<and> hd (tl ?tx) \<noteq> 117"
        using render_head[OF ok refl, of q] by (auto split: list.splits item.splits)
      then obtain x r where tx: "?tx = x # r" by (cases ?tx) auto
      note l1 = loads_drop[OF S p5[unfolded tx]]
      have pair: "obind (if x = 92 then obind (load_byte str (p + 5 + 1)) (\<lambda>b1. Inr (sint b1 = ch CHR ''u'')) else Inr False) f =
          f False" for f :: "bool \<Rightarrow> (byte list + int \<times> nat) outcome"
      proof (cases "x = 92")
        case True
        with b(2) tx obtain y r' where "r = y # r'" "y \<noteq> 117" by (cases r) auto
        with loads_drop(1)[OF S l1(2)[unfolded \<open>r = y # r'\<close>]] True show ?thesis by simp
      qed simp
      have rhs: "(case is of
         Unicode ds2 # is2 \<Rightarrow>
           obind (escape_value ds2 0) (\<lambda>w.
           if 0xDC00 \<le> w \<and> w \<le> 0xDFFF
           then Inr (Inr ((v - 0xD800) * 1024 + (w - 0xDC00) + 0x10000, p + 11))
           else Inr (Inl (bad_pair v w)))
       | _ \<Rightarrow> Inr (Inl (bad_surrogate v))) = Inr (Inl (bad_surrogate v))"
        using False by (auto split: list.splits item.splits)
      show ?thesis
        unfolding decode_escape_def un obind_Inr Let_def l1(1) pair Inr rhs using high
        by (simp add: bad_surrogate_def del: cstr_Cons)
    qed
  qed
qed

lemma length_utf8_le: "length (utf8_bytes c) \<le> 4" "1 \<le> length (utf8_bytes c)"
  by (simp_all add: length_utf8_bytes)

lemma put_text_fits: "length t + length bs \<le> cap \<Longrightarrow> put_text cap t bs = Inr (t @ bs)"
  by (simp add: put_text_def)

lemma decode_text_spec:
  assumes S: "loads str S" and cap: "length S = cap"
  shows "\<forall>i \<in> set is. item_ok i \<Longrightarrow> drop p S = concat (map render is) @ 34 # q \<Longrightarrow> length t < p \<Longrightarrow> length S - p < n \<Longrightarrow>
    decode_text n str cap p t = prepend t (decode_items is)"
proof (induction "is" arbitrary: p t n rule: length_induct)
  case (1 items)
  note IH = 1(1)[rule_format] and ok = 1(2) and p = 1(3) and tp = 1(4)
  obtain m where n: "n = Suc m" using 1(5) by (cases n) auto
  have lp: "length (drop p S) = length S - p" by simp
  show ?case
  proof (cases items)
    case Nil
    with p have a: "drop p S = 34 # q" by simp
    note l = loads_drop[OF S a]
    have "length t + length [0::byte] \<le> cap" using l(3) tp cap by simp
    from put_text_fits[OF this] l(1) n Nil show ?thesis by simp
  next
    case (Cons i is')
    have ok': "\<forall>i \<in> set is'. item_ok i" and oki: "item_ok i" using ok Cons by auto
    have pc: "drop p S = render i @ concat (map render is') @ 34 # q" using p Cons by simp
    have fits: "p + length (render i) < cap"
    proof -
      have "length (render i) + 1 \<le> length S - p" using arg_cong[OF pc, of length] by simp
      then show ?thesis using cap by simp
    qed
    show ?thesis
    proof (cases i)
      case (Plain b)
      then have b: "b \<noteq> 34" "b \<noteq> 92" using oki by auto
      have a: "drop p S = b # concat (map render is') @ 34 # q" using pc Plain by simp
      note l = loads_drop[OF S a]
      have "length t + length [b] \<le> cap" using tp fits by simp
      from put_text_fits[OF this] l(1) n b have "decode_text n str cap p t = decode_text m str cap (p + 1) (t @ [b])" by simp
      also have "\<dots> = prepend (t @ [b]) (decode_items is')"
        by (rule IH) (use Cons ok' l n 1(5) tp in auto)
      finally show ?thesis using Cons Plain by (simp add: prepend_append)
    next
      case (Simple b)
      then have b: "b \<in> simple_bytes" "b \<noteq> 117" using oki by (auto simp: simple_bytes_def)
      have a: "drop p S = 92 # b # concat (map render is') @ 34 # q" using pc Simple by simp
      note l1 = loads_drop[OF S a] and l2 = loads_drop[OF S loads_drop(2)[OF S a]]
      have "length t + length [escaped_byte b] \<le> cap" using tp fits by simp
      from put_text_fits[OF this] l1(1) l2(1) n b simple_escape_spec[OF b(1)]
      have "decode_text n str cap p t = decode_text m str cap (p + 2) (t @ [escaped_byte b])" by simp
      also have "\<dots> = prepend (t @ [escaped_byte b]) (decode_items is')"
        by (rule IH) (use Cons ok' l2 n 1(5) tp fits in auto)
      finally show ?thesis using Cons Simple by (simp add: prepend_append)
    next
      case (Unicode ds)
      then have ds: "length ds = 4" using oki by simp
      have a: "drop p S = 92 # 117 # ds @ concat (map render is') @ 34 # q" using pc Unicode by simp
      note l1 = loads_drop[OF S a] and l2 = loads_drop[OF S loads_drop(2)[OF S a]]
      note esc = decode_escape_spec[OF S l1(2) ds ok']
      have run: "decode_text n str cap p t = obind (decode_escape str (Suc p)) (\<lambda>r.
         case r of Inl msg \<Rightarrow> Inr (Inl msg)
         | Inr (val, p) \<Rightarrow>
             (case utf8_encode val of None \<Rightarrow> Inl Assert_Failed
              | Some bs \<Rightarrow> obind (put_text cap t bs) (decode_text m str cap p)))"
        using n l1(1) l2(1) by simp
      show ?thesis
      proof (cases "escape_value ds 0")
        case (Inl f)
        with esc run Cons Unicode show ?thesis by simp
      next
        case (Inr v)
        note vb = escape_value_bounds[OF Inr ds]
        show ?thesis
        proof (cases "0xD800 \<le> v \<and> v \<le> 0xDBFF")
          case False
          show ?thesis
          proof (cases "0xDC00 \<le> v \<and> v \<le> 0xDFFF \<or> v = 0")
            case True
            then consider "0xDC00 \<le> v \<and> v \<le> 0xDFFF" | "v = 0" by blast
            then show ?thesis
            proof cases
              case 1
              then show ?thesis unfolding run esc Inr Cons Unicode decode_items.simps obind_Inr using False by simp
            next
              case 2
              then show ?thesis unfolding run esc Inr Cons Unicode decode_items.simps obind_Inr by simp
            qed
          next
            case v: False
            have enc: "utf8_encode v = Some (utf8_bytes v)" using vb by (simp add: utf8_encode_spec)
            have "length t + length (utf8_bytes v) \<le> cap" using tp fits length_utf8_le(1)[of v] Unicode ds by simp
            from put_text_fits[OF this] have "decode_text n str cap p t = decode_text m str cap (Suc p + 5) (t @ utf8_bytes v)"
              unfolding run esc Inr obind_Inr using False v enc by auto
            also have "\<dots> = prepend (t @ utf8_bytes v) (decode_items is')"
            proof (rule IH)
              have "drop 5 (drop (Suc p) S) = concat (map render is') @ 34 # q" using l1(2) ds by simp
              then show "drop (Suc p + 5) S = concat (map render is') @ 34 # q" by (simp add: add.commute)
              show "length (t @ utf8_bytes v) < Suc p + 5" using tp length_utf8_le(1)[of v] by simp
              show "length S - (Suc p + 5) < m" using 1(5) n l1(3) by linarith
            qed (use Cons ok' in auto)
            also have "prepend (t @ utf8_bytes v) (decode_items is') = prepend t (decode_items items)"
              unfolding Cons Unicode decode_items.simps Inr obind_Inr prepend_append using False v by auto
            finally show ?thesis .
          qed
        next
          case high: True
          show ?thesis
          proof (cases "\<exists>ds2 is2. is' = Unicode ds2 # is2")
            case False
            then show ?thesis
              unfolding run esc Cons Unicode decode_items.simps Inr obind_Inr using high
              by (auto split: list.splits item.splits)
          next
            case True
            then obtain ds2 is2 where is2: "is' = Unicode ds2 # is2" by blast
            with ok' have ds2: "length ds2 = 4" and ok2: "\<forall>i \<in> set is2. item_ok i" by auto
            show ?thesis
            proof (cases "escape_value ds2 0")
              case f: (Inl f)
              show ?thesis
                unfolding run esc Cons Unicode decode_items.simps Inr obind_Inr is2 using high f by simp
            next
              case w: (Inr w)
              show ?thesis
              proof (cases "0xDC00 \<le> w \<and> w \<le> 0xDFFF")
                case False
                show ?thesis
                  unfolding run esc Cons Unicode decode_items.simps Inr obind_Inr is2
                  using high by (simp add: w if_not_P[OF False])
              next
                case low: True
                let ?c = "(v - 0xD800) * 1024 + (w - 0xDC00) + 0x10000"
                have "0 \<le> ?c" "?c \<le> 0x10FFFF" using high low by auto
                then have enc: "utf8_encode ?c = Some (utf8_bytes ?c)" by (simp add: utf8_encode_spec)
                have "length (render i @ render (Unicode ds2)) + 1 \<le> length S - p"
                  using arg_cong[OF pc, of length] is2 by simp
                then have fits2: "p + 12 < cap" using cap Unicode ds ds2 by simp
                have "length t + length (utf8_bytes ?c) \<le> cap" using tp fits2 length_utf8_le(1)[of ?c] by linarith
                from put_text_fits[OF this] have "decode_text n str cap p t = decode_text m str cap (Suc p + 11) (t @ utf8_bytes ?c)"
                  unfolding run esc Inr obind_Inr is2 using high low w enc by simp
                also have "\<dots> = prepend (t @ utf8_bytes ?c) (decode_items is2)"
                proof (rule IH)
                  have "drop 11 (drop (Suc p) S) = concat (map render is2) @ 34 # q" using l1(2) ds ds2 is2 by simp
                  then show "drop (Suc p + 11) S = concat (map render is2) @ 34 # q" by (simp add: add.commute)
                  show "length (t @ utf8_bytes ?c) < Suc p + 11" using tp length_utf8_le(1)[of ?c] by simp
                  show "length S - (Suc p + 11) < m" using 1(5) n l1(3) by linarith
                qed (use Cons ok2 is2 in auto)
                also have "prepend (t @ utf8_bytes ?c) (decode_items is2) = prepend t (decode_items items)"
                  unfolding Cons Unicode decode_items.simps Inr obind_Inr prepend_append is2 using high low w by simp
                finally show ?thesis .
              qed
            qed
          qed
        qed
      qed
    qed
  qed
qed

end
