(* ===== verification/Json_Tokens.thy ===== *)
theory Json_Tokens
  imports Json_Strings
begin

text \<open>
  The whole lexer as a function of the text: \<open>lex_scan\<close> leaves in the lexer the token that
  \<open>next_token\<close> finds at the front of the text, for every source and every input.
\<close>

lemma saved_loads:
  assumes "sb_holds sb t"
  shows "\<exists>b. sb_value sb = Some b \<and> loads b (t @ [0]) \<and> length t < length b"
proof -
  from assms obtain rest where "sb_value sb = Some (map Some (t @ [0]) @ rest)" by (auto simp: sb_holds_def)
  then show ?thesis
    by (intro exI[of _ "map Some (t @ [0]) @ rest"])
      (auto simp: loads_def load_byte_def nth_append less_Suc_eq_le simp del: map_append)
qed

context byte_source
begin

lemma lex_scan_string_spec:
  assumes "holds lx [34] bs e" "length bs < n"
  shows "case items_of bs of
      None \<Rightarrow> \<exists>lx'. lex_scan_string n lx = Inr lx' \<and> l_token lx' = TOKEN_INVALID \<and> gives_up lx' bs e
    | Some (is, q) \<Rightarrow>
        (case decode_items is of
           Inl f \<Rightarrow> lex_scan_string n lx = Inl f
         | Inr (Inl msg) \<Rightarrow> \<exists>lx'. lex_scan_string n lx = Inr lx' \<and> l_token lx' = TOKEN_INVALID \<and> gives_up lx' bs e
         | Inr (Inr s) \<Rightarrow> \<exists>lx'. lex_scan_string n lx = Inr lx' \<and> l_token lx' = TOKEN_STRING \<and>
             l_value lx' = VString (Some s) \<and> holds lx' ([34] @ concat (map render is) @ [34]) q e)"
proof -
  let ?lx = "lx\<lparr>l_value := VString None, l_token := TOKEN_INVALID\<rparr>"
  have "holds ?lx [34] bs e" using assms(1) by simp
  from lex_get_save_scans[OF this] obtain c lx1 where 1: "lex_get_save ?lx = Inr (c, lx1)" "scans lx1 [34] bs e c"
    "same_token ?lx lx1" by blast
  from scan_string_loop_spec[OF 1(2) assms(2)] obtain closed lx2 where 2: "scan_string_loop n c lx1 = Inr (closed, lx2)"
    "same_token lx1 lx2" "case items_of bs of None \<Rightarrow> \<not> closed \<and> gives_up lx2 bs e
      | Some (is, q) \<Rightarrow> closed \<and> holds lx2 ([34] @ concat (map render is) @ [34]) q e" unfolding scan_result_def by blast
  have tok: "l_token lx2 = TOKEN_INVALID" using 1(3) 2(2) by (simp add: same_token_def)
  show ?thesis
  proof (cases "items_of bs")
    case None
    with 1(1) 2 tok show ?thesis by (simp add: lex_scan_string_def)
  next
    case (Some a)
    obtain "is" q where a: "a = (is, q)" by (cases a)
    let ?t = "[34] @ concat (map render is) @ [34]"
    from Some a 2(3) have h: "closed" "holds lx2 ?t q e" by auto
    have sb: "sb_holds (l_saved_text lx2) ?t" "l_ok lx2 = (\<lambda>_. True)" "length ?t < 2 ^ 62" using h(2) by (auto simp: lexes_def)
    from saved_loads[OF sb(1)] obtain b where b: "sb_value (l_saved_text lx2) = Some b" and S: "loads b (?t @ [0])"
      and lb: "length ?t < length b" by blast
    have ln: "unat (sb_length (l_saved_text lx2)) = length ?t" using sb(1) by (simp add: sb_holds_def)
    then have cap: "unat (sb_length (l_saved_text lx2) + 1) = length (?t @ [0])"
      using sb(3) by (simp add: unat_word_ariths)
    then have "sb_length (l_saved_text lx2) + 1 \<noteq> 0" by auto
    then have malloc: "jsonp_malloc (l_ok lx2) (sb_length (l_saved_text lx2) + 1) \<noteq> None" by (simp add: jsonp_malloc_def sb(2))
    from items_of_ok[of bs "is" q] Some a have ok: "\<forall>i \<in> set is. item_ok i" and bs: "bs = concat (map render is) @ 34 # q" by auto
    have "drop 1 (?t @ [0]) = concat (map render is) @ 34 # [0]" by simp
    from decode_text_spec[OF S refl ok this, of "[]" "Suc (length b)"] lb
    have dec: "decode_text (Suc (length b)) b (length (?t @ [0])) 1 [] = decode_items is" by simp
    have run: "lex_scan_string n lx = obind (decode_items is) (\<lambda>r. case r of Inl msg \<Rightarrow> error_set msg lx2
        | Inr t \<Rightarrow> Inr (lx2\<lparr>l_value := VString (Some t), l_token := TOKEN_STRING\<rparr>))"
      unfolding lex_scan_string_def Let_def 1(1) obind_Inr split 2(1) strbuffer_value_def b need_simps cap dec
      using h(1) by (simp add: if_not_P[OF malloc])
    show ?thesis
    proof (cases "decode_items is")
      case (Inl f)
      with run Some a show ?thesis by simp
    next
      case (Inr r)
      show ?thesis
      proof (cases r)
        case (Inr s)
        with \<open>decode_items is = Inr r\<close> run Some a h(2) show ?thesis by simp
      next
        case (Inl msg)
        from holds_error_set[OF h(2), of msg] obtain lx' where er: "error_set msg lx2 = Inr lx'" "holds lx' ?t q e"
          "same_token lx2 lx'" by blast
        have "length q \<le> length bs" using bs by simp
        with er(2) have "gives_up lx' bs e" unfolding gives_up_def by blast
        with Inl \<open>decode_items is = Inr r\<close> run Some a er tok show ?thesis by (simp add: same_token_def)
      qed
    qed
  qed
qed

lemma skip_spaces_spec:
  "looks lx t cur e c \<Longrightarrow> length cur < n \<Longrightarrow>
     \<exists>c' lx'. skip_spaces n c lx = Inr (c', lx') \<and> looks lx' t (dropWhile is_space cur) e c' \<and> same_token lx lx'"
proof (induction cur arbitrary: n c lx)
  case Nil
  then obtain m where "n = Suc m" by (cases n) auto
  with Nil show ?case using looks_end[OF Nil.prems(1)] by (auto simp: looking_def)
next
  case (Cons b bs)
  obtain m where n: "n = Suc m" "length bs < m" using Cons.prems(2) by (cases n) auto
  have c: "c = sint b" "holds lx t bs e" using Cons.prems(1) by (auto simp: looking_def)
  have sp: "c = 32 \<or> c = 9 \<or> c = 10 \<or> c = 13 \<longleftrightarrow> is_space b" unfolding c(1) by (simp add: is_space_def)
  show ?case
  proof (cases "is_space b")
    case False
    with sp n(1) Cons.prems(1) show ?thesis by auto
  next
    case True
    from lex_get_looks[OF c(2)] obtain c1 lx1 where 1: "lex_get lx = Inr (c1, lx1)" "looks lx1 t bs e c1" "same_token lx lx1" by blast
    from Cons.IH[OF 1(2) n(2)] obtain c' lx' where "skip_spaces m c1 lx1 = Inr (c', lx')"
      "looks lx' t (dropWhile is_space bs) e c'" "same_token lx1 lx'" by blast
    with 1 sp n(1) True same_token_trans[of lx lx1 lx'] show ?thesis by auto
  qed
qed

lemma save_cached_spec:
  "holds lx t bs e \<Longrightarrow> s_state (l_stream lx) = STREAM_STATE_OK \<Longrightarrow> length (pending (l_stream lx)) < k \<Longrightarrow>
     \<exists>lx' t'. save_cached k lx = Inr lx' \<and> holds lx' t' (drop (length (pending (l_stream lx))) bs) e \<and> same_token lx lx'"
proof (induction "pending (l_stream lx)" arbitrary: lx t bs k)
  case Nil
  then have wf: "buffer_wf (l_stream lx)" by (simp add: lexes_def stream_holds_def)
  obtain j where "k = Suc j" using Nil.prems(3) by (cases k) auto
  with Nil.hyps pending_Nil[OF wf] buffer_at_pos[OF wf] Nil.prems(1) show ?case by (auto simp: Let_def)
next
  case (Cons b ps)
  let ?s = "l_stream lx"
  have P: "pending ?s = b # ps" using Cons.hyps(2) by simp
  from Cons.prems have h: "stream_holds left valid get ?s bs e" "buffer_wf ?s" "sb_holds (l_saved_text lx) t"
    "l_ok lx = (\<lambda>_. True)" "length t + length bs < 2 ^ 62" "e = STREAM_STATE_EOF \<or> e = STREAM_STATE_ERROR"
    by (auto simp: lexes_def stream_holds_def)
  with Cons.prems(2) P obtain bs' where bs: "bs = b # bs'" "take (length ps) bs' = ps" "no_mark b" "\<forall>x \<in> set ps. no_mark x"
    "text_of (left (s_data ?s)) = (drop (length ps) bs', e)"
    by (cases bs) (auto simp: stream_holds_def)
  obtain j where j: "k = Suc j" "length ps < j" using Cons.prems(3) P by (cases k) auto
  note pc = pending_Cons[OF h(2) P]
  have lt: "length t < 2 ^ 62" using h(5) bs by simp
  from lex_save_spec[OF h(3,4) lt, of b] obtain sb where sv: "lex_save (sint b) lx = Inr (lx\<lparr>l_saved_text := sb\<rparr>)" "sb_holds sb (t @ [b])" by blast
  let ?s' = "?s\<lparr>s_buffer_pos := Suc (s_buffer_pos ?s), s_position := s_position ?s + 1\<rparr>"
  let ?lx = "lx\<lparr>l_saved_text := sb, l_stream := ?s'\<rparr>"
  have run: "save_cached k lx = save_cached j ?lx"
    using j(1) buffer_at_pos[OF h(2)] pc(2,3) sv(1) by (simp add: Let_def)
  have pend: "pending ?s' = ps" using pc(4) by (simp add: pending_def)
  have "buffer_wf ?s'" using h(2) pc(1) by (simp add: buffer_wf_def)
  then have "holds ?lx (t @ [b]) bs' e"
    using h sv(2) bs pend Cons.prems(2) by (auto simp: lexes_def stream_holds_def)
  from Cons.hyps(1)[of ?lx, OF _ this, of j] pend j Cons.prems(2) obtain lx' t' where
    "save_cached j ?lx = Inr lx'" "holds lx' t' (drop (length ps) bs') e" "same_token ?lx lx'" by auto
  then have "save_cached k lx = Inr lx'" "holds lx' t' (drop (length (pending ?s)) bs) e" "same_token lx lx'"
    using run P bs(1) by (simp_all add: same_token_def)
  then show ?case by blast
qed

lemma length_pending: "buffer_wf s \<Longrightarrow> length (pending s) \<le> 5"
  using length_takeWhile_le[of "\<lambda>b. b \<noteq> 0" "drop (s_buffer_pos s) (s_buffer s)"] by (simp add: pending_def buffer_wf_def)

end

section \<open>Tokens\<close>

text \<open>The token at the front of a text, its value and the text behind it.  An invalid token says
  nothing about the rest.\<close>

definition next_token :: "byte list \<Rightarrow> int \<Rightarrow> (int \<times> lex_value option \<times> byte list) outcome" where
  "next_token bs e =
     (case dropWhile is_space bs of
        [] \<Rightarrow> Inr (if e = STREAM_STATE_EOF then TOKEN_EOF else TOKEN_INVALID, None, [])
      | b # r \<Rightarrow>
          if sint b \<in> punctuation then Inr (sint b, None, r)
          else if b = 34
          then (case items_of r of
              None \<Rightarrow> Inr (TOKEN_INVALID, None, [])
            | Some (is, q) \<Rightarrow> obind (decode_items is) (\<lambda>x. case x of
                Inl msg \<Rightarrow> Inr (TOKEN_INVALID, None, [])
              | Inr s \<Rightarrow> Inr (TOKEN_STRING, Some (VString (Some s)), q)))
          else if is_digit b \<or> b = 45
          then (case lex_number (b # r) of
              None \<Rightarrow> Inr (TOKEN_INVALID, None, [])
            | Some (real, t, q) \<Rightarrow>
                (case number_value real t of None \<Rightarrow> Inr (TOKEN_INVALID, None, [])
                 | Some (k, v) \<Rightarrow> Inr (k, Some v, ungot q)))
          else if is_alpha b
          then Inr (word_token (takeWhile is_alpha (b # r)), None, ungot (dropWhile is_alpha (b # r)))
          else Inr (TOKEN_INVALID, None, []))"

definition token_result :: "'d lex_t outcome \<Rightarrow> ('d lex_t \<Rightarrow> byte list \<Rightarrow> bool) \<Rightarrow> ('d lex_t \<Rightarrow> bool) \<Rightarrow>
    (int \<times> lex_value option \<times> byte list) outcome \<Rightarrow> bool" where
  "token_result res good bad tok \<longleftrightarrow>
     (case tok of Inl f \<Rightarrow> res = Inl f
      | Inr (k, v, r) \<Rightarrow> \<exists>lx'. res = Inr lx' \<and> l_token lx' = k \<and> (\<forall>x. v = Some x \<longrightarrow> l_value lx' = x) \<and>
          (if k = TOKEN_INVALID then bad lx' else good lx' r))"

lemma token_resultI:
  assumes "tok = Inr (k, v, r)" "res = Inr lx'" "l_token lx' = k" "\<forall>x. v = Some x \<longrightarrow> l_value lx' = x"
    "if k = TOKEN_INVALID then bad lx' else good lx' r"
  shows "token_result res good bad tok"
  using assms unfolding token_result_def by simp

lemma tokens: "TOKEN_INVALID = -1" "TOKEN_EOF = 0" "TOKEN_STRING = 256" "TOKEN_INTEGER = 257" "TOKEN_REAL = 258"
  "TOKEN_TRUE = 259" "TOKEN_FALSE = 260" "TOKEN_NULL = 261"
  by (simp_all add: TOKEN_INVALID_def TOKEN_EOF_def TOKEN_STRING_def TOKEN_INTEGER_def TOKEN_REAL_def TOKEN_TRUE_def
      TOKEN_FALSE_def TOKEN_NULL_def)

lemma punctuation_byte: "sint b \<in> punctuation \<longleftrightarrow> b \<in> {123, 125, 91, 93, 58, 44}" for b :: byte
  by (simp add: punctuation_def)

lemma number_value_token: "number_value real t = Some (k, v) \<Longrightarrow> k \<noteq> TOKEN_INVALID"
  by (auto simp: number_value_def tokens split: if_splits sum.splits option.splits prod.splits)

context byte_source
begin

definition good :: "int \<Rightarrow> 'd lex_t \<Rightarrow> byte list \<Rightarrow> bool" where
  "good e lx r \<longleftrightarrow> (\<exists>t. holds lx t r e)"

lemma gives_up_holds: "holds lx t r e \<Longrightarrow> length r \<le> length bs \<Longrightarrow> gives_up lx bs e"
  unfolding gives_up_def by blast

lemma scan_word:
  assumes "scans lx [] (b # r) e c" "is_alpha b" "length r < n"
  shows "token_result (obind (lex_get_save lx) (\<lambda>(c, lx).
            obind (skip_letters n c lx) (\<lambda>(c, lx).
            obind (lex_unget_unsave c lx) (\<lambda>lx.
            obind (saved_cstr lx) (\<lambda>text. Inr (lx\<lparr>l_token := word_token text\<rparr>))))))
    (good e) (\<lambda>lx'. gives_up lx' (b # r) e)
    (Inr (word_token (takeWhile is_alpha (b # r)), None, ungot (dropWhile is_alpha (b # r))))"
proof -
  from scans_advance[OF assms(1)] obtain c1 lx1 where 1: "lex_get_save lx = Inr (c1, lx1)" "scans lx1 ([] @ [b]) r e c1" by blast
  from skip_letters_spec[OF 1(2) assms(3)] obtain c2 lx2 where 2: "skip_letters n c1 lx1 = Inr (c2, lx2)"
    "scans lx2 (([] @ [b]) @ takeWhile is_alpha r) (dropWhile is_alpha r) e c2" by blast
  let ?w = "takeWhile is_alpha (b # r)" let ?q = "dropWhile is_alpha (b # r)"
  have "scans lx2 ?w ?q e c2" using 2(2) assms(2) by simp
  from scans_unget'[OF this] obtain lx3 where 3: "lex_unget_unsave c2 lx2 = Inr lx3" "holds lx3 ?w (ungot ?q) e" by blast
  have "\<not> is_alpha 0" by (simp add: is_alpha_def)
  then have "0 \<notin> set ?w" using set_takeWhileD by fastforce
  note tx = saved_cstr_spec[OF 3(2) this]
  have len: "length (ungot ?q) \<le> length (b # r)" using length_ungot[of ?q] length_dropWhile_le[of is_alpha "b # r"] by linarith
  let ?lx = "lx3\<lparr>l_token := word_token ?w\<rparr>"
  have h: "holds ?lx ?w (ungot ?q) e" using 3(2) by simp
  show ?thesis
    by (rule token_resultI[where lx' = ?lx, OF refl])
      (use 1(1) 2(1) 3(1) tx h gives_up_holds[OF h len] in \<open>auto simp: good_def\<close>)
qed

lemma scan_number_token:
  assumes "scans lx [] cur e c" "length cur < n"
  shows "token_result (obind (lex_scan_number n c lx) (\<lambda>(_, lx). Inr lx)) (good e) (\<lambda>lx'. gives_up lx' cur e)
    (case lex_number cur of None \<Rightarrow> Inr (TOKEN_INVALID, None, [])
     | Some (real, t, q) \<Rightarrow> (case number_value real t of None \<Rightarrow> Inr (TOKEN_INVALID, None, []) | Some (k, v) \<Rightarrow> Inr (k, Some v, ungot q)))"
proof -
  from lex_scan_number_spec[OF assms] obtain q lx' where 1: "lex_scan_number n c lx = Inr (q, lx')"
    "case lex_number cur of None \<Rightarrow> l_token lx' = TOKEN_INVALID \<and> gives_up lx' cur e
     | Some (real, t, r) \<Rightarrow> holds lx' t (ungot r) e \<and>
        (case number_value real t of None \<Rightarrow> l_token lx' = TOKEN_INVALID
         | Some (k, v) \<Rightarrow> l_token lx' = k \<and> l_value lx' = v)" by blast
  show ?thesis
  proof (cases "lex_number cur")
    case None
    with 1 show ?thesis by (intro token_resultI[where lx' = lx']) auto
  next
    case (Some a)
    obtain real t r where a: "a = (real, t, r)" by (cases a)
    have "length r \<le> length cur"
    proof -
      obtain t0 r0 where p: "int_part cur = Some (t0, r0)" using Some by (auto simp: lex_number_def split: option.splits)
      from int_part_digits[OF p] have "length r0 \<le> length cur" by auto
      moreover have "length r \<le> length r0"
        using Some a p frac_part_text exp_part_text
        by (fastforce simp: lex_number_def split: option.splits if_splits)
      ultimately show ?thesis by simp
    qed
    with length_ungot[of r] have len: "length (ungot r) \<le> length cur" by linarith
    have h: "holds lx' t (ungot r) e" using 1(2) Some a by simp
    show ?thesis
    proof (cases "number_value real t")
      case None
      with 1 Some a gives_up_holds[OF h len] show ?thesis by (intro token_resultI[where lx' = lx']) auto
    next
      case v: (Some kv)
      obtain k v where kv: "kv = (k, v)" by (cases kv)
      with number_value_token v have "k \<noteq> TOKEN_INVALID" by blast
      with 1 Some a h v kv show ?thesis by (intro token_resultI[where lx' = lx']) (auto simp: good_def)
    qed
  qed
qed

lemma scan_string_token:
  assumes "holds lx [34] r e" "length r < n"
  shows "token_result (lex_scan_string n lx) (good e) (\<lambda>lx'. gives_up lx' r e)
    (case items_of r of
              None \<Rightarrow> Inr (TOKEN_INVALID, None, [])
            | Some (is, q) \<Rightarrow> obind (decode_items is) (\<lambda>x. case x of
                Inl msg \<Rightarrow> Inr (TOKEN_INVALID, None, [])
              | Inr s \<Rightarrow> Inr (TOKEN_STRING, Some (VString (Some s)), q)))"
proof (cases "items_of r")
  case None
  with lex_scan_string_spec[OF assms] obtain lx' where "lex_scan_string n lx = Inr lx'" "l_token lx' = TOKEN_INVALID"
    "gives_up lx' r e" by auto
  with None show ?thesis by (intro token_resultI[where lx' = lx']) auto
next
  case (Some a)
  obtain "is" q where a: "a = (is, q)" by (cases a)
  note spec = lex_scan_string_spec[OF assms, unfolded Some a option.case split]
  show ?thesis
  proof (cases "decode_items is")
    case (Inl f)
    with spec Some a show ?thesis by (simp add: token_result_def)
  next
    case (Inr x)
    show ?thesis
    proof (cases x)
      case m: (Inl msg)
      with spec Inr obtain lx' where "lex_scan_string n lx = Inr lx'" "l_token lx' = TOKEN_INVALID" "gives_up lx' r e" by auto
      with Some a Inr m show ?thesis by (intro token_resultI[where lx' = lx']) auto
    next
      case s: (Inr s)
      with spec Inr obtain lx' where "lex_scan_string n lx = Inr lx'" "l_token lx' = TOKEN_STRING"
        "l_value lx' = VString (Some s)" "holds lx' ([34] @ concat (map render is) @ [34]) q e" by auto
      with Some a Inr s show ?thesis by (intro token_resultI[where lx' = lx']) (auto simp: good_def tokens)
    qed
  qed
qed

lemma token_result_mono:
  "token_result res g bad tok \<Longrightarrow> (\<And>lx. bad lx \<Longrightarrow> bad' lx) \<Longrightarrow> token_result res g bad' tok"
  unfolding token_result_def by (auto split: sum.splits prod.splits if_splits)

lemma lex_scan_spec:
  assumes "holds lx t bs e" "length bs < n"
  shows "token_result (lex_scan n lx) (good e) (\<lambda>lx'. gives_up lx' bs e) (next_token bs e)"
proof -
  from assms(1) have sb: "sb_holds (l_saved_text lx) t" by (simp add: lexes_def)
  from sb_holds_clear[OF sb] obtain sb0 where clear: "strbuffer_clear (l_saved_text lx) = Inr sb0" "sb_holds sb0 []" by blast
  let ?lx = "if l_token (lx\<lparr>l_saved_text := sb0\<rparr>) = TOKEN_STRING then lx\<lparr>l_saved_text := sb0, l_value := VString None\<rparr> else lx\<lparr>l_saved_text := sb0\<rparr>"
  have "holds (lx\<lparr>l_saved_text := sb0\<rparr>) [] bs e" using assms(1) clear(2) by (simp add: lexes_def)
  then have "holds ?lx [] bs e" by (simp add: lexes_def)
  from lex_get_looks[OF this] obtain c0 lx0 where 0: "lex_get ?lx = Inr (c0, lx0)" "looks lx0 [] bs e c0" by blast
  let ?cur = "dropWhile is_space bs"
  from skip_spaces_spec[OF 0(2) assms(2)] obtain c lx1 where 1: "skip_spaces n c0 lx0 = Inr (c, lx1)" "looks lx1 [] ?cur e c" by blast
  have lcur: "length ?cur \<le> length bs" by (rule length_dropWhile_le)
  have run: "lex_scan n lx = (if c = STREAM_STATE_EOF then Inr (lx1\<lparr>l_token := TOKEN_EOF\<rparr>)
        else if c = STREAM_STATE_ERROR then Inr (lx1\<lparr>l_token := TOKEN_INVALID\<rparr>)
        else obind (lex_save c lx1) (\<lambda>lx.
          if c \<in> punctuation then Inr (lx\<lparr>l_token := c\<rparr>)
          else if c = 34 then lex_scan_string n lx
          else if l_isdigit c \<or> c = ch CHR ''-''
          then obind (lex_scan_number n c lx) (\<lambda>(_, lx). Inr lx)
          else if l_isalpha c
          then obind (lex_get_save lx) (\<lambda>(c, lx).
            obind (skip_letters n c lx) (\<lambda>(c, lx).
            obind (lex_unget_unsave c lx) (\<lambda>lx.
            obind (saved_cstr lx) (\<lambda>text. Inr (lx\<lparr>l_token := word_token text\<rparr>)))))
          else obind (lex_save_cached lx) (\<lambda>lx. Inr (lx\<lparr>l_token := TOKEN_INVALID\<rparr>))))"
    unfolding lex_scan_def clear(1) obind_Inr Let_def using 0(1) 1(1) by (simp del: ch_simps)
  show ?thesis
  proof (cases ?cur)
    case Nil
    with 1(2) have c: "c = e" "holds lx1 [] [] e" "end_mark e" using looks_end[OF 1(2)] by (auto simp: looking_def)
    have nt: "next_token bs e = Inr (if e = STREAM_STATE_EOF then TOKEN_EOF else TOKEN_INVALID, None, [])"
      unfolding next_token_def Nil list.case ..
    show ?thesis
    proof (cases "e = STREAM_STATE_EOF")
      case True
      with c run nt show ?thesis
        by (intro token_resultI[where lx' = "lx1\<lparr>l_token := TOKEN_EOF\<rparr>"]) (auto simp: good_def tokens)
    next
      case False
      with c(3) have er: "e = STREAM_STATE_ERROR" "\<not> STREAM_STATE_ERROR = STREAM_STATE_EOF" by (auto simp: end_mark_def end_marks)
      have "gives_up (lx1\<lparr>l_token := TOKEN_INVALID\<rparr>) bs e" using c(2) by (intro gives_up_holds[of _ "[]" "[]"]) auto
      with er c run nt show ?thesis
        by (intro token_resultI[where lx' = "lx1\<lparr>l_token := TOKEN_INVALID\<rparr>"]) auto
    qed
  next
    case (Cons b r)
    have c: "c = sint b" "holds lx1 [] r e" "no_mark b" using 1(2) Cons by (auto simp: looking_def last_read_def)
    have nm: "c \<noteq> STREAM_STATE_EOF" "c \<noteq> STREAM_STATE_ERROR" using no_mark_sint[OF c(3)] c(1) by auto
    from looks_save[OF 1(2)[unfolded Cons]] obtain lx2 where 2: "lex_save c lx1 = Inr lx2" "scans lx2 [] (b # r) e c" by blast
    have h2: "holds lx2 [b] r e" using 2(2) by (simp add: scanning_def)
    have lr: "length (b # r) < n" "length r < n" "length r \<le> length bs" "length (b # r) \<le> length bs"
      using lcur assms(2) Cons by simp_all
    have c34: "c = 34 \<longleftrightarrow> b = 34" and c45: "c = ch CHR ''-'' \<longleftrightarrow> b = 45" using c(1) by simp_all
    have dig: "l_isdigit c \<longleftrightarrow> is_digit b" "l_isalpha c \<longleftrightarrow> is_alpha b" unfolding c(1) by simp_all
    note run1 = run[unfolded if_not_P[OF nm(1)] if_not_P[OF nm(2)] 2(1) obind_Inr c34 c45 dig]
    consider "c \<in> punctuation" | "c \<notin> punctuation" "b = 34" | "c \<notin> punctuation" "b \<noteq> 34" "is_digit b \<or> b = 45"
      | "c \<notin> punctuation" "b \<noteq> 34" "\<not> (is_digit b \<or> b = 45)" "is_alpha b"
      | "c \<notin> punctuation" "b \<noteq> 34" "\<not> (is_digit b \<or> b = 45)" "\<not> is_alpha b" by blast
    then show ?thesis
    proof cases
      case a: 1
      then have "c \<noteq> TOKEN_INVALID" by (auto simp: punctuation_def tokens)
      moreover have "next_token bs e = Inr (c, None, r)"
        unfolding next_token_def Cons list.case c(1)[symmetric] using a by simp
      ultimately show ?thesis unfolding run1 using a h2
        by (intro token_resultI[where lx' = "lx2\<lparr>l_token := c\<rparr>" and k = c and v = None and r = r])
          (auto simp: good_def)
    next
      case a: 2
      have "next_token bs e = (case items_of r of
              None \<Rightarrow> Inr (TOKEN_INVALID, None, [])
            | Some (is, q) \<Rightarrow> obind (decode_items is) (\<lambda>x. case x of
                Inl msg \<Rightarrow> Inr (TOKEN_INVALID, None, [])
              | Inr s \<Rightarrow> Inr (TOKEN_STRING, Some (VString (Some s)), q)))"
        unfolding next_token_def Cons list.case c(1)[symmetric] using a by simp
      moreover have "lex_scan n lx = lex_scan_string n lx2" unfolding run1 using a by simp
      moreover have "holds lx2 [34] r e" using h2 a by simp
      ultimately show ?thesis
        using token_result_mono[OF scan_string_token[OF _ lr(2)], of lx2 e "\<lambda>lx'. gives_up lx' bs e"] gives_up_mono[OF _ lr(3)] by simp
    next
      case a: 3
      have "next_token bs e = (case lex_number (b # r) of None \<Rightarrow> Inr (TOKEN_INVALID, None, [])
          | Some (real, t, q) \<Rightarrow> (case number_value real t of None \<Rightarrow> Inr (TOKEN_INVALID, None, []) | Some (k, v) \<Rightarrow> Inr (k, Some v, ungot q)))"
        unfolding next_token_def Cons list.case c(1)[symmetric] using a by simp
      moreover have "lex_scan n lx = obind (lex_scan_number n c lx2) (\<lambda>(_, lx). Inr lx)" unfolding run1 using a by simp
      ultimately show ?thesis
        using token_result_mono[OF scan_number_token[OF 2(2) lr(1)], of "\<lambda>lx'. gives_up lx' bs e"] gives_up_mono[OF _ lr(4)] by simp
    next
      case a: 4
      have "next_token bs e = Inr (word_token (takeWhile is_alpha (b # r)), None, ungot (dropWhile is_alpha (b # r)))"
        unfolding next_token_def Cons list.case c(1)[symmetric] using a by (simp del: takeWhile.simps dropWhile.simps)
      moreover have "lex_scan n lx = obind (lex_get_save lx2) (\<lambda>(c, lx).
            obind (skip_letters n c lx) (\<lambda>(c, lx).
            obind (lex_unget_unsave c lx) (\<lambda>lx.
            obind (saved_cstr lx) (\<lambda>text. Inr (lx\<lparr>l_token := word_token text\<rparr>)))))"
        unfolding run1 using a by simp
      ultimately show ?thesis
        using token_result_mono[OF scan_word[OF 2(2) a(4) lr(2)], of "\<lambda>lx'. gives_up lx' bs e"] gives_up_mono[OF _ lr(4)] by simp
    next
      case a: 5
      have st: "s_state (l_stream lx2) = STREAM_STATE_OK" using 2(2) by (simp add: scanning_def last_read_def)
      have "length (pending (l_stream lx2)) < 6"
        using length_pending[of "l_stream lx2"] h2 by (auto simp: lexes_def stream_holds_def)
      from save_cached_spec[OF h2 st this] obtain lx' t' where 3: "save_cached 6 lx2 = Inr lx'"
        "holds lx' t' (drop (length (pending (l_stream lx2))) r) e" by blast
      have "length (drop (length (pending (l_stream lx2))) r) \<le> length bs" using lr(3) by simp
      from gives_up_holds[OF 3(2) this] have "gives_up (lx'\<lparr>l_token := TOKEN_INVALID\<rparr>) bs e"
        unfolding gives_up_def by simp
      moreover have "lex_scan n lx = Inr (lx'\<lparr>l_token := TOKEN_INVALID\<rparr>)" unfolding run1 using a 3(1) by (simp add: lex_save_cached_def)
      moreover have "next_token bs e = Inr (TOKEN_INVALID, None, [])"
        unfolding next_token_def Cons list.case c(1)[symmetric] using a by simp
      ultimately show ?thesis by (intro token_resultI[where lx' = "lx'\<lparr>l_token := TOKEN_INVALID\<rparr>"]) auto
    qed
  qed
qed

end

section \<open>From a fresh lexer\<close>

context byte_source
begin

lemma stream_init_holds:
  assumes "valid d"
  shows "stream_holds left valid get (stream_init get d) (fst (text_of (left d))) (snd (text_of (left d)))"
  using assms by (simp add: stream_holds_def stream_init_def buffer_wf_def pending_def)

lemma lex_init_holds:
  assumes "valid d" "length (left d) < 2 ^ 62"
  shows "\<exists>lx. lex_init get d error (\<lambda>_. True) = Inr (Some lx) \<and>
    holds lx [] (fst (text_of (left d))) (snd (text_of (left d))) \<and> l_error lx = error"
proof -
  from sb_holds_init[of "\<lambda>_. True"] obtain sb where sb: "strbuffer_init (\<lambda>_. True)
      \<lparr>sb_value = None, sb_length = 0, sb_size = 0\<rparr> = Inr (0, sb)" "sb_holds sb []" by (auto simp: jsonp_malloc_def STRBUFFER_MIN_SIZE_def)
  have "length (fst (text_of (left d))) < 2 ^ 62" using text_of_length[of "left d"] assms(2) by simp
  with sb stream_init_holds[OF assms(1)] text_of_end[of "left d"] show ?thesis
    by (simp add: lex_init_def lexes_def)
qed

lemma lex_get_spec:
  assumes "holds lx t bs e"
  shows "\<exists>lx'. lex_get lx = Inr (case bs of [] \<Rightarrow> e | b # _ \<Rightarrow> sint b, lx') \<and> holds lx' t (tl bs) e"
proof (cases bs)
  case Nil
  with assms have s: "stream_holds left valid get (l_stream lx) [] e" "sb_holds (l_saved_text lx) t" by (auto simp: lexes_def)
  from stream_get_end[OF s] obtain s' er where "stream_get lx = Inr (e, lx\<lparr>l_stream := s', l_error := er\<rparr>)"
    "stream_holds left valid get s' [] e" by metis
  with Nil assms show ?thesis by (auto simp: lex_get_def lexes_def)
next
  case (Cons b r)
  with assms have s: "stream_holds left valid get (l_stream lx) (b # r) e" by (auto simp: lexes_def)
  from stream_get_next[OF s] obtain s' where "stream_get lx = Inr (sint b, lx\<lparr>l_stream := s'\<rparr>)"
    "stream_holds left valid get s' r e" by blast
  with Cons assms show ?thesis by (auto simp: lex_get_def lexes_def)
qed

end

text \<open>Reading one character after the other.\<close>

fun get_all :: "nat \<Rightarrow> 'd lex_t \<Rightarrow> (int list \<times> 'd lex_t) outcome" where
  "get_all 0 lx = Inr ([], lx)"
| "get_all (Suc n) lx =
     obind (lex_get lx) (\<lambda>(c, lx). obind (get_all n lx) (\<lambda>(cs, lx). Inr (c # cs, lx)))"

text \<open>Scanning up to the end of the input or an error; every token with the value that it carries.\<close>

definition token_value :: "'d lex_t \<Rightarrow> lex_value option" where
  "token_value lx =
     (if l_token lx \<in> {TOKEN_STRING, TOKEN_INTEGER, TOKEN_REAL} then Some (l_value lx) else None)"

fun scan_all :: "nat \<Rightarrow> nat \<Rightarrow> 'd lex_t \<Rightarrow> (int \<times> lex_value option) list outcome" where
  "scan_all 0 m lx = Inl Diverges"
| "scan_all (Suc n) m lx =
     obind (lex_scan m lx) (\<lambda>lx.
     if l_token lx \<in> {TOKEN_EOF, TOKEN_INVALID} then Inr [(l_token lx, None)]
     else obind (scan_all n m lx) (\<lambda>ts. Inr ((l_token lx, token_value lx) # ts)))"

text \<open>The same list read off the text.\<close>

fun tokens_of :: "nat \<Rightarrow> byte list \<Rightarrow> int \<Rightarrow> (int \<times> lex_value option) list outcome" where
  "tokens_of 0 bs e = Inl Diverges"
| "tokens_of (Suc n) bs e =
     obind (next_token bs e) (\<lambda>(k, v, r).
     if k \<in> {TOKEN_EOF, TOKEN_INVALID} then Inr [(k, None)]
     else obind (tokens_of n r e) (\<lambda>ts. Inr ((k, v) # ts)))"

text \<open>A token and the value that it carries belong together.\<close>

definition token_ok :: "int \<Rightarrow> lex_value option \<Rightarrow> bool" where
  "token_ok k v \<longleftrightarrow> (case v of
       None \<Rightarrow> k \<notin> {TOKEN_STRING, TOKEN_INTEGER, TOKEN_REAL}
     | Some (VString s) \<Rightarrow> k = TOKEN_STRING \<and> s \<noteq> None
     | Some (VInteger i) \<Rightarrow> k = TOKEN_INTEGER
     | Some (VReal x) \<Rightarrow> k = TOKEN_REAL)"

lemma token_ok_None: "token_ok k v \<Longrightarrow> v = None \<longleftrightarrow> k \<notin> {TOKEN_STRING, TOKEN_INTEGER, TOKEN_REAL}"
  by (auto simp: token_ok_def split: option.splits lex_value.splits)

lemma number_value_kind: "number_value real t = Some (k, v) \<Longrightarrow> token_ok k (Some v)"
  by (auto simp: number_value_def token_ok_def split: if_splits sum.splits option.splits prod.splits)

lemma word_token_kind: "word_token w \<notin> {TOKEN_STRING, TOKEN_INTEGER, TOKEN_REAL}"
  by (simp add: word_token_def tokens)

lemma lex_number_shorter:
  assumes "lex_number cur = Some (real, t, q)"
  shows "length q < length cur"
proof -
  obtain t0 r0 where p: "int_part cur = Some (t0, r0)" using assms by (auto simp: lex_number_def split: option.splits)
  from int_part_digits[OF p] have "length r0 < length cur" by (auto simp: signed_digits_def all_digits_def split: if_splits)
  moreover have "length q \<le> length r0"
    using assms p frac_part_text exp_part_text
    by (fastforce simp: lex_number_def split: option.splits if_splits)
  ultimately show ?thesis by simp
qed

lemma items_of_shorter: "items_of r = Some (is, q) \<Longrightarrow> length q < length r"
  using items_of_ok by fastforce

lemma number_token_facts:
  assumes "(case lex_number cur of None \<Rightarrow> Inr (TOKEN_INVALID, None, []) | Some (real, t, q) \<Rightarrow>
     (case number_value real t of None \<Rightarrow> Inr (TOKEN_INVALID, None, []) | Some (k, v) \<Rightarrow> Inr (k, Some v, ungot q))) =
     (Inr (k, v, r) :: (int \<times> lex_value option \<times> byte list) outcome)"
  shows "k = TOKEN_INVALID \<and> v = None \<and> r = [] \<or> token_ok k v \<and> length r < length cur"
proof (cases "lex_number cur")
  case (Some a)
  obtain real t q where a: "a = (real, t, q)" by (cases a)
  have "length (ungot q) < length cur" using lex_number_shorter[OF Some[unfolded a]] length_ungot[of q] by simp
  with assms Some a number_value_kind show ?thesis by (auto split: option.splits prod.splits)
qed (use assms in auto)

lemma string_token_facts:
  assumes "(case items_of cur of None \<Rightarrow> Inr (TOKEN_INVALID, None, [])
     | Some (is, q) \<Rightarrow> obind (decode_items is) (\<lambda>x. case x of Inl msg \<Rightarrow> Inr (TOKEN_INVALID, None, [])
       | Inr s \<Rightarrow> Inr (TOKEN_STRING, Some (VString (Some s)), q))) = Inr (k, v, r)"
  shows "k = TOKEN_INVALID \<and> v = None \<and> r = [] \<or> token_ok k v \<and> length r < length cur"
proof (cases "items_of cur")
  case (Some a)
  obtain "is" q where a: "a = (is, q)" by (cases a)
  from assms obtain x where "decode_items is = Inr x" "(case x of Inl msg \<Rightarrow> Inr (TOKEN_INVALID, None, [])
       | Inr s \<Rightarrow> Inr (TOKEN_STRING, Some (VString (Some s)), q)) = (Inr (k, v, r) :: (int \<times> lex_value option \<times> byte list) outcome)"
    unfolding Some a by (auto simp: obind_eq_Inr)
  with items_of_shorter[OF Some[unfolded a]] show ?thesis by (cases x) (auto simp: token_ok_def)
qed (use assms in auto)

lemma next_token_facts:
  assumes "next_token bs e = Inr (k, v, r)"
  shows "token_ok k v \<and>
    length r \<le> length bs \<and> (k \<in> {TOKEN_EOF, TOKEN_INVALID} \<or> length r < length bs)"
proof (cases "dropWhile is_space bs")
  case Nil
  with assms show ?thesis by (auto simp: next_token_def token_ok_def tokens split: if_splits)
next
  case (Cons b q)
  have len: "length (b # q) \<le> length bs" using length_dropWhile_le[of is_space bs] Cons by simp
  have nt: "next_token bs e = (if sint b \<in> punctuation then Inr (sint b, None, q)
     else if b = 34 then (case items_of q of None \<Rightarrow> Inr (TOKEN_INVALID, None, [])
       | Some (is, q) \<Rightarrow> obind (decode_items is) (\<lambda>x. case x of Inl msg \<Rightarrow> Inr (TOKEN_INVALID, None, [])
         | Inr s \<Rightarrow> Inr (TOKEN_STRING, Some (VString (Some s)), q)))
     else if is_digit b \<or> b = 45 then (case lex_number (b # q) of None \<Rightarrow> Inr (TOKEN_INVALID, None, [])
       | Some (real, t, q) \<Rightarrow> (case number_value real t of None \<Rightarrow> Inr (TOKEN_INVALID, None, [])
         | Some (k, v) \<Rightarrow> Inr (k, Some v, ungot q)))
     else if is_alpha b then Inr (word_token (takeWhile is_alpha (b # q)), None, ungot (dropWhile is_alpha (b # q)))
     else Inr (TOKEN_INVALID, None, []))" by (simp only: next_token_def Cons list.case)
  consider "sint b \<in> punctuation" | "sint b \<notin> punctuation" "b = 34" | "sint b \<notin> punctuation" "b \<noteq> 34" "is_digit b \<or> b = 45"
    | "sint b \<notin> punctuation" "b \<noteq> 34" "\<not> (is_digit b \<or> b = 45)" by blast
  then show ?thesis
  proof cases
    case 1
    with assms nt have "k = sint b" "v = None" "r = q" by auto
    with 1 len show ?thesis by (auto simp: token_ok_def punctuation_def tokens)
  next
    case 2
    with nt assms string_token_facts[of q k v r] len show ?thesis by (auto simp: token_ok_def tokens)
  next
    case 3
    then have "next_token bs e = (case lex_number (b # q) of None \<Rightarrow> Inr (TOKEN_INVALID, None, [])
       | Some (real, t, q) \<Rightarrow> (case number_value real t of None \<Rightarrow> Inr (TOKEN_INVALID, None, [])
         | Some (k, v) \<Rightarrow> Inr (k, Some v, ungot q)))" unfolding nt by simp
    with assms number_token_facts[of "b # q" k v r] len show ?thesis by (auto simp: token_ok_def tokens)
  next
    case 4
    have "is_alpha b \<Longrightarrow> length (ungot (dropWhile is_alpha (b # q))) \<le> length q"
      using length_ungot[of "dropWhile is_alpha q"] length_dropWhile_le[of is_alpha q] by simp
    with 4 nt assms word_token_kind[of "takeWhile is_alpha (b # q)"] len show ?thesis by (auto simp: token_ok_def tokens split: if_splits)
  qed
qed

context byte_source
begin

lemma get_all_spec:
  "holds lx t bs e \<Longrightarrow> \<exists>lx'. get_all n lx = Inr (take n (map sint bs @ replicate n e), lx')"
proof (induction n arbitrary: lx bs)
  case (Suc n)
  from lex_get_spec[OF Suc.prems] obtain lx' where g: "lex_get lx = Inr (case bs of [] \<Rightarrow> e | b # _ \<Rightarrow> sint b, lx')"
    "holds lx' t (tl bs) e" by blast
  from Suc.IH[OF g(2)] obtain lx'' where "get_all n lx' = Inr (take n (map sint (tl bs) @ replicate n e), lx'')" by blast
  with g(1) show ?case by (cases bs) (simp_all add: replicate_append_same flip: replicate_Suc)
qed simp

lemma scan_all_spec:
  "holds lx t bs e \<Longrightarrow> length bs < m \<Longrightarrow> scan_all n m lx = tokens_of n bs e"
proof (induction n arbitrary: lx t bs)
  case (Suc n)
  show ?case
  proof (cases "next_token bs e")
    case (Inl f)
    with lex_scan_spec[OF Suc.prems] show ?thesis by (simp add: token_result_def)
  next
    case (Inr a)
    obtain k v r where a: "a = (k, v, r)" by (cases a)
    from lex_scan_spec[OF Suc.prems] Inr a obtain lx' where lx: "lex_scan m lx = Inr lx'" "l_token lx' = k"
      "\<forall>x. v = Some x \<longrightarrow> l_value lx' = x" "k \<noteq> TOKEN_INVALID \<longrightarrow> good e lx' r" by (auto simp: token_result_def)
    show ?thesis
    proof (cases "k \<in> {TOKEN_EOF, TOKEN_INVALID}")
      case True
      with lx Inr a show ?thesis by auto
    next
      case False
      with lx(4) obtain t' where h: "holds lx' t' r e" by (auto simp: good_def)
      from next_token_facts[OF Inr[unfolded a]] False Suc.prems(2) have "length r < m" by auto
      from Suc.IH[OF h this] have rec: "scan_all n m lx' = tokens_of n r e" .
      have "token_value lx' = v"
        using token_ok_None[of k v] next_token_facts[OF Inr[unfolded a]] lx(2,3) by (cases v) (auto simp: token_value_def)
      with lx Inr a False rec show ?thesis by auto
    qed
  qed
qed simp

end

section \<open>Faults of the lexer\<close>

text \<open>A fault is the assertion on the digits of an escape, nothing else.\<close>

definition returns_or_aborts :: "'a outcome \<Rightarrow> bool" where
  "returns_or_aborts r \<longleftrightarrow> (\<exists>x. r = Inr x) \<or> r = Inl Assert_Failed"

lemma returns_or_aborts_simps [simp]: "returns_or_aborts (Inr x)" "returns_or_aborts (Inl f) \<longleftrightarrow> f = Assert_Failed"
  by (simp_all add: returns_or_aborts_def)

lemma returns_or_aborts_obind:
  "returns_or_aborts m \<Longrightarrow> (\<And>x. m = Inr x \<Longrightarrow> returns_or_aborts (f x)) \<Longrightarrow> returns_or_aborts (obind m f)"
  by (auto simp: returns_or_aborts_def)

lemma escape_value_faults: "returns_or_aborts (escape_value ds v)"
  by (induction ds arbitrary: v) (auto split: option.splits)

lemma decode_items_faults: "returns_or_aborts (decode_items is)"
proof (induction "is" rule: decode_items.induct)
  case (4 ds "is")
  have p: "returns_or_aborts (prepend bs r)" if "returns_or_aborts r" for bs r
    using that by (auto simp: prepend_def intro: returns_or_aborts_obind)
  show ?case
  proof (cases "escape_value ds 0")
    case (Inl f)
    with escape_value_faults[of ds 0] show ?thesis by simp
  next
    case (Inr v)
    consider "0xD800 \<le> v \<and> v \<le> 0xDBFF" | "\<not> (0xD800 \<le> v \<and> v \<le> 0xDBFF)" by blast
    then show ?thesis
    proof cases
      case 1
      show ?thesis
      proof (cases "\<exists>ds2 is2. is = Unicode ds2 # is2")
        case True
        then obtain ds2 is2 where is2: "is = Unicode ds2 # is2" by blast
        show ?thesis
        proof (cases "escape_value ds2 0")
          case (Inl f)
          with escape_value_faults[of ds2 0] Inr 1 is2 show ?thesis by simp
        next
          case w: (Inr w)
          with Inr 1 is2 4(1)[OF Inr 1 is2 refl w] p show ?thesis by simp
        qed
      next
        case False
        with Inr 1 show ?thesis by (auto split: list.split item.split)
      qed
    next
      case 2
      with Inr 4(2)[OF Inr 2] p show ?thesis by (simp only: decode_items.simps obind_Inr if_not_P[OF 2]) simp
    qed
  qed
qed (auto simp: prepend_def intro: returns_or_aborts_obind)

lemma next_token_faults: "returns_or_aborts (next_token bs e)"
proof -
  have str: "returns_or_aborts (case items_of q of None \<Rightarrow> Inr (TOKEN_INVALID, None, [])
     | Some (is, q) \<Rightarrow> obind (decode_items is) (\<lambda>x. case x of Inl msg \<Rightarrow> Inr (TOKEN_INVALID, None, [])
       | Inr s \<Rightarrow> Inr (TOKEN_STRING, Some (VString (Some s)), q)))" for q
  proof (cases "items_of q")
    case (Some a)
    obtain "is" r where "a = (is, r)" by (cases a)
    with Some show ?thesis by (auto intro!: returns_or_aborts_obind[OF decode_items_faults] split: sum.split)
  qed simp
  have num: "returns_or_aborts (case lex_number cur of None \<Rightarrow> Inr (TOKEN_INVALID, None, []) | Some (real, t, q) \<Rightarrow>
     (case number_value real t of None \<Rightarrow> Inr (TOKEN_INVALID, None, []) | Some (k, v) \<Rightarrow> Inr (k, Some v, ungot q)))" for cur
    by (simp split: option.split prod.split)
  show ?thesis
  proof (cases "dropWhile is_space bs")
    case (Cons b q)
    with str[of q] num[of "b # q"] show ?thesis by (simp add: next_token_def)
  next
    case Nil
    show ?thesis unfolding next_token_def Nil by simp
  qed
qed

lemma tokens_of_faults: "length bs < n \<Longrightarrow> returns_or_aborts (tokens_of n bs e)"
proof (induction n arbitrary: bs)
  case (Suc n)
  show ?case
  proof (cases "next_token bs e")
    case (Inl f)
    with next_token_faults[of bs e] show ?thesis by simp
  next
    case (Inr a)
    obtain k v r where a: "a = (k, v, r)" by (cases a)
    show ?thesis
    proof (cases "k \<in> {TOKEN_EOF, TOKEN_INVALID}")
      case True
      with Inr a show ?thesis by simp
    next
      case False
      with next_token_facts[OF Inr[unfolded a]] Suc.prems have "length r < n" by auto
      have "returns_or_aborts (obind (tokens_of n r e) (\<lambda>ts. Inr ((k, v) # ts)))"
        by (rule returns_or_aborts_obind[OF Suc.IH[OF \<open>length r < n\<close>]]) simp
      with False Inr a show ?thesis by simp
    qed
  qed
qed simp

end
