(* ===== verification/Json_Tree.thy ===== *)
theory Json_Tree
  imports Json_Value
begin

text \<open>
  Values as trees.  \<open>tree_at\<close> reads the tree off the heap, \<open>grown\<close> says what a heap has
  gained, and the two storing lemmas are what the parser needs of \<open>value.c\<close>: putting a value
  that it owns into an array or an object that it owns.
\<close>

section \<open>Trees in the heap\<close>

datatype jtree =
    TObject "byte list \<rightharpoonup> jtree"
  | TArray "jtree list"
  | TString "byte list"
  | TInteger json_int_t
  | TReal double
  | TTrue
  | TFalse
  | TNull

text \<open>The value at \<open>p\<close> is the tree \<open>t\<close>.\<close>

inductive tree_at :: "jheap \<Rightarrow> jptr \<Rightarrow> jtree \<Rightarrow> bool" for h where
  tree_true: "cells h json_true = Some c \<Longrightarrow> body c = True_body \<Longrightarrow> tree_at h json_true TTrue"
| tree_false: "cells h json_false = Some c \<Longrightarrow> body c = False_body \<Longrightarrow> tree_at h json_false TFalse"
| tree_null: "cells h json_null = Some c \<Longrightarrow> body c = Null_body \<Longrightarrow> tree_at h json_null TNull"
| tree_string: "p \<noteq> 0 \<Longrightarrow> cells h p = Some c \<Longrightarrow> body c = String s \<Longrightarrow> tree_at h p (TString s)"
| tree_integer: "p \<noteq> 0 \<Longrightarrow> cells h p = Some c \<Longrightarrow> body c = Integer i \<Longrightarrow> tree_at h p (TInteger i)"
| tree_real: "p \<noteq> 0 \<Longrightarrow> cells h p = Some c \<Longrightarrow> body c = Real r \<Longrightarrow> tree_at h p (TReal r)"
| tree_array: "array_at h p n vs \<Longrightarrow> list_all2 (tree_at h) vs ts \<Longrightarrow> tree_at h p (TArray ts)"
| tree_object: "object_at h p k M \<Longrightarrow> dom T = dom M \<Longrightarrow>
    (\<forall>key v t. M key = Some v \<longrightarrow> T key = Some t \<longrightarrow> tree_at h v t) \<Longrightarrow> tree_at h p (TObject T)"

text \<open>What a value that was built in a heap changes of it: it has the new cells \<open>S\<close>.\<close>

definition grown :: "jheap \<Rightarrow> jheap \<Rightarrow> nat set \<Rightarrow> bool" where
  "grown h0 h S \<longleftrightarrow> jheap_wf h \<and> jnext h0 \<le> jnext h \<and> (\<forall>q \<in> S. jnext h0 \<le> q) \<and> (\<forall>q. q \<notin> S \<longrightarrow> cells h q = cells h0 q)"

definition agree :: "nat set \<Rightarrow> jheap \<Rightarrow> jheap \<Rightarrow> bool" where
  "agree S h h' \<longleftrightarrow> (\<forall>q \<in> S \<union> static_ptrs. cells h' q = cells h q)"

lemma agreeD: "agree S h h' \<Longrightarrow> q \<in> S \<or> q \<in> static_ptrs \<Longrightarrow> cells h' q = cells h q"
  by (auto simp: agree_def)

lemma agree_mono: "agree S h h' \<Longrightarrow> T \<subseteq> S \<Longrightarrow> agree T h h'"
  by (auto simp: agree_def)

lemma owns_agree: "owns h p S \<Longrightarrow> agree S h h' \<Longrightarrow> owns h' p S"
proof (induction rule: owns.induct)
  case (owns_static p c)
  then show ?case by (intro owns.owns_static[of _ _ c]) (auto simp: agree_def)
next
  case (owns_leaf p b)
  then show ?case by (intro owns.owns_leaf[of _ _ b]) (auto simp: agree_def)
next
  case (owns_array p array vs rest Ss)
  have "list_all2 (owns h') vs Ss"
    using owns_array.IH owns_array.prems
    by (auto simp: list_all2_conv_all_nth intro!: agree_mono[OF owns_array.prems])
  with owns_array show ?case by (intro owns.owns_array) (auto simp: agree_def)
next
  case (owns_object p obj vs Ss)
  have "list_all2 (owns h') vs Ss"
    using owns_object.IH owns_object.prems
    by (auto simp: list_all2_conv_all_nth intro!: agree_mono[OF owns_object.prems])
  with owns_object show ?case by (intro owns.owns_object) (auto simp: agree_def)
qed

lemma table_values_rep:
  assumes "ht_rep ht N" "table_values ht vs"
  shows "set vs = snd ` ran N"
proof -
  from assms(1) obtain bl where bl: "ht_wf ht bl" "N = map_of (entries ht bl)" by (auto simp: ht_rep_def)
  from assms(2) obtain bl' where bl': "ht_wf ht bl'" "vs = map (\<lambda>a. snd (entry_of ht a)) (ring_nodes bl')" by (auto simp: table_values_def)
  have nodes: "set (ring_nodes bl) = set (ring_nodes bl')"
  proof -
    have "set (ring_nodes b) = {a. live ht a} - {0}" if "ht_wf ht b" for b
      using that wf_node[OF that] by (auto simp: ht_wf_def)
    with bl(1) bl'(1) show ?thesis by simp
  qed
  have "ran N = entry_of ht ` set (ring_nodes bl)"
    unfolding bl(2) ran_def map_of_entries[OF bl(1)] by blast
  then show ?thesis unfolding bl'(2) nodes by auto
qed

text \<open>The cells that a value is read from.\<close>

lemma owns_cells: "owns h p S \<Longrightarrow> \<forall>q \<in> S. cells h q \<noteq> None"
  using owns_freeable by (auto simp: freeable_def)

lemma owns_arrayE:
  assumes "owns h p S" "array_at h p n vs" "p \<notin> static_ptrs"
  obtains Ss where "list_all2 (owns h) vs Ss" "disjoint_sets Ss" "p \<notin> \<Union>(set Ss)" "S = insert p (\<Union>(set Ss))"
proof -
  from assms(2) obtain c array rest where c: "cells h p = Some c" "body c = Array array" "a_entries array = length vs"
    "a_table array = map Some vs @ rest" by (rule array_atE)
  from assms(1) show thesis
  proof (cases rule: owns.cases)
    case (owns_array array' vs' rest' Ss)
    with c have "length vs' = length vs" "map Some vs' @ rest' = map Some vs @ rest" by auto
    then have "vs' = vs" by (simp add: inj_on_def)
    with owns_array show thesis by (intro that) auto
  qed (use assms(3) c in auto)
qed

lemma owns_objectE:
  assumes "owns h p S" "object_at h p k M" "p \<notin> static_ptrs"
  obtains vs Ss where "list_all2 (owns h) vs Ss" "disjoint_sets Ss" "p \<notin> \<Union>(set Ss)" "S = insert p (\<Union>(set Ss))"
    "set vs = ran M"
proof -
  from assms(2) obtain c ob N where c: "cells h p = Some c" "body c = Object ob" "ht_rep (hashtable ob) N" "M = map_option snd \<circ> N"
    by (rule object_atE)
  have ran: "ran M = snd ` ran N" unfolding c(4) by (force simp: ran_def image_iff)
  from assms(1) show thesis
  proof (cases rule: owns.cases)
    case (owns_object obj vs Ss)
    with c have "obj = ob" by auto
    with owns_object table_values_rep[OF c(3)] ran show thesis by (intro that[of vs Ss]) auto
  qed (use assms(3) c in auto)
qed

lemma array_at_agree: "array_at h p n vs \<Longrightarrow> cells h' p = cells h p \<Longrightarrow> array_at h' p n vs"
  by (simp add: array_at_def)

lemma object_at_agree: "object_at h p k M \<Longrightarrow> cells h' p = cells h p \<Longrightarrow> object_at h' p k M"
  by (simp add: object_at_def)

text \<open>The three constants are where they belong.\<close>

definition statics :: "jheap \<Rightarrow> bool" where
  "statics h \<longleftrightarrow> cells h json_true = Some \<lparr>refcount = -1, body = True_body\<rparr> \<and>
     cells h json_false = Some \<lparr>refcount = -1, body = False_body\<rparr> \<and> cells h json_null = Some \<lparr>refcount = -1, body = Null_body\<rparr>"

lemma static_body:
  assumes "statics h" "p \<in> static_ptrs" "cells h p = Some c"
  shows "body c \<in> {True_body, False_body, Null_body}"
  using assms by (auto simp: statics_def static_ptrs_def json_true_def json_false_def json_null_def)

lemma owns_self: "owns h p S \<Longrightarrow> p \<in> S \<or> p \<in> static_ptrs"
  by (cases rule: owns.cases) auto

lemma tree_at_agree: "tree_at h p t \<Longrightarrow> statics h \<Longrightarrow> owns h p S \<Longrightarrow> agree S h h' \<Longrightarrow> tree_at h' p t"
proof (induction arbitrary: S rule: tree_at.induct)
  case (tree_array p n vs ts)
  note cell = agreeD[OF tree_array.prems(3) owns_self[OF tree_array.prems(2)]]
  have "p \<notin> static_ptrs" using tree_array.hyps(1) static_body[OF tree_array.prems(1)] by (elim array_atE) fastforce
  with tree_array obtain Ss where Ss: "list_all2 (owns h) vs Ss" "S = insert p (\<Union>(set Ss))" by (elim owns_arrayE)
  have "list_all2 (tree_at h') vs ts"
    unfolding list_all2_conv_all_nth
  proof (intro conjI allI impI)
    show "length vs = length ts" using tree_array.IH by (rule list_all2_lengthD)
    fix i assume i: "i < length vs"
    with Ss have "owns h (vs ! i) (Ss ! i)" "Ss ! i \<subseteq> S" by (auto simp: list_all2_conv_all_nth)
    moreover from this(2) tree_array.prems(3) have "agree (Ss ! i) h h'" by (rule agree_mono[rotated])
    ultimately show "tree_at h' (vs ! i) (ts ! i)"
      using tree_array.IH i tree_array.prems(1) by (auto simp: list_all2_conv_all_nth)
  qed
  with array_at_agree[OF tree_array.hyps(1) cell] show ?case by (rule tree_at.tree_array)
next
  case (tree_object p k M T)
  note cell = agreeD[OF tree_object.prems(3) owns_self[OF tree_object.prems(2)]]
  have "p \<notin> static_ptrs" using tree_object.hyps(1) static_body[OF tree_object.prems(1)] by (elim object_atE) fastforce
  with tree_object obtain vs Ss where Ss: "list_all2 (owns h) vs Ss" "S = insert p (\<Union>(set Ss))" "set vs = ran M"
    by (elim owns_objectE)
  have "tree_at h' v t" if "M key = Some v" "T key = Some t" for key v t
  proof -
    have "v \<in> set vs" using that(1) Ss(3) by (auto simp: ran_def)
    then obtain i where i: "i < length vs" "v = vs ! i" by (auto simp: in_set_conv_nth)
    with Ss have "owns h v (Ss ! i)" "Ss ! i \<subseteq> S" by (auto simp: list_all2_conv_all_nth)
    with tree_object.IH that tree_object.prems show ?thesis by (blast intro: agree_mono)
  qed
  with object_at_agree[OF tree_object.hyps(1) cell] tree_object.hyps(2) show ?case by (intro tree_at.tree_object) auto
qed (use owns_self in \<open>auto simp: agree_def intro: tree_at.intros\<close>)


section \<open>Building and freeing\<close>

lemma grown_refl: "jheap_wf h \<Longrightarrow> grown h h {}"
  by (simp add: grown_def)

lemma grown_trans: "grown h0 h1 S \<Longrightarrow> grown h1 h2 T \<Longrightarrow> grown h0 h2 (S \<union> T)"
  by (force simp: grown_def)

lemma grown_wf: "grown h0 h S \<Longrightarrow> jheap_wf h"
  by (simp add: grown_def)

lemma fresh_cell: "jheap_wf h \<Longrightarrow> jnext h \<le> q \<Longrightarrow> cells h q = None"
  by (cases "cells h q") (auto simp: jheap_wf_def)

lemma grown_fresh:
  "grown h0 h S \<Longrightarrow> jheap_wf h0 \<Longrightarrow> cells h q \<noteq> None \<Longrightarrow> q \<in> S \<or> q < jnext h0"
  using fresh_cell[of h0 q] by (auto simp: grown_def)

lemma statics_used: "statics h \<Longrightarrow> jheap_wf h \<Longrightarrow> q \<in> static_ptrs \<Longrightarrow> q < jnext h"
  by (auto simp: statics_def jheap_wf_def static_ptrs_def json_true_def json_false_def json_null_def)

lemma grown_static:
  assumes "grown h0 h S" "statics h0" "jheap_wf h0"
  shows "S \<inter> static_ptrs = {}" "statics h"
proof -
  show *: "S \<inter> static_ptrs = {}" using assms statics_used[OF assms(2,3)] by (force simp: grown_def)
  have "json_true \<in> static_ptrs" "json_false \<in> static_ptrs" "json_null \<in> static_ptrs"
    by (simp_all add: static_ptrs_def json_true_def json_false_def json_null_def)
  with * have "json_true \<notin> S" "json_false \<notin> S" "json_null \<notin> S" by blast+
  with assms(1,2) show "statics h" by (simp add: grown_def statics_def)
qed

text \<open>The later growth of the heap leaves an earlier value alone.\<close>

lemma grown_agree:
  assumes "grown h1 h2 T" "statics h1" "jheap_wf h1" "\<forall>q \<in> S. cells h1 q \<noteq> None"
  shows "agree S h1 h2"
proof -
  have "q \<notin> T" if "q \<in> S \<union> static_ptrs" for q
  proof
    assume "q \<in> T"
    then have "jnext h1 \<le> q" using assms(1) by (simp add: grown_def)
    then have "cells h1 q = None" by (rule fresh_cell[OF assms(3)])
    with assms(4) that have "q \<in> static_ptrs" by auto
    with statics_used[OF assms(2,3)] \<open>jnext h1 \<le> q\<close> show False by fastforce
  qed
  with assms(1) show ?thesis by (simp add: agree_def grown_def)
qed

lemma drop_grown:
  assumes "grown h0 h S" "owns h p S" "jheap_wf h0"
  shows "json_decref p h = Inr (drop_cells S h)" "grown h0 (drop_cells S h) {}"
proof -
  show "json_decref p h = Inr (drop_cells S h)" by (rule json_decref_owns[OF grown_wf[OF assms(1)] assms(2)])
  have "cells h0 q = None" if "q \<in> S" for q using assms(1,3) that by (intro fresh_cell) (simp_all add: grown_def)
  with assms(1) show "grown h0 (drop_cells S h) {}" by (auto simp: grown_def jheap_wf_def split: if_splits)
qed

text \<open>A new value of one cell.\<close>

lemma new_leaf:
  assumes "jheap_wf h" "0 < jnext h" "statics h" "body_type b \<in> {JSON_STRING, JSON_INTEGER, JSON_REAL}"
    "cells h' = (cells h)(jnext h \<mapsto> \<lparr>refcount = 1, body = b\<rparr>)" "jnext h' = Suc (jnext h)"
  shows "owns h' (jnext h) {jnext h}" "grown h h' {jnext h}"
proof -
  have "jnext h \<notin> static_ptrs" using statics_used[OF assms(3,1), of "jnext h"] by blast
  with assms show "owns h' (jnext h) {jnext h}" by (intro owns_leaf) auto
  show "grown h h' {jnext h}"
    using assms(1,2,5,6) by (auto simp: grown_def jheap_wf_def intro: less_SucI)
qed

text \<open>The reference that the parser adds to a value and gives back after storing it.\<close>

lemma owned_count:
  assumes "owns h v S"
  obtains c where "cells h v = Some c" "v \<noteq> 0" "refcount c = -1 \<or> refcount c = 1"
  using assms
proof (cases rule: owns.cases)
  case (owns_static c)
  then show thesis using that[of c] by (auto simp: static_ptrs_def)
qed (auto intro: that)

definition raised :: "jptr \<Rightarrow> jheap \<Rightarrow> jheap" where
  "raised v h = (case cells h v of None \<Rightarrow> h | Some c \<Rightarrow>
     if refcount c = -1 then h else h\<lparr>cells := (cells h)(v \<mapsto> c\<lparr>refcount := refcount c + 1\<rparr>)\<rparr>)"

lemma raised_incref: "owns h v S \<Longrightarrow> json_incref v h = Inr (raised v h)"
  by (elim owned_count) (auto simp: json_incref_def get_cell_def put_refcount_def raised_def)

lemma raised_simps [simp]: "jnext (raised v h) = jnext h" "jmem (raised v h) = jmem h" "q \<noteq> v \<Longrightarrow> cells (raised v h) q = cells h q"
  by (auto simp: raised_def split: option.split)

text \<open>Giving the reference back.\<close>

lemma lowered:
  assumes "owns h v S" "cells h1 v = cells (raised v h) v"
  shows "\<exists>h'. json_decref v h1 = Inr h' \<and> cells h' = (cells h1)(v := cells h v) \<and> jnext h' = jnext h1 \<and> jmem h' = jmem h1"
proof -
  from assms(1) obtain c where c: "cells h v = Some c" "v \<noteq> 0" "refcount c = -1 \<or> refcount c = 1" by (rule owned_count)
  show ?thesis
  proof (cases "refcount c = -1")
    case True
    with c assms(2) have "cells h1 v = Some c" by (simp add: raised_def)
    with True c show ?thesis
      by (intro exI[of _ h1]) (auto simp: json_decref_def get_cell_def fun_eq_iff)
  next
    case False
    with c have r: "refcount c = 1" by simp
    with c assms(2) have "cells h1 v = Some (c\<lparr>refcount := 2\<rparr>)" by (simp add: raised_def)
    moreover have "c\<lparr>refcount := 1\<rparr> = c" using r by (cases c) simp
    ultimately show ?thesis using c
      by (intro exI[of _ "h1\<lparr>cells := (cells h1)(v \<mapsto> c)\<rparr>"]) (auto simp: json_decref_def get_cell_def put_refcount_def)
  qed
qed

section \<open>Storing a value in a container\<close>

text \<open>An array under construction: \<open>Ss\<close> are the cells of its elements.\<close>

definition array_built :: "jheap \<Rightarrow> jptr \<Rightarrow> jptr list \<Rightarrow> nat set list \<Rightarrow> jtree list \<Rightarrow> bool" where
  "array_built h p vs Ss ts \<longleftrightarrow> (\<exists>n. array_at h p n vs) \<and> map_option refcount (cells h p) = Some 1 \<and> p \<notin> static_ptrs \<and>
     list_all2 (owns h) vs Ss \<and> disjoint_sets Ss \<and> p \<notin> \<Union>(set Ss) \<and> list_all2 (tree_at h) vs ts"

lemma array_built_owns:
  assumes "array_built h p vs Ss ts"
  shows "owns h p (insert p (\<Union>(set Ss)))" "tree_at h p (TArray ts)" "p \<noteq> 0"
proof -
  from assms obtain n where a: "array_at h p n vs" "map_option refcount (cells h p) = Some 1" "p \<notin> static_ptrs"
    "list_all2 (owns h) vs Ss" "disjoint_sets Ss" "p \<notin> \<Union>(set Ss)" "list_all2 (tree_at h) vs ts"
    by (auto simp: array_built_def)
  from a(1) obtain c array rest where c: "p \<noteq> 0" "cells h p = Some c" "body c = Array array" "a_entries array = length vs"
    "a_table array = map Some vs @ rest" by (rule array_atE)
  from c a(2) have "cells h p = Some \<lparr>refcount = 1, body = Array array\<rparr>" by (cases c) auto
  with a c show "owns h p (insert p (\<Union>(set Ss)))" by (intro owns_array) auto
  show "tree_at h p (TArray ts)" using a(1,7) by (rule tree_array)
  show "p \<noteq> 0" by (rule c(1))
qed

lemma disjoint_sets_snoc: "disjoint_sets (Ss @ [S]) \<longleftrightarrow> disjoint_sets Ss \<and> \<Union>(set Ss) \<inter> S = {}"
  by (induction Ss) auto

lemma all_agree:
  assumes "list_all2 (owns h) vs Ss" "list_all2 (tree_at h) vs ts" "statics h" "\<And>S. S \<in> set Ss \<Longrightarrow> agree S h h'"
  shows "list_all2 (owns h') vs Ss" "list_all2 (tree_at h') vs ts"
proof -
  show "list_all2 (owns h') vs Ss"
    using assms(1) owns_agree assms(4) unfolding list_all2_conv_all_nth by (metis nth_mem)
  show "list_all2 (tree_at h') vs ts"
    using assms(1,2) tree_at_agree[OF _ assms(3)] assms(4) unfolding list_all2_conv_all_nth by (metis nth_mem)
qed

lemma array_append_spec:
  assumes built: "array_built h p vs Ss ts" and v: "owns h v S" "tree_at h v t" "p \<notin> S" "\<Union>(set Ss) \<inter> S = {}"
    and st: "statics h" and wf: "jheap_wf h" and mem: "0 < jmem h"
  shows "\<exists>h1 h'. json_array_append p v h = Inr (0, h1) \<and> json_decref v h1 = Inr h' \<and>
    array_built h' p (vs @ [v]) (Ss @ [S]) (ts @ [t]) \<and> only_changes p h h' \<and> jmem h \<le> Suc (jmem h')"
proof -
  from built obtain n where a: "array_at h p n vs" "map_option refcount (cells h p) = Some 1" "p \<notin> static_ptrs"
    "list_all2 (owns h) vs Ss" "disjoint_sets Ss" "p \<notin> \<Union>(set Ss)" "list_all2 (tree_at h) vs ts"
    by (auto simp: array_built_def)
  have pv: "p \<noteq> v" using owns_self[OF v(1)] v(3) a(3) by auto
  have v0: "v \<noteq> 0" using v(1) by (elim owned_count)
  have "array_at (raised v h) p n vs" using array_at_agree[OF a(1)] pv by simp
  from json_array_append_new_spec[OF this v0 pv] mem obtain h1 n' where
    h1: "json_array_append_new p v (raised v h) = Inr (0, h1)" "array_at h1 p n' (vs @ [v])"
      "only_changes p (raised v h) h1" "jmem h \<le> Suc (jmem h1)" by auto
  from h1(3) pv have c1: "cells h1 v = cells (raised v h) v" by (auto simp: only_changes_def)
  from lowered[OF v(1) c1] obtain h' where h': "json_decref v h1 = Inr h'" "cells h' = (cells h1)(v := cells h v)"
    "jnext h' = jnext h1" "jmem h' = jmem h1" by blast
  have ch: "only_changes p h h'"
    using h1(3) h'(2,3) pv by (auto simp: only_changes_def)
  have ag: "agree A h h'" if "p \<notin> A" for A
    using ch that a(3) by (auto simp: agree_def only_changes_def)
  have "array_at h' p n' (vs @ [v])" using array_at_agree[OF h1(2)] h'(2) pv by simp
  moreover have "map_option refcount (cells h' p) = Some 1" using ch a(2) by (simp add: only_changes_def)
  moreover have "agree A h h'" if "A \<in> set Ss" for A using ag that a(6) by blast
  then have "list_all2 (owns h') vs Ss" "list_all2 (tree_at h') vs ts" using all_agree[OF a(4,7) st] by blast+
  then have "list_all2 (owns h') (vs @ [v]) (Ss @ [S])" "list_all2 (tree_at h') (vs @ [v]) (ts @ [t])"
    using owns_agree[OF v(1) ag[OF v(3)]] tree_at_agree[OF v(2) st v(1) ag[OF v(3)]]
    by (auto intro!: list_all2_appendI)
  moreover have "disjoint_sets (Ss @ [S])" "p \<notin> \<Union>(set (Ss @ [S]))" using a(5,6) v(3,4) by (auto simp: disjoint_sets_snoc)
  ultimately have "array_built h' p (vs @ [v]) (Ss @ [S]) (ts @ [t])" using a(3) unfolding array_built_def by blast
  moreover have "json_array_append p v h = Inr (0, h1)"
    using raised_incref[OF v(1)] h1(1) by (simp add: json_array_append_def)
  ultimately show ?thesis using h' ch h1(4) by auto
qed

text \<open>An object under construction: \<open>own\<close> are the cells of the value of each key.\<close>

definition object_built :: "jheap \<Rightarrow> jptr \<Rightarrow> nat \<Rightarrow> (byte list \<rightharpoonup> jptr) \<Rightarrow> (byte list \<Rightarrow> nat set) \<Rightarrow> (byte list \<rightharpoonup> jtree) \<Rightarrow> bool" where
  "object_built h p k M own T \<longleftrightarrow> object_at h p k M \<and> map_option refcount (cells h p) = Some 1 \<and> p \<notin> static_ptrs \<and> dom T = dom M \<and>
     (\<forall>key v t. M key = Some v \<longrightarrow> T key = Some t \<longrightarrow> owns h v (own key) \<and> tree_at h v t) \<and>
     (\<forall>key. M key = None \<longrightarrow> own key = {}) \<and> (\<forall>key. p \<notin> own key) \<and>
     (\<forall>a b. a \<noteq> b \<longrightarrow> own a \<inter> own b = {})"

lemma union_over: "(\<And>k. k \<notin> K \<Longrightarrow> f k = {}) \<Longrightarrow> \<Union>(f ` K) = \<Union>(range f)"
  by blast

lemma object_built_owns:
  assumes "object_built h p k M own T"
  shows "owns h p (insert p (\<Union>(range own)))" "tree_at h p (TObject T)" "p \<noteq> 0"
proof -
  from assms have o: "object_at h p k M" "map_option refcount (cells h p) = Some 1" "p \<notin> static_ptrs" "dom T = dom M"
    "\<forall>key v t. M key = Some v \<longrightarrow> T key = Some t \<longrightarrow> owns h v (own key) \<and> tree_at h v t"
    "\<forall>key. M key = None \<longrightarrow> own key = {}" "\<forall>key. p \<notin> own key" "\<forall>a b. a \<noteq> b \<longrightarrow> own a \<inter> own b = {}"
    by (auto simp: object_built_def)
  from o(1) obtain c ob N where c: "p \<noteq> 0" "cells h p = Some c" "body c = Object ob" "ht_rep (hashtable ob) N"
    "M = map_option snd \<circ> N" by (rule object_atE)
  from c(4) obtain bl where bl: "ht_wf (hashtable ob) bl" "N = map_of (entries (hashtable ob) bl)" by (auto simp: ht_rep_def)
  let ?ks = "map (key_of (hashtable ob)) (ring_nodes bl)"
  let ?vs = "map (\<lambda>a. snd (entry_of (hashtable ob) a)) (ring_nodes bl)"
  have "distinct (ring_nodes bl)" using bl(1) by (rule ht_wfE)
  then have dk: "distinct ?ks" using bl(1) by (simp add: ht_wf_def distinct_map)
  have M: "M (key_of (hashtable ob) a) = Some (snd (entry_of (hashtable ob) a))" if "a \<in> set (ring_nodes bl)" for a
  proof -
    have "N (key_of (hashtable ob) a) = Some (entry_of (hashtable ob) a)" unfolding bl(2) map_of_entries[OF bl(1)] using that by blast
    then show ?thesis by (simp add: c(5))
  qed
  have dom: "M key \<noteq> None \<longleftrightarrow> key \<in> set ?ks" for key
  proof -
    have "M key \<noteq> None \<longleftrightarrow> (\<exists>e. N key = Some e)" by (simp add: c(5))
    also have "\<dots> \<longleftrightarrow> (\<exists>a \<in> set (ring_nodes bl). key_of (hashtable ob) a = key)" unfolding bl(2) map_of_entries[OF bl(1)] by blast
    finally show ?thesis by auto
  qed
  have "owns h (snd (entry_of (hashtable ob) a)) (own (key_of (hashtable ob) a))" if "a \<in> set (ring_nodes bl)" for a
  proof -
    from M[OF that] have "key_of (hashtable ob) a \<in> dom T" unfolding o(4) by blast
    with M[OF that] o(5) show ?thesis by blast
  qed
  then have all: "list_all2 (owns h) ?vs (map own ?ks)"
    by (simp add: list_all2_map1 list_all2_map2 list_all2_same)
  have "disjoint_sets (map own ks)" if "distinct ks" for ks
    using that
  proof (induction ks)
    case (Cons k ks)
    have "own k \<inter> own a = {}" if "a \<in> set ks" for a using Cons.prems that o(8) by (metis distinct.simps(2))
    with Cons show ?case by auto
  qed simp
  then have disj: "disjoint_sets (map own ?ks)" using dk by blast
  have un: "\<Union>(set (map own ?ks)) = \<Union>(range own)"
  proof -
    have "own key = {}" if "key \<notin> set ?ks" for key using o(6) dom that by blast
    then show ?thesis unfolding set_map[of own] by (rule union_over)
  qed
  have "table_values (hashtable ob) ?vs" using bl(1) by (auto simp: table_values_def)
  moreover have "cells h p = Some \<lparr>refcount = 1, body = Object ob\<rparr>" using c(2,3) o(2) by (cases c) auto
  moreover have "p \<notin> \<Union>(set (map own ?ks))" using o(7) by auto
  ultimately show "owns h p (insert p (\<Union>(range own)))"
    using owns_object[OF c(1) o(3) _ _ all disj] unfolding un by blast
  show "tree_at h p (TObject T)" using o(1,4,5) by (intro tree_object) auto
  show "p \<noteq> 0" by (rule c(1))
qed

lemma agree_raised:
  assumes "owns h v S" "A \<inter> S = {}" "statics h"
  shows "agree A h (raised v h)"
proof -
  have "cells (raised v h) q = cells h q" if q: "q \<in> A \<union> static_ptrs" for q
  proof (cases "q = v")
    case True
    from assms(1) have "v \<in> static_ptrs \<or> v \<in> S \<and> S \<inter> static_ptrs = {}"
      using owns_self[OF assms(1)] owns_freeable[OF assms(1)] by (auto simp: freeable_def)
    then have "v \<in> static_ptrs" using True q assms(2) by auto
    then have "\<exists>b. cells h v = Some \<lparr>refcount = -1, body = b\<rparr>" using assms(3)
      by (auto simp: statics_def static_ptrs_def json_true_def json_false_def json_null_def)
    with True show ?thesis by (auto simp: raised_def)
  qed simp
  then show ?thesis by (auto simp: agree_def)
qed

lemma raised_wf: "jheap_wf h \<Longrightarrow> jheap_wf (raised v h)"
  by (auto simp: raised_def jheap_wf_def split: option.splits if_splits)

lemma object_built_member:
  assumes "object_built h p k M own T" "M key = Some w"
  shows "owns h w (own key) \<and> p \<notin> own key"
proof -
  from assms(1) have o: "dom T = dom M" "\<forall>key. p \<notin> own key"
    "\<forall>key v t. M key = Some v \<longrightarrow> T key = Some t \<longrightarrow> owns h v (own key) \<and> tree_at h v t"
    unfolding object_built_def by blast+
  from assms(2) o(1) obtain t where "T key = Some t" by blast
  with o assms(2) show ?thesis by blast
qed

lemma object_built_static:
  assumes "object_built h p k M own T"
  shows "own key \<inter> static_ptrs = {}"
proof (cases "M key")
  case (Some w)
  with object_built_member[OF assms] show ?thesis using owns_freeable unfolding freeable_def by blast
next
  case None
  with assms show ?thesis unfolding object_built_def by blast
qed

text \<open>Storing a value in an object passes the reference on to it.\<close>

lemma object_built_set:
  assumes built: "object_built h p k M own T" and v: "owns h v S" "tree_at h v t" "p \<notin> S" "\<Union>(range own) \<inter> S = {}"
    and st: "statics h" and obj: "object_at h' p k' (M(key \<mapsto> v))" and ch: "changes_and_frees p (own key) h h'"
  shows "object_built h' p k' (M(key \<mapsto> v)) (own(key := S)) (T(key \<mapsto> t))"
proof -
  from built have o: "object_at h p k M" "map_option refcount (cells h p) = Some 1" "p \<notin> static_ptrs" "dom T = dom M"
    "\<forall>key v t. M key = Some v \<longrightarrow> T key = Some t \<longrightarrow> owns h v (own key) \<and> tree_at h v t"
    "\<forall>key. M key = None \<longrightarrow> own key = {}" "\<forall>key. p \<notin> own key" "\<forall>a b. a \<noteq> b \<longrightarrow> own a \<inter> own b = {}"
    by (auto simp: object_built_def)
  have st_key: "own key \<inter> static_ptrs = {}" by (rule object_built_static[OF built])
  have ag2: "agree A h h'" if "p \<notin> A" "A \<inter> own key = {}" for A
    unfolding agree_def
  proof
    fix q assume "q \<in> A \<union> static_ptrs"
    with that o(3) st_key have "q \<noteq> p" "q \<notin> own key" by auto
    with ch show "cells h' q = cells h q" by (simp add: changes_and_frees_def)
  qed
  have agS: "agree S h h'" using v(3,4) by (intro ag2) auto
  show ?thesis
    unfolding object_built_def
  proof (intro conjI allI impI)
    show "object_at h' p k' (M(key \<mapsto> v))" by (rule obj)
    show "map_option refcount (cells h' p) = Some 1" using ch o(2) by (simp add: changes_and_frees_def)
    show "p \<notin> static_ptrs" by (rule o(3))
    show "dom (T(key \<mapsto> t)) = dom (M(key \<mapsto> v))" using o(4) by simp
    show "p \<notin> (own(key := S)) a" for a using o(7) v(3) by simp
    show "(own(key := S)) a = {}" if "(M(key \<mapsto> v)) a = None" for a using that o(6) by (auto split: if_splits)
    show "(own(key := S)) a \<inter> (own(key := S)) b = {}" if "a \<noteq> b" for a b
      using that o(8) v(4) by (auto simp: disjoint_iff)
    fix a w u assume a: "(M(key \<mapsto> v)) a = Some w" "(T(key \<mapsto> t)) a = Some u"
    have "owns h' w ((own(key := S)) a) \<and> tree_at h' w u"
    proof (cases "a = key")
      case True
      with a owns_agree[OF v(1) agS] tree_at_agree[OF v(2) st v(1) agS] show ?thesis by simp
    next
      case False
      with a o(5) have w: "owns h w (own a)" "tree_at h w u" by auto
      have "agree (own a) h h'" using False o(7,8) by (intro ag2) auto
      with False owns_agree[OF w(1)] tree_at_agree[OF w(2) st w(1)] show ?thesis by simp
    qed
    then show "owns h' w ((own(key := S)) a)" "tree_at h' w u" by simp_all
  qed
qed

lemma object_put_spec:
  assumes built: "object_built h p k M own T" and v: "owns h v S" "tree_at h v t" "p \<notin> S" "\<Union>(range own) \<inter> S = {}"
    and st: "statics h" and wf: "jheap_wf h" and mem: "2 \<le> jmem h" and k: "k < 1610612741"
  shows "\<exists>h' k'. json_object_set_new_nocheck p (Some key) v h = Inr (0, h') \<and>
    object_built h' p k' (M(key \<mapsto> v)) (own(key := S)) (T(key \<mapsto> t)) \<and> k' \<le> Suc k \<and>
    changes_and_frees p (own key) h h' \<and> jmem h \<le> jmem h' + 2"
proof -
  from built have o: "object_at h p k M" "p \<notin> static_ptrs" "M key = None \<Longrightarrow> own key = {}"
    by (auto simp: object_built_def)
  have "p \<noteq> v" "v \<noteq> 0" using owns_self[OF v(1)] v(3) o(2) v(1) by (auto elim: owned_count)
  from json_object_set_new_spec[OF o(1) this(2,1) k mem wf o(2), of key "own key"] object_built_member[OF built] o(3) obtain h' where
    h': "json_object_set_new_nocheck p (Some key) v h = Inr (0, h')"
      "object_at h' p (if M key = None then Suc k else k) (M(key \<mapsto> v))" "changes_and_frees p (own key) h h'"
      "jmem h \<le> jmem h' + 2" by blast
  from h' object_built_set[OF built v st h'(2,3)] show ?thesis by (intro exI[of _ h'] exI[of _ "if M key = None then Suc k else k"]) simp
qed

lemma object_set_spec:
  assumes built: "object_built h p k M own T" and v: "owns h v S" "tree_at h v t" "p \<notin> S" "\<Union>(range own) \<inter> S = {}"
    and st: "statics h" and wf: "jheap_wf h" and mem: "2 \<le> jmem h" and k: "k < 1610612741"
  shows "\<exists>h1 h' k'. json_object_set_nocheck p (Some key) v h = Inr (0, h1) \<and> json_decref v h1 = Inr h' \<and>
    object_built h' p k' (M(key \<mapsto> v)) (own(key := S)) (T(key \<mapsto> t)) \<and> k' \<le> Suc k \<and>
    changes_and_frees p (own key) h h' \<and> jmem h \<le> jmem h' + 2"
proof -
  from built have o: "object_at h p k M" "p \<notin> static_ptrs" "M key = None \<Longrightarrow> own key = {}"
    by (auto simp: object_built_def)
  have pv: "p \<noteq> v" using owns_self[OF v(1)] v(3) o(2) by auto
  have v0: "v \<noteq> 0" using v(1) by (elim owned_count)
  have obj: "object_at (raised v h) p k M" using object_at_agree[OF o(1)] pv by simp
  have "own key \<inter> S = {}" using v(4) by auto
  note ag = agree_raised[OF v(1) this st]
  have old: "owns (raised v h) w (own key) \<and> p \<notin> own key" if "M key = Some w" for w
    using object_built_member[OF built that] owns_agree[OF _ ag] by blast
  have "2 \<le> jmem (raised v h)" using mem by simp
  from json_object_set_new_spec[OF obj v0 pv k this raised_wf[OF wf] o(2) old o(3)] obtain h1 where
    h1: "json_object_set_new_nocheck p (Some key) v (raised v h) = Inr (0, h1)"
      "object_at h1 p (if M key = None then Suc k else k) (M(key \<mapsto> v))" "changes_and_frees p (own key) (raised v h) h1"
      "jmem h \<le> jmem h1 + 2" by auto
  have vk: "v \<notin> own key" using owns_self[OF v(1)] v(4) object_built_static[OF built, of key] by auto
  have c1: "cells h1 v = cells (raised v h) v" using h1(3) pv vk by (auto simp: changes_and_frees_def)
  from lowered[OF v(1) c1] obtain h' where h': "json_decref v h1 = Inr h'" "cells h' = (cells h1)(v := cells h v)"
    "jnext h' = jnext h1" "jmem h' = jmem h1" by blast
  have ch: "changes_and_frees p (own key) h h'"
    using h1(3) h'(2,3) pv vk by (auto simp: changes_and_frees_def)
  let ?k = "if M key = None then Suc k else k"
  have "object_at h' p ?k (M(key \<mapsto> v))" using object_at_agree[OF h1(2)] h'(2) pv by simp
  note object_built_set[OF built v st this ch]
  moreover have "json_object_set_nocheck p (Some key) v h = Inr (0, h1)"
    using raised_incref[OF v(1)] h1(1) by (simp add: json_object_set_nocheck_def)
  moreover have "?k \<le> Suc k" by simp
  ultimately show ?thesis using h' ch h1(4) by metis
qed

end
