(* ===== verification/Json_Grammar.thy ===== *)
theory Json_Grammar
  imports Json_Tokens Json_Tree
begin

text \<open>
  The grammar that \<open>parse_json\<close> of \<open>load.c\<close> accepts and the value that it gives to a text, as
  functions of the tokens alone, and that they end on every text.
\<close>

section \<open>The grammar\<close>

text \<open>
  What the text denotes: the parser without its heap.  \<open>k\<close> and \<open>v\<close> are the current token and its
  value, \<open>r\<close> is the text behind it and \<open>e\<close> its end mark; \<open>None\<close> is a text that is refused.
\<close>

type_synonym meaning = "(jtree \<times> byte list) option outcome"

type_synonym grammar = "int \<Rightarrow> lex_value option \<Rightarrow> byte list \<Rightarrow> meaning"

definition on_token :: "byte list \<Rightarrow> int \<Rightarrow> (int \<Rightarrow> lex_value option \<Rightarrow> byte list \<Rightarrow> 'a outcome) \<Rightarrow> 'a outcome" where
  "on_token r e f = obind (next_token r e) (\<lambda>(k, v, r). f k v r)"

definition on_value :: "meaning \<Rightarrow> (jtree \<Rightarrow> byte list \<Rightarrow> 'a option outcome) \<Rightarrow> 'a option outcome" where
  "on_value x f = obind x (\<lambda>y. case y of None \<Rightarrow> Inr None | Some (t, r) \<Rightarrow> f t r)"

text \<open>Behind an element: a comma and more of the container, or its end.\<close>

definition on_separator :: "int \<Rightarrow> int \<Rightarrow> jtree \<Rightarrow> grammar \<Rightarrow> byte list \<Rightarrow> meaning" where
  "on_separator e close t again r =
     on_token r e (\<lambda>k v r. if k = ch CHR '','' then on_token r e again
       else if k = close then Inr (Some (t, r)) else Inr None)"

fun elements_of :: "nat \<Rightarrow> grammar \<Rightarrow> int \<Rightarrow> jtree list \<Rightarrow> grammar" where
  "elements_of 0 pv e ts k v r = Inl Diverges"
| "elements_of (Suc n) pv e ts k v r =
     (if k = TOKEN_EOF then Inr None
      else on_value (pv k v r) (\<lambda>t. on_separator e (ch CHR '']'') (TArray (ts @ [t])) (elements_of n pv e (ts @ [t]))))"

fun members_of :: "nat \<Rightarrow> grammar \<Rightarrow> size_t \<Rightarrow> int \<Rightarrow> (byte list \<rightharpoonup> jtree) \<Rightarrow> grammar" where
  "members_of 0 pv flags e T k v r = Inl Diverges"
| "members_of (Suc n) pv flags e T k v r =
     (case v of Some (VString (Some key)) \<Rightarrow>
        if flags AND JSON_REJECT_DUPLICATES \<noteq> 0 \<and> T key \<noteq> None then Inr None
        else on_token r e (\<lambda>k v r. if k \<noteq> ch CHR '':'' then Inr None
          else on_token r e (\<lambda>k v r. on_value (pv k v r) (\<lambda>t.
            on_separator e (ch CHR ''}'') (TObject (T(key \<mapsto> t))) (members_of n pv flags e (T(key \<mapsto> t))))))
      | _ \<Rightarrow> Inr None)"

fun value_of :: "nat \<Rightarrow> nat \<Rightarrow> size_t \<Rightarrow> int \<Rightarrow> grammar" where
  "value_of 0 m flags e k v r = Inl Diverges"
| "value_of (Suc n) m flags e k v r =
     (case v of
        Some (VString s) \<Rightarrow> Inr (map_option (\<lambda>s. (TString s, r)) s)
      | Some (VInteger i) \<Rightarrow> Inr (Some (TInteger i, r))
      | Some (VReal x) \<Rightarrow> Inr (if isnan x \<or> isinf x then None else Some (TReal x, r))
      | None \<Rightarrow>
          if k = TOKEN_TRUE then Inr (Some (TTrue, r))
          else if k = TOKEN_FALSE then Inr (Some (TFalse, r))
          else if k = TOKEN_NULL then Inr (Some (TNull, r))
          else if k = ch CHR ''{''
          then on_token r e (\<lambda>k v r. if k = ch CHR ''}'' then Inr (Some (TObject Map.empty, r))
            else members_of m (value_of n m flags e) flags e Map.empty k v r)
          else if k = ch CHR ''[''
          then on_token r e (\<lambda>k v r. if k = ch CHR '']'' then Inr (Some (TArray [], r))
            else elements_of m (value_of n m flags e) e [] k v r)
          else Inr None)"

definition text_value :: "nat \<Rightarrow> size_t \<Rightarrow> byte list \<Rightarrow> int \<Rightarrow> jtree option outcome" where
  "text_value n flags bs e =
     on_token bs e (\<lambda>k v r.
     if flags AND JSON_DECODE_ANY = 0 \<and> k \<noteq> ch CHR ''['' \<and> k \<noteq> ch CHR ''{'' then Inr None
     else on_value (value_of n n flags e k v r) (\<lambda>t r.
       if flags AND JSON_DISABLE_EOF_CHECK = 0
       then on_token r e (\<lambda>k v r. Inr (if k = TOKEN_EOF then Some t else None))
       else Inr (Some t)))"

text \<open>Enough rounds: one again than the bytes of the text.\<close>

definition advances :: "nat \<Rightarrow> meaning \<Rightarrow> bool" where
  "advances L x \<longleftrightarrow> returns_or_aborts x \<and> (\<forall>t r. x = Inr (Some (t, r)) \<longrightarrow> length r \<le> L)"

lemma advances_simps [simp]: "advances L (Inr None)" "advances L (Inr (Some (t, r))) \<longleftrightarrow> length r \<le> L"
  by (auto simp: advances_def)

lemma advances_mono: "advances L x \<Longrightarrow> L \<le> M \<Longrightarrow> advances M x"
  by (fastforce simp: advances_def)

lemma on_token_aborts:
  assumes "\<And>k v q. next_token r e = Inr (k, v, q) \<Longrightarrow> returns_or_aborts (f k v q)"
  shows "returns_or_aborts (on_token r e f)"
  unfolding on_token_def by (rule returns_or_aborts_obind[OF next_token_faults]) (use assms in auto)

lemma on_token_advances:
  assumes "\<And>k v q. length q \<le> length r \<Longrightarrow> (k \<in> {TOKEN_EOF, TOKEN_INVALID} \<or> length q < length r) \<Longrightarrow>
      token_ok k v \<Longrightarrow> advances L (f k v q)"
  shows "advances L (on_token r e f)"
proof (cases "next_token r e")
  case (Inl f)
  with next_token_faults[of r e] show ?thesis by (simp add: advances_def on_token_def)
next
  case (Inr a)
  obtain k v q where a: "a = (k, v, q)" by (cases a)
  from assms[of q k v] next_token_facts[OF Inr[unfolded a]] Inr a show ?thesis by (auto simp: on_token_def)
qed

lemma on_value_advances:
  assumes "advances M x" "\<And>t r. length r \<le> M \<Longrightarrow> advances L (f t r)"
  shows "advances L (on_value x f)"
proof (cases x)
  case (Inl f)
  with assms(1) show ?thesis by (simp add: advances_def on_value_def)
next
  case (Inr y)
  with assms show ?thesis by (cases y) (auto simp: advances_def on_value_def)
qed

lemma punctuation_kinds: "ch CHR '','' \<notin> {TOKEN_EOF, TOKEN_INVALID}" "ch CHR '']'' \<notin> {TOKEN_EOF, TOKEN_INVALID}"
  "ch CHR '':'' \<notin> {TOKEN_EOF, TOKEN_INVALID}" "ch CHR ''}'' \<notin> {TOKEN_EOF, TOKEN_INVALID}"
  by (simp_all add: tokens)

lemma on_separator_advances:
  assumes "\<And>k v q. length q < length r \<Longrightarrow> advances L (again k v q)" "length r \<le> L"
  shows "advances L (on_separator e close t again r)"
  unfolding on_separator_def
proof (rule on_token_advances)
  fix k :: int and v and q :: "byte list" assume q: "length q \<le> length r" "k \<in> {TOKEN_EOF, TOKEN_INVALID} \<or> length q < length r"
  have "advances L (on_token q e again)" if "k = ch CHR '',''"
    by (rule on_token_advances) (use q that punctuation_kinds(1) assms(1) in auto)
  with q assms(2) show "advances L (if k = ch CHR '','' then on_token q e again
      else if k = close then Inr (Some (t, q)) else Inr None)" by simp
qed

lemma elements_advance:
  assumes pv: "\<And>k v r. length r < m \<Longrightarrow> advances (length r) (pv k v r)"
  shows "length r < n \<Longrightarrow> length r < m \<Longrightarrow> advances (length r) (elements_of n pv e ts k v r)"
proof (induction n arbitrary: ts k v r)
  case (Suc n)
  have "advances (length r) (on_separator e (ch CHR '']'') (TArray (ts @ [t])) (elements_of n pv e (ts @ [t])) q)"
    if q: "length q \<le> length r" for t and q :: "byte list"
  proof (rule on_separator_advances[OF _ q])
    fix k v and q' :: "byte list" assume "length q' < length q"
    with q Suc.prems have "length q' < n" "length q' < m" "length q' \<le> length r" by simp_all
    with Suc.IH show "advances (length r) (elements_of n pv e (ts @ [t]) k v q')" by (blast intro: advances_mono)
  qed
  with on_value_advances[OF pv[OF Suc.prems(2)]] show ?case by simp
qed simp

lemma members_advance:
  assumes pv: "\<And>k v r. length r < m \<Longrightarrow> advances (length r) (pv k v r)"
  shows "length r < n \<Longrightarrow> length r < m \<Longrightarrow> advances (length r) (members_of n pv flags e T k v r)"
proof (induction n arbitrary: T k v r)
  case (Suc n)
  have sep: "advances (length r) (on_separator e (ch CHR ''}'') t (members_of n pv flags e T') q)"
    if q: "length q \<le> length r" for t T' q
  proof (rule on_separator_advances[OF _ q])
    fix k v and q' :: "byte list" assume "length q' < length q"
    with q Suc.prems have "length q' < n" "length q' < m" "length q' \<le> length r" by simp_all
    with Suc.IH show "advances (length r) (members_of n pv flags e T' k v q')" by (blast intro: advances_mono)
  qed
  have val: "advances (length r) (on_token q e (\<lambda>k v r. on_value (pv k v r) (\<lambda>t.
      on_separator e (ch CHR ''}'') (TObject (T(key \<mapsto> t))) (members_of n pv flags e (T(key \<mapsto> t))))))"
    if q: "length q \<le> length r" for q key
  proof (rule on_token_advances)
    fix k v and q' :: "byte list" assume "length q' \<le> length q"
    with q Suc.prems have "length q' < m" "length q' \<le> length r" by simp_all
    from advances_mono[OF pv[OF this(1)] this(2)] sep
    show "advances (length r) (on_value (pv k v q') (\<lambda>t.
      on_separator e (ch CHR ''}'') (TObject (T(key \<mapsto> t))) (members_of n pv flags e (T(key \<mapsto> t)))))"
      by (rule on_value_advances)
  qed
  have "advances (length r) (on_token r e (\<lambda>k v r. if k \<noteq> ch CHR '':'' then Inr None
          else on_token r e (\<lambda>k v r. on_value (pv k v r) (\<lambda>t.
            on_separator e (ch CHR ''}'') (TObject (T(key \<mapsto> t))) (members_of n pv flags e (T(key \<mapsto> t)))))))" for key
    by (rule on_token_advances) (use val in simp)
  then show ?case by (auto split: option.split lex_value.split)
qed simp

lemma value_of_invalid: "token_ok TOKEN_INVALID v \<Longrightarrow> value_of (Suc n) m flags e TOKEN_INVALID v r = Inr None"
  by (auto simp: token_ok_def tokens split: option.splits lex_value.splits)

lemma value_advances: "Suc (length r) < n \<Longrightarrow> Suc (length r) < m \<Longrightarrow> advances (length r) (value_of n m flags e k v r)"
proof (induction n arbitrary: k v r)
  case (Suc n)
  let ?pv = "value_of n m flags e"
  have pv: "advances (length q) (?pv k v q)" if "length q < min (n - 1) (m - 1)" for k v q
    by (rule Suc.IH) (use that in \<open>simp_all add: less_diff_conv\<close>)
  obtain n' where n': "n = Suc n'" using Suc.prems(1) by (cases n) auto
  have sub: "advances (length r) (elements_of m ?pv e [] k v q)" "advances (length r) (members_of m ?pv flags e Map.empty k v q)"
    if "length q \<le> length r" "k \<in> {TOKEN_EOF, TOKEN_INVALID} \<or> length q < length r" "token_ok k v" for k v q
  proof -
    obtain m' where m': "m = Suc m'" using Suc.prems(2) by (cases m) auto
    have "advances (length r) (elements_of m ?pv e [] k v q) \<and> advances (length r) (members_of m ?pv flags e Map.empty k v q)"
    proof (cases "length q < length r")
      case True
      then have "length q < min (n - 1) (m - 1)" "length q < m" using Suc.prems True by (simp_all add: less_diff_conv)
      then show ?thesis
        using elements_advance[of "min (n - 1) (m - 1)" ?pv q m] members_advance[of "min (n - 1) (m - 1)" ?pv q m] pv that(1)
        by (meson advances_mono)
    next
      case False
      then have k: "k = TOKEN_EOF \<or> k = TOKEN_INVALID" using that(2) by auto
      with that(3) have "v = None" using token_ok_None[of k v] by (auto simp: tokens)
      with k that(3) show ?thesis unfolding m' n' by (auto simp: value_of_invalid on_value_def simp del: value_of.simps)
    qed
    then show "advances (length r) (elements_of m ?pv e [] k v q)" "advances (length r) (members_of m ?pv flags e Map.empty k v q)"
      by simp_all
  qed
  have "advances (length r) (on_token r e (\<lambda>k v r. if k = ch CHR ''}'' then Inr (Some (TObject Map.empty, r))
            else members_of m ?pv flags e Map.empty k v r))"
    "advances (length r) (on_token r e (\<lambda>k v r. if k = ch CHR '']'' then Inr (Some (TArray [], r))
            else elements_of m ?pv e [] k v r))"
    by (rule on_token_advances; use sub in simp)+
  moreover have "advances (length r) (Inr (map_option (\<lambda>s. (TString s, r)) x))" for x by (cases x) simp_all
  ultimately show ?case by (auto split: option.split lex_value.split)
qed simp

lemma text_value_returns:
  assumes "length bs + 2 < n"
  shows "returns_or_aborts (text_value n flags bs e)"
  unfolding text_value_def
proof (rule on_token_aborts)
  fix k v q assume nt: "next_token bs e = Inr (k, v, q)"
  have "Suc (length q) < n" using next_token_facts[OF nt] assms by simp
  from value_advances[OF this this, of flags e k v] have adv: "advances (length q) (value_of n n flags e k v q)" .
  have "returns_or_aborts (on_value (value_of n n flags e k v q) (\<lambda>t r.
       if flags AND JSON_DISABLE_EOF_CHECK = 0
       then on_token r e (\<lambda>k v r. Inr (if k = TOKEN_EOF then Some t else None)) else Inr (Some t)))"
    unfolding on_value_def
    by (rule returns_or_aborts_obind) (use adv in \<open>auto simp: advances_def intro!: on_token_aborts split: option.split\<close>)
  then show "returns_or_aborts (if flags AND JSON_DECODE_ANY = 0 \<and> k \<noteq> ch CHR ''['' \<and> k \<noteq> ch CHR ''{'' then Inr None
     else on_value (value_of n n flags e k v q) (\<lambda>t r.
       if flags AND JSON_DISABLE_EOF_CHECK = 0
       then on_token r e (\<lambda>k v r. Inr (if k = TOKEN_EOF then Some t else None)) else Inr (Some t)))" by simp
qed

end
