(* ===== verification/Json_Parse.thy ===== *)
theory Json_Parse
  imports Json_Grammar
begin

text \<open>
  The parser of \<open>load.c\<close> on the heap against the grammar: it returns a new tree that is the
  meaning of the text, or null with everything that it had built freed again.
\<close>

section \<open>The parser\<close>

lemma only_changes_grown:
  assumes "grown h0 h S" "only_changes p h h'" "p \<in> S" "cells h p \<noteq> None"
  shows "grown h0 h' S"
proof -
  have "0 < p \<and> p < jnext h" using assms(1,4) by (auto simp: grown_def jheap_wf_def)
  moreover have "cells h' q = cells h q" if "q \<noteq> p" for q using assms(2) that by (simp add: only_changes_def)
  moreover have "jnext h' = jnext h" using assms(2) by (simp add: only_changes_def)
  ultimately have "jheap_wf h'" using assms(1) unfolding grown_def jheap_wf_def by metis
  with assms show ?thesis by (auto simp: grown_def only_changes_def)
qed

lemma changes_and_frees_grown:
  assumes "grown h0 h S" "changes_and_frees p A h h'" "p \<in> S" "cells h p \<noteq> None" "A \<subseteq> S" "p \<notin> A" "jheap_wf h0"
  shows "grown h0 h' (S - A)"
proof -
  have "0 < p \<and> p < jnext h" using assms(1,4) by (auto simp: grown_def jheap_wf_def)
  moreover have c: "cells h' q = (if q \<in> A then None else cells h q)" if "q \<noteq> p" for q
    using assms(2) that by (simp add: changes_and_frees_def)
  moreover have "jnext h' = jnext h" using assms(2) by (simp add: changes_and_frees_def)
  ultimately have "jheap_wf h'" using assms(1) unfolding grown_def jheap_wf_def by (metis option.distinct(1))
  moreover have "cells h' q = cells h0 q" if "q \<notin> S - A" for q
  proof -
    have "q \<noteq> p" using that assms(3,6) by auto
    show ?thesis
    proof (cases "q \<in> A")
      case True
      then have "jnext h0 \<le> q" using assms(1,5) by (auto simp: grown_def)
      with True c[OF \<open>q \<noteq> p\<close>] fresh_cell[OF assms(7)] show ?thesis by simp
    next
      case False
      with that c[OF \<open>q \<noteq> p\<close>] assms(1) show ?thesis by (simp add: grown_def)
    qed
  qed
  ultimately show ?thesis using assms(1,2) by (simp add: grown_def changes_and_frees_def)
qed

text \<open>A value and the cells it is made of survive whatever else is built.\<close>

lemma value_survives:
  assumes "owns h p S" "grown h h' T" "statics h" "jheap_wf h"
  shows "owns h' p S" "tree_at h p t \<Longrightarrow> tree_at h' p t" "S \<inter> T = {}"
proof -
  have ag: "agree S h h'" by (rule grown_agree[OF assms(2-4) owns_cells[OF assms(1)]])
  show "owns h' p S" by (rule owns_agree[OF assms(1) ag])
  show "tree_at h p t \<Longrightarrow> tree_at h' p t" by (rule tree_at_agree[OF _ assms(3,1) ag])
  have "jnext h \<le> q" if "q \<in> T" for q using assms(2) that by (simp add: grown_def)
  then show "S \<inter> T = {}" using owns_cells[OF assms(1)] fresh_cell[OF assms(4)] by blast
qed

lemma array_built_survives:
  assumes "array_built h p vs Ss ts" "grown h h' T" "statics h" "jheap_wf h"
  shows "array_built h' p vs Ss ts" "insert p (\<Union>(set Ss)) \<inter> T = {}"
proof -
  note own = array_built_owns(1)[OF assms(1)]
  from assms(1) obtain n where a: "array_at h p n vs" "map_option refcount (cells h p) = Some 1" "p \<notin> static_ptrs"
    "list_all2 (owns h) vs Ss" "disjoint_sets Ss" "p \<notin> \<Union>(set Ss)" "list_all2 (tree_at h) vs ts"
    by (auto simp: array_built_def)
  have ag: "agree (insert p (\<Union>(set Ss))) h h'" by (rule grown_agree[OF assms(2-4) owns_cells[OF own]])
  have c: "cells h' p = cells h p" using ag by (simp add: agree_def)
  have "agree S h h'" if "S \<in> set Ss" for S by (rule agree_mono[OF ag]) (use that in auto)
  from all_agree[OF a(4,7) assms(3) this] array_at_agree[OF a(1) c] a(2,3,5,6) c show "array_built h' p vs Ss ts"
    unfolding array_built_def by metis
  show "insert p (\<Union>(set Ss)) \<inter> T = {}" by (rule value_survives(3)[OF own assms(2-4)])
qed

lemma object_built_survives:
  assumes "object_built h p k M own T" "grown h h' U" "statics h" "jheap_wf h"
  shows "object_built h' p k M own T" "insert p (\<Union>(range own)) \<inter> U = {}"
proof -
  note ow = object_built_owns(1)[OF assms(1)]
  have ag: "agree (insert p (\<Union>(range own))) h h'" by (rule grown_agree[OF assms(2-4) owns_cells[OF ow]])
  have c: "cells h' p = cells h p" using ag by (simp add: agree_def)
  have "agree (own key) h h'" for key by (rule agree_mono[OF ag]) auto
  then have "owns h' v (own key) \<and> tree_at h' v t" if "owns h v (own key)" "tree_at h v t" for key v t
    using owns_agree tree_at_agree assms(3) that by blast
  moreover from assms(1) have o: "\<forall>key v t. M key = Some v \<longrightarrow> T key = Some t \<longrightarrow> owns h v (own key) \<and> tree_at h v t"
    "object_at h p k M" by (auto simp: object_built_def)
  ultimately have "\<forall>key v t. M key = Some v \<longrightarrow> T key = Some t \<longrightarrow> owns h' v (own key) \<and> tree_at h' v t" by blast
  with assms(1) object_at_agree[OF o(2) c] c show "object_built h' p k M own T"
    unfolding object_built_def by simp
  show "insert p (\<Union>(range own)) \<inter> U = {}" by (rule value_survives(3)[OF ow assms(2-4)])
qed

lemma token_ok_string: "token_ok TOKEN_STRING v \<Longrightarrow> \<exists>s. v = Some (VString (Some s))"
proof -
  assume ok: "token_ok TOKEN_STRING v"
  then obtain x where x: "v = Some x" by (cases v) (simp_all add: token_ok_def)
  with ok obtain s where "x = VString s" by (cases x) (simp_all add: token_ok_def tokens)
  with ok x show ?thesis by (simp add: token_ok_def)
qed

context byte_source
begin

definition at_token :: "'d lex_t \<Rightarrow> int \<Rightarrow> lex_value option \<Rightarrow> byte list \<Rightarrow> int \<Rightarrow> bool" where
  "at_token lx k v r e \<longleftrightarrow> l_token lx = k \<and> (\<forall>x. v = Some x \<longrightarrow> l_value lx = x) \<and> token_ok k v \<and>
     (\<exists>t bs. holds lx t bs e \<and> (k \<noteq> TOKEN_INVALID \<longrightarrow> bs = r))"

definition alive :: "int \<Rightarrow> 'd lex_t \<Rightarrow> bool" where
  "alive e lx \<longleftrightarrow> (\<exists>t bs. holds lx t bs e)"

lemma at_token_alive: "at_token lx k v r e \<Longrightarrow> alive e lx"
  by (auto simp: at_token_def alive_def)

lemma at_token_holds: "at_token lx k v r e \<Longrightarrow> k \<noteq> TOKEN_INVALID \<Longrightarrow> \<exists>t. holds lx t r e"
  by (auto simp: at_token_def)

lemma scan_at:
  assumes "holds lx t r e" "length r < m" "next_token r e = Inr (k, v, q)"
  shows "\<exists>lx'. lex_scan m lx = Inr lx' \<and> at_token lx' k v q e"
proof -
  from lex_scan_spec[OF assms(1,2)] assms(3) obtain lx' where lx': "lex_scan m lx = Inr lx'" "l_token lx' = k"
    "\<forall>x. v = Some x \<longrightarrow> l_value lx' = x" "if k = TOKEN_INVALID then gives_up lx' r e else good e lx' q"
    by (auto simp: token_result_def)
  moreover have "\<exists>t bs. holds lx' t bs e \<and> (k \<noteq> TOKEN_INVALID \<longrightarrow> bs = q)"
    using lx'(4) by (auto simp: gives_up_def good_def split: if_splits)
  ultimately show ?thesis using next_token_facts[OF assms(3)] by (auto simp: at_token_def)
qed

lemma scan_fault:
  assumes "holds lx t r e" "length r < m" "next_token r e = Inl f"
  shows "lex_scan m lx = Inl f"
  using lex_scan_spec[OF assms(1,2)] assms(3) by (simp add: token_result_def)

text \<open>
  What a call of the parser on the heap \<open>h0\<close> returns, against the meaning \<open>x\<close> of the text: null
  and a heap without new cells, or a new tree.  \<open>B\<close> is the memory that is left over for others,
  \<open>L\<close> the length of the text.
\<close>

definition parse_result :: "int \<Rightarrow> jheap \<Rightarrow> nat \<Rightarrow> nat \<Rightarrow> (jptr \<times> 'd lex_t \<times> jheap) outcome \<Rightarrow> meaning \<Rightarrow> bool" where
  "parse_result e h0 B L res x \<longleftrightarrow> (case x of
       Inl f \<Rightarrow> res = Inl f
     | Inr None \<Rightarrow> \<exists>lx h. res = Inr (0, lx, h) \<and> grown h0 h {} \<and> alive e lx
     | Inr (Some (t, r)) \<Rightarrow> \<exists>p lx h S. res = Inr (p, lx, h) \<and> p \<noteq> 0 \<and> owns h p S \<and> tree_at h p t \<and> grown h0 h S \<and>
         (\<exists>tx. holds lx tx r e) \<and> length r \<le> L \<and> B + 8 * length r \<le> jmem h)"

lemma result_fault: "parse_result e h0 B L (Inl f) (Inl f)"
  by (simp add: parse_result_def)

lemma result_none: "grown h0 h {} \<Longrightarrow> alive e lx \<Longrightarrow> parse_result e h0 B L (Inr (0, lx, h)) (Inr None)"
  by (auto simp: parse_result_def)

lemma result_some:
  "p \<noteq> 0 \<Longrightarrow> owns h p S \<Longrightarrow> tree_at h p t \<Longrightarrow> grown h0 h S \<Longrightarrow> holds lx tx r e \<Longrightarrow> length r \<le> L \<Longrightarrow> B + 8 * length r \<le> jmem h \<Longrightarrow>
   parse_result e h0 B L (Inr (p, lx, h)) (Inr (Some (t, r)))"
  by (auto simp: parse_result_def)

lemma alive_error_set: "alive e lx \<Longrightarrow> \<exists>lx'. error_set msg lx = Inr lx' \<and> alive e lx'"
  unfolding alive_def using holds_error_set by blast

lemma parse_null_result: "alive e lx \<Longrightarrow> grown h0 h {} \<Longrightarrow> parse_result e h0 B L (parse_null msg lx h) (Inr None)"
  using alive_error_set[of e lx msg] by (auto simp: parse_null_def intro: result_none)

lemma parse_fail_result:
  assumes "alive e lx" "grown h0 h S" "owns h p S" "jheap_wf h0"
  shows "parse_result e h0 B L (parse_fail msg p lx h) (Inr None)"
proof -
  have "\<exists>lx'. (case msg of None \<Rightarrow> Inr lx | Some s \<Rightarrow> error_set s lx) = Inr lx' \<and> alive e lx'"
    using assms(1) alive_error_set by (cases msg) auto
  then obtain lx' where "(case msg of None \<Rightarrow> Inr lx | Some s \<Rightarrow> error_set s lx) = Inr lx'" "alive e lx'" by blast
  with drop_grown[OF assms(2-4)] show ?thesis by (auto simp: parse_fail_def intro: result_none)
qed

text \<open>The token that comes next, on both sides.\<close>

lemma scan_result:
  assumes "holds lx t r e" "length r < m"
    and "\<And>lx' k v q. at_token lx' k v q e \<Longrightarrow> length q \<le> length r \<Longrightarrow> k \<in> {TOKEN_EOF, TOKEN_INVALID} \<or> length q < length r \<Longrightarrow>
      parse_result e h0 B L (f lx') (g k v q)"
  shows "parse_result e h0 B L (obind (lex_scan m lx) f) (on_token r e g)"
proof (cases "next_token r e")
  case (Inl fl)
  with scan_fault[OF assms(1,2) Inl] show ?thesis by (simp add: on_token_def result_fault)
next
  case (Inr a)
  obtain k v q where a: "a = (k, v, q)" by (cases a)
  from scan_at[OF assms(1,2) Inr[unfolded a]] obtain lx' where "lex_scan m lx = Inr lx'" "at_token lx' k v q e" by blast
  with assms(3)[of lx' k v q] next_token_facts[OF Inr[unfolded a]] Inr a show ?thesis by (simp add: on_token_def)
qed

text \<open>Behind an element.\<close>

lemma separator_result:
  assumes lx: "holds lx tx r e" "length r < m" "length r \<le> L" and c: "close \<noteq> ch CHR '',''" "close \<noteq> TOKEN_INVALID"
    and p: "p \<noteq> 0" "owns h p S" "tree_at h p t" "grown h0 h S" "jheap_wf h0" and mem: "B + 8 * length r \<le> jmem h"
    and again: "\<And>lx k v q. at_token lx k v q e \<Longrightarrow> length q < length r \<Longrightarrow> B + 8 * length q + 8 \<le> jmem h \<Longrightarrow>
      parse_result e h0 B L (loop lx) (again k v q)"
  shows "parse_result e h0 B L
    (obind (lex_scan m lx) (\<lambda>lx. if l_token lx \<noteq> ch CHR '',''
       then (if l_token lx \<noteq> close then parse_fail (Some msg) p lx h else Inr (p, lx, h))
       else obind (lex_scan m lx) loop))
    (on_separator e close t again r)"
  unfolding on_separator_def
proof (rule scan_result[OF lx(1,2)])
  fix lx' k v q assume at: "at_token lx' k v q e" and q: "length q \<le> length r" "k \<in> {TOKEN_EOF, TOKEN_INVALID} \<or> length q < length r"
  have k: "l_token lx' = k" using at by (simp add: at_token_def)
  consider "k = ch CHR '',''" | "k = close" "k \<noteq> ch CHR '',''" | "k \<noteq> close" "k \<noteq> ch CHR '',''" by blast
  then show "parse_result e h0 B L (if l_token lx' \<noteq> ch CHR '',''
       then (if l_token lx' \<noteq> close then parse_fail (Some msg) p lx' h else Inr (p, lx', h))
       else obind (lex_scan m lx') loop)
     (if k = ch CHR '','' then on_token q e again else if k = close then Inr (Some (t, q)) else Inr None)"
  proof cases
    case 1
    with punctuation_kinds(1) q(2) have lt: "length q < length r" "k \<noteq> TOKEN_INVALID" by auto
    from at_token_holds[OF at lt(2)] obtain tx' where h: "holds lx' tx' q e" by blast
    have "parse_result e h0 B L (obind (lex_scan m lx') loop) (on_token q e again)"
    proof (rule scan_result[OF h])
      show "length q < m" using lt(1) lx(2) by simp
      fix lx2 k2 v2 q2 assume "at_token lx2 k2 v2 q2 e" "length q2 \<le> length q"
      then show "parse_result e h0 B L (loop lx2) (again k2 v2 q2)"
        using lt(1) mem by (intro again) simp_all
    qed
    with 1 k show ?thesis by simp
  next
    case 2
    with at_token_holds[OF at] c(2) obtain tx' where h: "holds lx' tx' q e" by blast
    have "length q \<le> L" "B + 8 * length q \<le> jmem h" using q(1) lx(3) mem by simp_all
    with 2 k p h show ?thesis by (auto intro: result_some)
  next
    case 3
    with k parse_fail_result[OF at_token_alive[OF at] p(4,2,5)] show ?thesis by simp
  qed
qed

text \<open>A parser of values meets a grammar.\<close>

definition parses :: "int \<Rightarrow> nat \<Rightarrow> 'd parser \<Rightarrow> grammar \<Rightarrow> bool" where
  "parses e m pv spec \<longleftrightarrow> (\<forall>lx h k v r B. at_token lx k v r e \<longrightarrow> jheap_wf h \<longrightarrow> statics h \<longrightarrow> length r < m \<longrightarrow>
     length r < 1610612741 \<longrightarrow> k \<in> {TOKEN_EOF, TOKEN_INVALID} \<or> B + 8 * length r + 4 \<le> jmem h \<longrightarrow>
     parse_result e h B (length r) (pv lx h) (spec k v r))"

lemma parsesD:
  "parses e m pv spec \<Longrightarrow> at_token lx k v r e \<Longrightarrow> jheap_wf h \<Longrightarrow> statics h \<Longrightarrow> length r < m \<Longrightarrow> length r < 1610612741 \<Longrightarrow>
   k \<in> {TOKEN_EOF, TOKEN_INVALID} \<or> B + 8 * length r + 4 \<le> jmem h \<Longrightarrow> parse_result e h B (length r) (pv lx h) (spec k v r)"
  unfolding parses_def by blast

lemma array_loop_result:
  assumes pv: "parses e m pv spec"
  shows "at_token lx k v r e \<Longrightarrow> array_built h p vs Ss ts \<Longrightarrow> grown h0 h (insert p (\<Union>(set Ss))) \<Longrightarrow> jheap_wf h0 \<Longrightarrow> statics h0 \<Longrightarrow>
    length r < m \<Longrightarrow> length r < 1610612741 \<Longrightarrow> length r \<le> L \<Longrightarrow> k \<in> {TOKEN_EOF, TOKEN_INVALID} \<or> B + 8 * length r + 5 \<le> jmem h \<Longrightarrow>
    parse_result e h0 B L (array_loop n pv m p lx h) (elements_of n spec e ts k v r)"
proof (induction n arbitrary: lx k v r h vs Ss ts)
  case 0
  then show ?case by (simp add: result_fault)
next
  case (Suc n)
  note at = Suc.prems(1) and built = Suc.prems(2) and gr = Suc.prems(3) and wf0 = Suc.prems(4) and st0 = Suc.prems(5)
    and len = Suc.prems(6-8) and mem = Suc.prems(9)
  note wf = grown_wf[OF gr] and st = grown_static(2)[OF gr st0 wf0]
  have k: "l_token lx = k" using at by (simp add: at_token_def)
  show ?case
  proof (cases "k = TOKEN_EOF")
    case True
    with k parse_fail_result[OF at_token_alive[OF at] gr array_built_owns(1)[OF built] wf0] show ?thesis
      by (simp add: tokens)
  next
    case False
    then have k0: "l_token lx \<noteq> 0" using k by (simp add: tokens)
    let ?msg = "[39, 93, 39] @ cstr '' expected''"
    have "k \<in> {TOKEN_EOF, TOKEN_INVALID} \<or> Suc B + 8 * length r + 4 \<le> jmem h" using mem by auto
    from parsesD[OF pv at wf st len(1,2) this] have val: "parse_result e h (Suc B) (length r) (pv lx h) (spec k v r)" .
    show ?thesis
    proof (cases "spec k v r")
      case (Inl f)
      with val k0 False show ?thesis by (simp add: parse_result_def on_value_def)
    next
      case (Inr y)
      show ?thesis
      proof (cases y)
        case None
        with val Inr obtain lx1 h1 where 1: "pv lx h = Inr (0, lx1, h1)" "grown h h1 {}" "alive e lx1"
          by (auto simp: parse_result_def)
        have "grown h0 h1 (insert p (\<Union>(set Ss)))" using grown_trans[OF gr 1(2)] by simp
        from parse_fail_result[OF 1(3) this array_built_owns(1)[OF array_built_survives(1)[OF built 1(2) st wf]] wf0] 1(1) Inr None k0 False
        show ?thesis by (simp add: on_value_def)
      next
        case (Some tr)
        obtain t r1 where tr: "tr = (t, r1)" by (cases tr)
        with val Inr Some obtain q lx1 h1 S tx where 1: "pv lx h = Inr (q, lx1, h1)" "q \<noteq> 0" "owns h1 q S" "tree_at h1 q t"
          "grown h h1 S" "holds lx1 tx r1 e" "length r1 \<le> length r" "Suc B + 8 * length r1 \<le> jmem h1"
          by (auto simp: parse_result_def)
        note sv = array_built_survives[OF built 1(5) st wf]
        have g1: "grown h0 h1 (insert p (\<Union>(set Ss)) \<union> S)" by (rule grown_trans[OF gr 1(5)])
        have st1: "statics h1" by (rule grown_static(2)[OF 1(5) st wf])
        have "p \<notin> S" "\<Union>(set Ss) \<inter> S = {}" using sv(2) by auto
        from array_append_spec[OF sv(1) 1(3,4) this st1 grown_wf[OF 1(5)]] 1(8) obtain h2 h3 where
          2: "json_array_append p q h1 = Inr (0, h2)" "json_decref q h2 = Inr h3"
            "array_built h3 p (vs @ [q]) (Ss @ [S]) (ts @ [t])" "only_changes p h1 h3" "jmem h1 \<le> Suc (jmem h3)" by auto
        have "cells h1 p \<noteq> None" using owns_cells[OF array_built_owns(1)[OF sv(1)]] by simp
        from only_changes_grown[OF g1 2(4) _ this] have g3: "grown h0 h3 (insert p (\<Union>(set (Ss @ [S]))))"
          by (simp add: Un_commute Un_left_commute insert_commute)
        have mem3: "B + 8 * length r1 \<le> jmem h3" using 1(8) 2(5) by simp
        have sep: "parse_result e h0 B L
          (obind (lex_scan m lx1) (\<lambda>lx. if l_token lx \<noteq> ch CHR '',''
             then (if l_token lx \<noteq> ch CHR '']'' then parse_fail (Some ?msg) p lx h3 else Inr (p, lx, h3))
             else obind (lex_scan m lx) (\<lambda>lx. array_loop n pv m p lx h3)))
          (on_separator e (ch CHR '']'') (TArray (ts @ [t])) (elements_of n spec e (ts @ [t])) r1)"
        proof (rule separator_result[OF 1(6) _ _ _ _ array_built_owns(3)[OF 2(3)] array_built_owns(1)[OF 2(3)] array_built_owns(2)[OF 2(3)] g3 wf0 mem3])
          show "length r1 < m" "length r1 \<le> L" using 1(7) len by simp_all
          show "ch CHR '']'' \<noteq> ch CHR '',''" "ch CHR '']'' \<noteq> TOKEN_INVALID" by (simp_all add: tokens)
          fix lx2 k2 v2 q2 assume "at_token lx2 k2 v2 q2 e" "length q2 < length r1" "B + 8 * length q2 + 8 \<le> jmem h3"
          then show "parse_result e h0 B L (array_loop n pv m p lx2 h3) (elements_of n spec e (ts @ [t]) k2 v2 q2)"
            using 1(7) len by (intro Suc.IH[OF _ 2(3) g3 wf0 st0]) auto
        qed
        then show ?thesis using 1(1,2) 2(1,2) Inr Some tr k0 False by (simp add: on_value_def del: cstr_Cons ch_simps)
      qed
    qed
  qed
qed

lemma member_stored:
  assumes built: "object_built h p k M own T" and gr: "grown h0 h (insert p (\<Union>(range own)))" and wf0: "jheap_wf h0" and st0: "statics h0"
    and v: "owns h1 w S" "tree_at h1 w t" "grown h h1 S" and mem: "2 \<le> jmem h1" and k: "k < 1610612741"
  shows "\<exists>h2 h3 k'. json_object_set_nocheck p (Some key) w h1 = Inr (0, h2) \<and> json_decref w h2 = Inr h3 \<and>
    object_built h3 p k' (M(key \<mapsto> w)) (own(key := S)) (T(key \<mapsto> t)) \<and> k' \<le> Suc k \<and>
    grown h0 h3 (insert p (\<Union>(range (own(key := S))))) \<and> jmem h1 \<le> jmem h3 + 2"
proof -
  note wf = grown_wf[OF gr] and st = grown_static(2)[OF gr st0 wf0]
  note sv = object_built_survives[OF built v(3) st wf]
  have st1: "statics h1" by (rule grown_static(2)[OF v(3) st wf])
  have d: "p \<notin> S" "\<Union>(range own) \<inter> S = {}" using sv(2) by auto
  from object_set_spec[OF sv(1) v(1,2) d st1 grown_wf[OF v(3)] mem k, of key] obtain h2 h3 k' where
    2: "json_object_set_nocheck p (Some key) w h1 = Inr (0, h2)" "json_decref w h2 = Inr h3"
      "object_built h3 p k' (M(key \<mapsto> w)) (own(key := S)) (T(key \<mapsto> t))" "k' \<le> Suc k"
      "changes_and_frees p (own key) h1 h3" "jmem h1 \<le> jmem h3 + 2" by blast
  have g1: "grown h0 h1 (insert p (\<Union>(range own)) \<union> S)" by (rule grown_trans[OF gr v(3)])
  have "cells h1 p \<noteq> None" using owns_cells[OF object_built_owns(1)[OF sv(1)]] by simp
  moreover from built have o: "p \<notin> own key" "\<And>a. a \<noteq> key \<Longrightarrow> own a \<inter> own key = {}" by (auto simp: object_built_def)
  ultimately have "grown h0 h3 ((insert p (\<Union>(range own)) \<union> S) - own key)"
    by (intro changes_and_frees_grown[OF g1 2(5) _ _ _ _ wf0]) auto
  moreover have "(insert p (\<Union>(range own)) \<union> S) - own key = insert p (\<Union>(range (own(key := S))))"
    using o d(2) by (auto split: if_splits) (metis disjoint_iff)+
  ultimately show ?thesis using 2 by auto
qed

lemma object_loop_result:
  assumes pv: "parses e m pv spec"
  shows "at_token lx k v r e \<Longrightarrow> object_built h p nk M own T \<Longrightarrow> grown h0 h (insert p (\<Union>(range own))) \<Longrightarrow> jheap_wf h0 \<Longrightarrow> statics h0 \<Longrightarrow>
    length r < m \<Longrightarrow> nk + length r < 1610612741 \<Longrightarrow> length r \<le> L \<Longrightarrow> k \<in> {TOKEN_EOF, TOKEN_INVALID} \<or> B + 8 * length r + 6 \<le> jmem h \<Longrightarrow>
    parse_result e h0 B L (object_loop n pv m flags p lx h) (members_of n spec flags e T k v r)"
proof (induction n arbitrary: lx k v r h nk M own T)
  case 0
  then show ?case by (simp add: result_fault)
next
  case (Suc n)
  note at = Suc.prems(1) and built = Suc.prems(2) and gr = Suc.prems(3) and wf0 = Suc.prems(4) and st0 = Suc.prems(5)
    and len = Suc.prems(6-8) and mem = Suc.prems(9)
  note wf = grown_wf[OF gr] and st = grown_static(2)[OF gr st0 wf0]
  note own = object_built_owns[OF built]
  note fail = parse_fail_result[OF _ gr own(1) wf0]
  have lk: "l_token lx = k" using at by (simp add: at_token_def)
  show ?case
  proof (cases "k = TOKEN_STRING")
    case False
    then have "\<And>s. v \<noteq> Some (VString s)" using at by (auto simp: at_token_def token_ok_def)
    then have "members_of (Suc n) spec flags e T k v r = Inr None" by (auto split: option.split lex_value.split)
    with False lk fail[OF at_token_alive[OF at]] show ?thesis by simp
  next
    case True
    from at have "token_ok TOKEN_STRING v" "\<forall>x. v = Some x \<longrightarrow> l_value lx = x" using True by (simp_all add: at_token_def)
    with token_ok_string obtain key where v: "v = Some (VString (Some key))" "l_value lx = VString (Some key)" by blast
    let ?lx = "lx\<lparr>l_value := VString None\<rparr>"
    from at_token_holds[OF at] True obtain tx where lx: "holds ?lx tx r e" by (auto simp: tokens)
    have al: "alive e ?lx" using lx by (auto simp: alive_def)
    have steal: "lex_steal_string lx = (Some key, ?lx)" using lk True v(2) by (simp add: lex_steal_string_def)
    from built have obj: "object_at h p nk M" "dom T = dom M"
      "\<forall>key v t. M key = Some v \<longrightarrow> T key = Some t \<longrightarrow> owns h v (own key) \<and> tree_at h v t" by (auto simp: object_built_def)
    obtain dup where dup: "(if flags AND JSON_REJECT_DUPLICATES \<noteq> 0 then json_object_get h p key else Inr 0) = Inr dup"
      "dup \<noteq> 0 \<longleftrightarrow> flags AND JSON_REJECT_DUPLICATES \<noteq> 0 \<and> T key \<noteq> None"
    proof (cases "flags AND JSON_REJECT_DUPLICATES \<noteq> 0")
      case True
      have "w \<noteq> 0" if "M key = Some w" for w
      proof -
        from that obj(2) obtain t where "T key = Some t" by blast
        with that obj(3) have "owns h w (own key)" by blast
        then show ?thesis by (elim owned_count)
      qed
      moreover have "T key = None \<longleftrightarrow> M key = None" using obj(2) by blast
      ultimately show thesis using True json_object_get_spec[OF obj(1), of key] by (cases "M key") (auto intro: that)
    qed (use that in simp)
    show ?thesis
    proof (cases "dup \<noteq> 0")
      case True
      with dup have "members_of (Suc n) spec flags e T k v r = Inr None" unfolding v(1) by simp
      with True lk \<open>k = TOKEN_STRING\<close> steal dup(1) fail[OF al] show ?thesis by simp
    next
      case nodup: False
      let ?sep = "[39, 125, 39] @ cstr '' expected''"
      let ?tail = "\<lambda>lx. obind (pv lx h) (\<lambda>(val, lx, h).
                if val = 0 then parse_fail None p lx h
                else obind (json_object_set_nocheck p (Some key) val h) (\<lambda>(r, h).
                  if r \<noteq> 0 then obind (json_decref val h) (parse_fail None p lx)
                  else obind (json_decref val h) (\<lambda>h.
                    obind (lex_scan m lx) (\<lambda>lx.
                    if l_token lx \<noteq> ch CHR '',''
                    then (if l_token lx \<noteq> ch CHR ''}'' then parse_fail (Some ?sep) p lx h else Inr (p, lx, h))
                    else obind (lex_scan m lx) (\<lambda>lx. object_loop n pv m flags p lx h)))))"
      let ?spec = "\<lambda>k v r. on_value (spec k v r) (\<lambda>t.
            on_separator e (ch CHR ''}'') (TObject (T(key \<mapsto> t))) (members_of n spec flags e (T(key \<mapsto> t))))"
      have tail: "parse_result e h0 B L (?tail lx2) (?spec k2 v2 q)"
        if at2: "at_token lx2 k2 v2 q e" and q: "length q < length r" for lx2 k2 v2 q
      proof -
        have mem2: "k2 \<in> {TOKEN_EOF, TOKEN_INVALID} \<or> (B + 2) + 8 * length q + 4 \<le> jmem h"
          using mem q True by (auto simp: tokens)
        have "length q < m" "length q < 1610612741" using q len by simp_all
        from parsesD[OF pv at2 wf st this mem2] have val: "parse_result e h (B + 2) (length q) (pv lx2 h) (spec k2 v2 q)" .
        show ?thesis
        proof (cases "spec k2 v2 q")
          case (Inl f)
          with val show ?thesis by (simp add: parse_result_def on_value_def)
        next
          case (Inr y)
          show ?thesis
          proof (cases y)
            case None
            with val Inr obtain lx3 h1 where 1: "pv lx2 h = Inr (0, lx3, h1)" "grown h h1 {}" "alive e lx3"
              by (auto simp: parse_result_def)
            have "grown h0 h1 (insert p (\<Union>(range own)))" using grown_trans[OF gr 1(2)] by simp
            from parse_fail_result[OF 1(3) this object_built_owns(1)[OF object_built_survives(1)[OF built 1(2) st wf]] wf0] 1(1) Inr None
            show ?thesis by (simp add: on_value_def)
          next
            case (Some tr)
            obtain t r1 where tr: "tr = (t, r1)" by (cases tr)
            with val Inr Some obtain w lx3 h1 S tx where 1: "pv lx2 h = Inr (w, lx3, h1)" "w \<noteq> 0" "owns h1 w S" "tree_at h1 w t"
              "grown h h1 S" "holds lx3 tx r1 e" "length r1 \<le> length q" "B + 2 + 8 * length r1 \<le> jmem h1"
              by (auto simp: parse_result_def)
            have "1 \<le> length r" using q by simp
            from member_stored[OF built gr wf0 st0 1(3-5) _ _, of key] len(2) 1(8) this obtain h2 h3 nk' where
              2: "json_object_set_nocheck p (Some key) w h1 = Inr (0, h2)" "json_decref w h2 = Inr h3"
                "object_built h3 p nk' (M(key \<mapsto> w)) (own(key := S)) (T(key \<mapsto> t))" "nk' \<le> Suc nk"
                "grown h0 h3 (insert p (\<Union>(range (own(key := S)))))" "jmem h1 \<le> jmem h3 + 2" by auto
            note ow3 = object_built_owns[OF 2(3)]
            have mem3: "B + 8 * length r1 \<le> jmem h3" using 1(8) 2(6) by simp
            have sep: "parse_result e h0 B L
              (obind (lex_scan m lx3) (\<lambda>lx. if l_token lx \<noteq> ch CHR '',''
                 then (if l_token lx \<noteq> ch CHR ''}'' then parse_fail (Some ?sep) p lx h3 else Inr (p, lx, h3))
                 else obind (lex_scan m lx) (\<lambda>lx. object_loop n pv m flags p lx h3)))
              (on_separator e (ch CHR ''}'') (TObject (T(key \<mapsto> t))) (members_of n spec flags e (T(key \<mapsto> t))) r1)"
            proof (rule separator_result[OF 1(6) _ _ _ _ ow3(3,1,2) 2(5) wf0 mem3])
              show "length r1 < m" "length r1 \<le> L" using 1(7) q len by simp_all
              show "ch CHR ''}'' \<noteq> ch CHR '',''" "ch CHR ''}'' \<noteq> TOKEN_INVALID" by (simp_all add: tokens)
              fix lx4 k4 v4 q4 assume "at_token lx4 k4 v4 q4 e" "length q4 < length r1" "B + 8 * length q4 + 8 \<le> jmem h3"
              then show "parse_result e h0 B L (object_loop n pv m flags p lx4 h3) (members_of n spec flags e (T(key \<mapsto> t)) k4 v4 q4)"
                using 1(7) q len 2(4) by (intro Suc.IH[OF _ 2(3,5) wf0 st0]) auto
            qed
            then show ?thesis using 1(1,2) 2(1,2) Inr Some tr
              by (simp only: on_value_def obind_Inr option.case case_prod_conv if_False if_True simp_thms not_True_eq_False)
          qed
        qed
      qed
      have "parse_result e h0 B L (obind (lex_scan m ?lx) (\<lambda>lx.
          if l_token lx \<noteq> ch CHR '':'' then parse_fail (Some ([39, 58, 39] @ cstr '' expected'')) p lx h
          else obind (lex_scan m lx) ?tail))
        (on_token r e (\<lambda>k v r. if k \<noteq> ch CHR '':'' then Inr None else on_token r e ?spec))"
      proof (rule scan_result[OF lx len(1)])
        fix lx1 k1 v1 q1 assume at1: "at_token lx1 k1 v1 q1 e" and q1: "length q1 \<le> length r" "k1 \<in> {TOKEN_EOF, TOKEN_INVALID} \<or> length q1 < length r"
        have l1: "l_token lx1 = k1" using at1 by (simp add: at_token_def)
        show "parse_result e h0 B L (if l_token lx1 \<noteq> ch CHR '':'' then parse_fail (Some ([39, 58, 39] @ cstr '' expected'')) p lx1 h
          else obind (lex_scan m lx1) ?tail) (if k1 \<noteq> ch CHR '':'' then Inr None else on_token q1 e ?spec)"
        proof (cases "k1 = ch CHR '':''")
          case False
          with l1 fail[OF at_token_alive[OF at1]] show ?thesis by (simp only: if_True simp_thms)
        next
          case True
          with q1(2) punctuation_kinds(3) have lt: "length q1 < length r" "k1 \<noteq> TOKEN_INVALID" by auto
          from at_token_holds[OF at1 lt(2)] obtain tx1 where h1: "holds lx1 tx1 q1 e" by blast
          have "parse_result e h0 B L (obind (lex_scan m lx1) ?tail) (on_token q1 e ?spec)"
          proof (rule scan_result[OF h1])
            show "length q1 < m" using lt(1) len(1) by simp
            fix lx2 k2 v2 q2 assume "at_token lx2 k2 v2 q2 e" "length q2 \<le> length q1"
            then show "parse_result e h0 B L (?tail lx2) (?spec k2 v2 q2)" using lt(1) by (intro tail) simp_all
          qed
          with True l1 show ?thesis by (simp only: if_False simp_thms)
        qed
      qed
      moreover have "object_loop (Suc n) pv m flags p lx h = obind (lex_scan m ?lx) (\<lambda>lx.
          if l_token lx \<noteq> ch CHR '':'' then parse_fail (Some ([39, 58, 39] @ cstr '' expected'')) p lx h
          else obind (lex_scan m lx) ?tail)"
        using nodup by (simp only: object_loop.simps lk \<open>k = TOKEN_STRING\<close> steal dup(1) Let_def case_prod_conv
            option.case obind_Inr if_False not_True_eq_False simp_thms)
      moreover have "members_of (Suc n) spec flags e T k v r = on_token r e (\<lambda>k v r. if k \<noteq> ch CHR '':'' then Inr None else on_token r e ?spec)"
        using dup(2) nodup by (simp only: members_of.simps v(1) option.case lex_value.case if_False simp_thms)
      ultimately show ?thesis by (simp only:)
    qed
  qed
qed

end

lemma new_container:
  assumes "jheap_wf h" "statics h" "\<forall>q. q \<noteq> jnext h \<longrightarrow> cells h' q = cells h q" "jnext h' = Suc (jnext h)"
  shows "grown h h' {jnext h}" "jnext h \<notin> static_ptrs"
proof -
  show "jnext h \<notin> static_ptrs" using statics_used[OF assms(2,1), of "jnext h"] by blast
  have "0 < jnext h" using statics_used[OF assms(2,1), of json_true] by (simp add: static_ptrs_def json_true_def)
  have "0 < q \<and> q < jnext h'" if "cells h' q = Some c" for q c
  proof (cases "q = jnext h")
    case False
    with that assms(1,3) have "0 < q \<and> q < jnext h" by (auto simp: jheap_wf_def)
    then show ?thesis using assms(4) by simp
  qed (use \<open>0 < jnext h\<close> assms(4) in simp)
  with assms show "grown h h' {jnext h}" by (simp add: grown_def jheap_wf_def)
qed

lemma new_array:
  assumes "jheap_wf h" "statics h" "2 \<le> jmem h"
  shows "\<exists>h'. json_array h = Inr (jnext h, h') \<and> array_built h' (jnext h) [] [] [] \<and> grown h h' {jnext h} \<and> jmem h' = jmem h - 2"
proof -
  have pos: "0 < jnext h" using statics_used[OF assms(2,1), of json_true] by (simp add: static_ptrs_def json_true_def)
  from json_array_spec[OF assms(3)] pos obtain h' where h': "json_array h = Inr (jnext h, h')" "jmem h' = jmem h - 2"
    "jnext h' = Suc (jnext h)" "\<forall>q. q \<noteq> jnext h \<longrightarrow> cells h' q = cells h q" "map_option refcount (cells h' (jnext h)) = Some 1"
    "array_at h' (jnext h) 8 []" by blast
  note new = new_container[OF assms(1,2) h'(4,3)]
  have "array_built h' (jnext h) [] [] []" using h'(5,6) new(2) by (auto simp: array_built_def)
  with h' new(1) show ?thesis by blast
qed

lemma new_object:
  assumes "jheap_wf h" "statics h" "2 \<le> jmem h"
  shows "\<exists>h'. json_object h = Inr (jnext h, h') \<and> object_built h' (jnext h) 0 Map.empty (\<lambda>_. {}) Map.empty \<and>
    grown h h' {jnext h} \<and> jmem h' = jmem h - 2"
proof -
  have pos: "0 < jnext h" using statics_used[OF assms(2,1), of json_true] by (simp add: static_ptrs_def json_true_def)
  from json_object_spec[OF assms(3) pos] obtain h' where h': "json_object h = Inr (jnext h, h')"
    "object_at h' (jnext h) 0 Map.empty" "\<forall>q. q \<noteq> jnext h \<longrightarrow> cells h' q = cells h q" "jnext h' = Suc (jnext h)"
    "jmem h' = jmem h - 2" "map_option refcount (cells h' (jnext h)) = Some 1" by blast
  note new = new_container[OF assms(1,2) h'(3,4)]
  have "object_built h' (jnext h) 0 Map.empty (\<lambda>_. {}) Map.empty" using h'(2,6) new(2) by (auto simp: object_built_def)
  with h' new(1) show ?thesis by blast
qed

context byte_source
begin

lemma scalar_result:
  assumes at: "at_token lx k (Some x) r e" and wf: "jheap_wf h" and st: "statics h" and mem: "B + 8 * length r + 4 \<le> jmem h"
  shows "parse_result e h B (length r) (parse_scalar lx h) (value_of (Suc n) m flags e k (Some x) r)"
proof -
  have val: "l_value lx = x" using at by (simp add: at_token_def)
  have ok: "token_ok k (Some x)" using at by (simp add: at_token_def)
  then have "k \<noteq> TOKEN_INVALID" by (cases x) (simp_all add: token_ok_def tokens)
  from at_token_holds[OF at this] obtain tx where tx: "holds lx tx r e" by blast
  have pos: "0 < jnext h" "jnext h \<noteq> 0" using statics_used[OF st wf, of json_true] by (simp_all add: static_ptrs_def json_true_def)
  have leaf: "parse_result e h B (length r) (Inr (jnext h, lx, h')) (Inr (Some (t, r)))"
    if "cells h' = (cells h)(jnext h \<mapsto> \<lparr>refcount = 1, body = b\<rparr>)" "jnext h' = Suc (jnext h)" "jmem h \<le> jmem h' + 2"
      "body_type b \<in> {JSON_STRING, JSON_INTEGER, JSON_REAL}" "tree_at h' (jnext h) t" for h' b t
    using new_leaf[OF wf pos(1) st that(4,1,2)] that(3,5) pos(2) tx mem by (intro result_some) simp_all
  have m: "jmem h \<noteq> 0" "jmem h \<noteq> Suc 0" using mem by simp_all
  show ?thesis
  proof (cases x)
    case (VString s)
    with ok obtain t where t: "s = Some t" by (cases s) (simp_all add: token_ok_def)
    let ?h = "h\<lparr>cells := (cells h)(jnext h \<mapsto> \<lparr>refcount = 1, body = String t\<rparr>), jnext := Suc (jnext h), jmem := jmem h - 2\<rparr>"
    have "parse_scalar lx h = Inr (jnext h, lx, ?h)"
      using val VString t m by (simp add: parse_scalar_def json_string_nocheck_def json_malloc_def json_init_def)
    moreover have "tree_at ?h (jnext h) (TString t)" using pos(2) by (intro tree_string) auto
    ultimately show ?thesis using leaf[of ?h "String t" "TString t"] VString t m by simp
  next
    case (VInteger i)
    let ?h = "h\<lparr>cells := (cells h)(jnext h \<mapsto> \<lparr>refcount = 1, body = Integer i\<rparr>), jnext := Suc (jnext h), jmem := jmem h - 1\<rparr>"
    have "parse_scalar lx h = Inr (jnext h, lx, ?h)"
      using val VInteger m by (simp add: parse_scalar_def json_integer_def json_malloc_def json_init_def)
    moreover have "tree_at ?h (jnext h) (TInteger i)" using pos(2) by (intro tree_integer) auto
    ultimately show ?thesis using leaf[of ?h "Integer i" "TInteger i"] VInteger m by simp
  next
    case (VReal d)
    show ?thesis
    proof (cases "isnan d \<or> isinf d")
      case True
      with val VReal result_none[OF grown_refl[OF wf] at_token_alive[OF at]] show ?thesis
        by (simp add: parse_scalar_def json_real_def)
    next
      case False
      let ?h = "h\<lparr>cells := (cells h)(jnext h \<mapsto> \<lparr>refcount = 1, body = Real d\<rparr>), jnext := Suc (jnext h), jmem := jmem h - 1\<rparr>"
      have "parse_scalar lx h = Inr (jnext h, lx, ?h)"
        using val VReal False m by (simp add: parse_scalar_def json_real_def json_malloc_def json_init_def)
      moreover have "tree_at ?h (jnext h) (TReal d)" using pos(2) by (intro tree_real) auto
      ultimately show ?thesis using leaf[of ?h "Real d" "TReal d"] VReal False m by simp
    qed
  qed
qed

lemma static_result:
  assumes "at_token lx k v r e" "k \<noteq> TOKEN_INVALID" "jheap_wf h" "tree_at h p t" "p \<in> static_ptrs" "cells h p = Some c" "refcount c = -1"
    "B + 8 * length r \<le> jmem h"
  shows "parse_result e h B (length r) (Inr (p, lx, h)) (Inr (Some (t, r)))"
proof -
  from at_token_holds[OF assms(1,2)] obtain tx where "holds lx tx r e" by blast
  moreover have "owns h p {}" by (rule owns_static[OF assms(5-7)])
  moreover have "p \<noteq> 0" using assms(5) by (auto simp: static_ptrs_def)
  ultimately show ?thesis using assms(4,8) grown_refl[OF assms(3)] by (intro result_some) auto
qed

lemma container_tokens:
  assumes "at_token lx k v r e" "k = ch CHR ''{'' \<or> k = ch CHR ''[''"
  shows "v = None" "\<exists>tx. holds lx tx r e"
proof -
  from assms have "token_ok k v" by (simp add: at_token_def)
  with assms(2) show "v = None" using token_ok_None[of k v] by (auto simp: tokens)
  show "\<exists>tx. holds lx tx r e" using assms(2) by (intro at_token_holds[OF assms(1)]) (auto simp: tokens)
qed

lemma parse_array_result:
  assumes pv: "parses e m pv spec" and at: "at_token lx (ch CHR ''['') v r e" and wf: "jheap_wf h" and st: "statics h"
    and len: "length r < m" "length r < 1610612741" and mem: "B + 8 * length r + 4 \<le> jmem h"
  shows "parse_result e h B (length r) (parse_array pv m lx h)
    (on_token r e (\<lambda>k v r. if k = ch CHR '']'' then Inr (Some (TArray [], r)) else elements_of m spec e [] k v r))"
proof -
  let ?p = "jnext h"
  have "2 \<le> jmem h" using mem by simp
  from new_array[OF wf st this] obtain h1 where h1: "json_array h = Inr (?p, h1)" "array_built h1 ?p [] [] []"
    "grown h h1 {?p}" "jmem h1 = jmem h - 2" by blast
  note own = array_built_owns[OF h1(2)]
  from container_tokens[OF at] obtain tx where tx: "holds lx tx r e" by blast
  have "parse_result e h B (length r)
      (obind (lex_scan m lx) (\<lambda>lx. if l_token lx = ch CHR '']'' then Inr (?p, lx, h1) else array_loop m pv m ?p lx h1))
      (on_token r e (\<lambda>k v r. if k = ch CHR '']'' then Inr (Some (TArray [], r)) else elements_of m spec e [] k v r))"
  proof (rule scan_result[OF tx len(1)])
    fix lx' k v q assume at': "at_token lx' k v q e" and q: "length q \<le> length r" "k \<in> {TOKEN_EOF, TOKEN_INVALID} \<or> length q < length r"
    have lk: "l_token lx' = k" using at' by (simp add: at_token_def)
    show "parse_result e h B (length r) (if l_token lx' = ch CHR '']'' then Inr (?p, lx', h1) else array_loop m pv m ?p lx' h1)
      (if k = ch CHR '']'' then Inr (Some (TArray [], q)) else elements_of m spec e [] k v q)"
    proof (cases "k = ch CHR '']''")
      case True
      then have "k \<noteq> TOKEN_INVALID" by (simp add: tokens)
      from at_token_holds[OF at' this] obtain tx' where "holds lx' tx' q e" by blast
      with True lk own h1(3,4) q(1) mem show ?thesis by (simp add: result_some)
    next
      case False
      have "parse_result e h B (length r) (array_loop m pv m ?p lx' h1) (elements_of m spec e [] k v q)"
        by (rule array_loop_result[OF pv at' h1(2) _ wf st]) (use h1(3,4) q len mem in auto)
      with False lk show ?thesis by (simp only: if_False)
    qed
  qed
  moreover have "?p \<noteq> 0" by (rule own(3))
  ultimately show ?thesis using h1(1) by (simp only: parse_array_def obind_Inr case_prod_conv if_False simp_thms)
qed

lemma parse_object_result:
  assumes pv: "parses e m pv spec" and at: "at_token lx (ch CHR ''{'') v r e" and wf: "jheap_wf h" and st: "statics h"
    and len: "length r < m" "length r < 1610612741" and mem: "B + 8 * length r + 4 \<le> jmem h"
  shows "parse_result e h B (length r) (parse_object pv m flags lx h)
    (on_token r e (\<lambda>k v r. if k = ch CHR ''}'' then Inr (Some (TObject Map.empty, r)) else members_of m spec flags e Map.empty k v r))"
proof -
  let ?p = "jnext h"
  have "2 \<le> jmem h" using mem by simp
  from new_object[OF wf st this] obtain h1 where h1: "json_object h = Inr (?p, h1)"
    "object_built h1 ?p 0 Map.empty (\<lambda>_. {}) Map.empty" "grown h h1 {?p}" "jmem h1 = jmem h - 2" by blast
  note own = object_built_owns[OF h1(2)]
  from container_tokens[OF at] obtain tx where tx: "holds lx tx r e" by blast
  have "parse_result e h B (length r)
      (obind (lex_scan m lx) (\<lambda>lx. if l_token lx = ch CHR ''}'' then Inr (?p, lx, h1) else object_loop m pv m flags ?p lx h1))
      (on_token r e (\<lambda>k v r. if k = ch CHR ''}'' then Inr (Some (TObject Map.empty, r)) else members_of m spec flags e Map.empty k v r))"
  proof (rule scan_result[OF tx len(1)])
    fix lx' k v q assume at': "at_token lx' k v q e" and q: "length q \<le> length r" "k \<in> {TOKEN_EOF, TOKEN_INVALID} \<or> length q < length r"
    have lk: "l_token lx' = k" using at' by (simp add: at_token_def)
    show "parse_result e h B (length r) (if l_token lx' = ch CHR ''}'' then Inr (?p, lx', h1) else object_loop m pv m flags ?p lx' h1)
      (if k = ch CHR ''}'' then Inr (Some (TObject Map.empty, q)) else members_of m spec flags e Map.empty k v q)"
    proof (cases "k = ch CHR ''}''")
      case True
      then have "k \<noteq> TOKEN_INVALID" by (simp add: tokens)
      from at_token_holds[OF at' this] obtain tx' where "holds lx' tx' q e" by blast
      with True lk own h1(3,4) q(1) mem show ?thesis by (simp add: result_some)
    next
      case False
      have "parse_result e h B (length r) (object_loop m pv m flags ?p lx' h1) (members_of m spec flags e Map.empty k v q)"
        by (rule object_loop_result[OF pv at' h1(2) _ wf st]) (use h1(3,4) q len mem in auto)
      with False lk show ?thesis by (simp only: if_False)
    qed
  qed
  moreover have "?p \<noteq> 0" by (rule own(3))
  ultimately show ?thesis using h1(1) by (simp only: parse_object_def obind_Inr case_prod_conv if_False simp_thms)
qed

lemma parse_value_result: "parses e m (parse_value n m flags) (value_of n m flags e)"
proof (induction n)
  case 0
  then show ?case by (simp add: parses_def result_fault)
next
  case (Suc n)
  show ?case unfolding parses_def
  proof (intro allI impI)
    fix lx :: "'d lex_t" and h k v r B
    assume at: "at_token lx k v r e" and wf: "jheap_wf h" and st: "statics h" and len: "length r < m" "length r < 1610612741"
      and mem: "k \<in> {TOKEN_EOF, TOKEN_INVALID} \<or> B + 8 * length r + 4 \<le> jmem h"
    have lk: "l_token lx = k" using at by (simp add: at_token_def)
    have ok: "token_ok k v" using at by (simp add: at_token_def)
    show "parse_result e h B (length r) (parse_value (Suc n) m flags lx h) (value_of (Suc n) m flags e k v r)"
    proof (cases v)
      case (Some x)
      with ok have k: "k \<in> {TOKEN_STRING, TOKEN_INTEGER, TOKEN_REAL}" using token_ok_None[OF ok] by blast
      then have "B + 8 * length r + 4 \<le> jmem h" using mem by (auto simp: tokens)
      from scalar_result[OF at[unfolded Some] wf st this] k lk Some show ?thesis
        by (auto simp del: value_of.simps)
    next
      case None
      then have k: "k \<notin> {TOKEN_STRING, TOKEN_INTEGER, TOKEN_REAL}" using token_ok_None[OF ok] by blast
      consider "k \<in> {TOKEN_TRUE, TOKEN_FALSE, TOKEN_NULL}" | "k = ch CHR ''{''" | "k = ch CHR ''[''"
        | "k \<notin> {TOKEN_TRUE, TOKEN_FALSE, TOKEN_NULL, ch CHR ''{'', ch CHR ''[''}" by blast
      then show ?thesis
      proof cases
        case 1
        then have m: "B + 8 * length r \<le> jmem h" and nk: "k \<noteq> TOKEN_INVALID" using mem by (auto simp: tokens)
        from st have c: "cells h json_true = Some \<lparr>refcount = -1, body = True_body\<rparr>"
          "cells h json_false = Some \<lparr>refcount = -1, body = False_body\<rparr>" "cells h json_null = Some \<lparr>refcount = -1, body = Null_body\<rparr>"
          by (auto simp: statics_def)
        have s: "json_true \<in> static_ptrs" "json_false \<in> static_ptrs" "json_null \<in> static_ptrs"
          by (simp_all add: static_ptrs_def json_true_def json_false_def json_null_def)
        have "tree_at h json_true TTrue" "tree_at h json_false TFalse" "tree_at h json_null TNull"
          using c by (auto intro: tree_at.intros)
        with static_result[OF at nk wf _ s(1) c(1) _ m] static_result[OF at nk wf _ s(2) c(2) _ m] static_result[OF at nk wf _ s(3) c(3) _ m]
        show ?thesis using 1 lk None by (auto simp: tokens)
      next
        case 2
        then have m: "B + 8 * length r + 4 \<le> jmem h" using mem by (auto simp: tokens)
        from parse_object_result[OF Suc.IH at[unfolded 2] wf st len m] 2 lk None show ?thesis by (simp add: tokens)
      next
        case 3
        then have m: "B + 8 * length r + 4 \<le> jmem h" using mem by (auto simp: tokens)
        from parse_array_result[OF Suc.IH at[unfolded 3] wf st len m] 3 lk None show ?thesis by (simp add: tokens)
      next
        case 4
        with k None have "value_of (Suc n) m flags e k v r = Inr None" by simp
        with 4 k lk parse_null_result[OF at_token_alive[OF at] grown_refl[OF wf]] show ?thesis by (auto simp: Let_def)
      qed
    qed
  qed
qed

end

end
