(* ===== verification/Json_Roundtrip.thy ===== *)
theory Json_Roundtrip
  imports Json_Tokens
begin

text \<open>
  What \<open>dump_string\<close> writes, and that the lexer reads it back.  A sink is a callback that
  appends what it is given; the string buffer and a file with enough room are instances.  The
  round trips at the end are statements about the printer and the lexer together.
\<close>

section \<open>Sinks\<close>

locale text_sink =
  fixes dump :: "'d dumper"
    and wrote :: "'d \<Rightarrow> byte list \<Rightarrow> bool"
    and cap :: nat
  assumes dump_law: "wrote d t \<Longrightarrow> bs \<noteq> [] \<Longrightarrow> length t + length bs < cap \<Longrightarrow>
    \<exists>d'. dump bs d = Inr (0, d') \<and> wrote d' (t @ bs)"

interpretation strbuffer_sink: text_sink "dump_to_strbuffer (\<lambda>_. True)" sb_holds "2 ^ 62"
proof
  fix d t and bs :: "byte list"
  assume d: "sb_holds d t" and "bs \<noteq> []" and len: "length t + length bs < 2 ^ 62"
  have "unat (sb_length d) = length t" using d by (simp add: sb_holds_def)
  with len have "sb_accepts (\<lambda>_. True) d (length bs)"
    by (cases "unat (sb_length d) + length bs < unat (sb_size d)") (auto simp: sb_accepts_def sb_grown_def)
  moreover have "length bs < 2 ^ 64" using len by simp
  ultimately show "\<exists>d'. dump_to_strbuffer (\<lambda>_. True) bs d = Inr (0, d') \<and> sb_holds d' (t @ bs)"
    using strbuffer_append_bytes_spec[OF d, of bs "\<lambda>_. True"] by (simp add: dump_to_strbuffer_def)
qed

definition file_wrote :: "nat \<Rightarrow> byte list \<times> nat \<Rightarrow> byte list \<Rightarrow> bool" where
  "file_wrote cap d t \<longleftrightarrow> fst d = t \<and> cap \<le> length t + snd d"

interpretation file_sink: text_sink dump_to_file "file_wrote cap" cap for cap
  by unfold_locales (auto simp: dump_to_file_def file_wrote_def)

section \<open>The text of a string\<close>

definition piece :: "size_t \<Rightarrow> int \<Rightarrow> byte list" where
  "piece flags c = (if needs_escape flags c then escape_text c else utf8_bytes c)"

definition string_text :: "size_t \<Rightarrow> int list \<Rightarrow> byte list" where
  "string_text flags cs = [34] @ concat (map (piece flags) cs) @ [34]"

definition chars_ok :: "int list \<Rightarrow> bool" where
  "chars_ok cs \<longleftrightarrow> (\<forall>c \<in> set cs. scalar_value c \<and> c \<noteq> 0)"

lemma chars_ok_Cons [simp]: "chars_ok (c # cs) \<longleftrightarrow> scalar_value c \<and> c \<noteq> 0 \<and> chars_ok cs"
  by (auto simp: chars_ok_def)

lemma utf8_iterate_bytes:
  assumes "scalar_value c" "c \<noteq> 0"
  shows "utf8_iterate (utf8_bytes c @ rest) = Inr (Some (Some c, rest))"
proof -
  have "utf8_bytes c @ rest \<noteq> []" "hd (utf8_bytes c @ rest) \<noteq> 0"
    using scalar_value_hd_nonzero[OF assms] by simp_all
  from utf8_iterate_spec[OF this, of rest] assms(1) show ?thesis by auto
qed

abbreviation "encode cs \<equiv> concat (map utf8_bytes cs)"

lemma plain_run_spec:
  "chars_ok cs \<Longrightarrow> length cs < n \<Longrightarrow>
     \<exists>c'. plain_run n flags (encode cs) (encode cs) c0 =
       Inr (Some (encode (dropWhile (\<lambda>c. \<not> needs_escape flags c) cs),
         encode (tl (dropWhile (\<lambda>c. \<not> needs_escape flags c) cs)), c')) \<and>
       (dropWhile (\<lambda>c. \<not> needs_escape flags c) cs \<noteq> [] \<longrightarrow> c' = hd (dropWhile (\<lambda>c. \<not> needs_escape flags c) cs))"
proof (induction cs arbitrary: n c0)
  case Nil
  then obtain m where "n = Suc m" by (cases n) auto
  then show ?case by (simp add: cstr_at_def)
next
  case (Cons c cs)
  obtain m where n: "n = Suc m" "length cs < m" using Cons.prems(2) by (cases n) auto
  have c: "scalar_value c" "c \<noteq> 0" "chars_ok cs" using Cons.prems(1) by auto
  have "utf8_bytes c \<noteq> []" by simp
  then obtain b bs where b: "utf8_bytes c = b # bs" by (cases "utf8_bytes c") auto
  then have "b \<noteq> 0" using scalar_value_hd_nonzero[OF c(1,2)] by simp
  then have at: "cstr_at (encode (c # cs)) 0 = Inr b" "b \<noteq> 0" using b by (simp_all add: cstr_at_def)
  note it = utf8_iterate_bytes[OF c(1,2), of "encode cs"]
  show ?case
  proof (cases "needs_escape flags c")
    case True
    with n(1) at it show ?thesis by (simp del: cstr_at_Cons)
  next
    case False
    with n(1) at it have "plain_run n flags (encode (c # cs)) (encode (c # cs)) c0 = plain_run m flags (encode cs) (encode cs) c"
      by (simp del: cstr_at_Cons)
    with Cons.IH[OF c(3) n(2), of c] False show ?thesis by simp
  qed
qed

lemma length_encode: "length cs \<le> length (encode cs)"
proof (induction cs)
  case (Cons c cs)
  with length_utf8_le(2)[of c] show ?case by simp
qed simp

lemma encode_dropWhile:
  "encode cs = encode (takeWhile P cs) @ encode (dropWhile P cs)"
  by (metis concat_append map_append takeWhile_dropWhile_id)

lemma pieces_plain: "\<forall>c \<in> set cs. \<not> needs_escape flags c \<Longrightarrow> concat (map (piece flags) cs) = encode cs"
  by (induction cs) (auto simp: piece_def)

lemma escape_text_nonempty: "escape_text c \<noteq> []"
  by (simp add: escape_text_def unit_escape_def Let_def)

context text_sink
begin

lemma dump_string_loop_spec:
  "wrote d t \<Longrightarrow> chars_ok cs \<Longrightarrow> length t + length (concat (map (piece flags) cs)) + 1 < cap \<Longrightarrow> length cs < n \<Longrightarrow>
     \<exists>d'. dump_string_loop n flags (encode cs) c0 dump d = Inr (0, d') \<and> wrote d' (t @ concat (map (piece flags) cs) @ [34])"
proof (induction cs arbitrary: d t n c0 rule: length_induct)
  case (1 cs)
  note IH = 1(1)[rule_format] and d = 1(2) and ok = 1(3) and room = 1(4)
  obtain m where n: "n = Suc m" using 1(5) by (cases n) auto
  let ?P = "\<lambda>c. \<not> needs_escape flags c" let ?pl = "takeWhile ?P cs" let ?r = "dropWhile ?P cs"
  have enc: "encode cs = encode ?pl @ encode ?r" by (rule encode_dropWhile)
  from length_encode[of cs] have "length cs < Suc (length (encode cs))" by simp
  from plain_run_spec[OF ok this, of flags c0] obtain c' where run: "plain_run (Suc (length (encode cs))) flags (encode cs) (encode cs) c0 =
      Inr (Some (encode ?r, encode (tl ?r), c'))" "?r \<noteq> [] \<longrightarrow> c' = hd ?r" by blast
  have pl: "concat (map (piece flags) ?pl) = encode ?pl" by (rule pieces_plain) (auto dest: set_takeWhileD)
  have all: "concat (map (piece flags) cs) = encode ?pl @ concat (map (piece flags) ?r)"
    by (metis pl concat_append map_append takeWhile_dropWhile_id)
  have "\<exists>d1. (if length (encode ?r) \<noteq> length (encode cs) then dump (take (length (encode cs) - length (encode ?r)) (encode cs)) d else Inr (0, d))
      = Inr (0, d1) \<and> wrote d1 (t @ encode ?pl)"
  proof (cases "encode ?pl = []")
    case True
    with enc d show ?thesis by simp
  next
    case False
    have "length t + length (encode ?pl) < cap" using room all by simp
    from dump_law[OF d False this] show ?thesis using False unfolding enc by simp
  qed
  then obtain d1 where d1: "(if length (encode ?r) \<noteq> length (encode cs) then dump (take (length (encode cs) - length (encode ?r)) (encode cs)) d else Inr (0, d))
      = Inr (0, d1)" "wrote d1 (t @ encode ?pl)" by blast
  have step: "dump_string_loop n flags (encode cs) c0 dump d =
      (if length (encode (tl ?r)) = length (encode ?r) then dump [34] d1
       else and_then (dump (escape_text c') d1) (dump_string_loop m flags (encode (tl ?r)) c' dump) id)"
    unfolding n dump_string_loop.simps run(1) obind_Inr option.case split d1(1) and_then_def by simp
  show ?case
  proof (cases ?r)
    case Nil
    have "dump_string_loop n flags (encode cs) c0 dump d = dump [34] d1" using step unfolding Nil by simp
    moreover have "length (t @ encode ?pl) + length [34 :: byte] < cap" using room all by simp
    moreover have "concat (map (piece flags) cs) = encode ?pl" using all unfolding Nil by simp
    ultimately show ?thesis using dump_law[OF d1(2), of "[34]"] by simp
  next
    case (Cons c r)
    have c: "scalar_value c" "c \<noteq> 0" "chars_ok r"
      using ok Cons set_dropWhileD[of _ ?P cs] unfolding chars_ok_def by (metis list.set_intros)+
    have ne: "needs_escape flags c" using Cons hd_dropWhile[of ?P cs] by auto
    have c': "c' = c" using run(2) Cons by simp
    have pc: "concat (map (piece flags) cs) = encode ?pl @ escape_text c @ concat (map (piece flags) r)"
      using all Cons ne by (simp add: piece_def)
    have "length (t @ encode ?pl) + length (escape_text c) < cap" using room pc by simp
    from dump_law[OF d1(2) escape_text_nonempty this] obtain d2 where d2: "dump (escape_text c) d1 = Inr (0, d2)"
      "wrote d2 ((t @ encode ?pl) @ escape_text c)" by blast
    have len: "length r < length cs" using length_dropWhile_le[of ?P cs] Cons by simp
    have lm: "length r < m" using len 1(5) n by simp
    have "length ((t @ encode ?pl) @ escape_text c) + length (concat (map (piece flags) r)) + 1 < cap" using room pc by simp
    from IH[OF len d2(2) c(3) this lm, of c] obtain d' where d': "dump_string_loop m flags (encode r) c dump d2 = Inr (0, d')"
      "wrote d' (((t @ encode ?pl) @ escape_text c) @ concat (map (piece flags) r) @ [34])" by blast
    have "dump_string_loop n flags (encode cs) c0 dump d = Inr (0, d')"
      using step d2(1) d'(1) Cons c' by (simp add: and_then_def)
    with d'(2) pc show ?thesis by auto
  qed
qed

lemma dump_string_spec:
  assumes "wrote d t" "chars_ok cs" "length t + length (string_text flags cs) < cap"
  shows "\<exists>d'. dump_string (encode cs) dump flags d = Inr (0, d') \<and> wrote d' (t @ string_text flags cs)"
proof -
  have room: "length t + length [34 :: byte] < cap" using assms(3) by (simp add: string_text_def)
  from dump_law[OF assms(1) _ room] obtain d1 where d1: "dump [34] d = Inr (0, d1)" "wrote d1 (t @ [34])" by auto
  from length_encode[of cs] have n: "length cs < Suc (length (encode cs))" by simp
  have "length (t @ [34]) + length (concat (map (piece flags) cs)) + 1 < cap" using assms(3) by (simp add: string_text_def)
  from dump_string_loop_spec[OF d1(2) assms(2) this n, of 0] d1(1) show ?thesis
    by (auto simp: dump_string_def and_then_def string_text_def)
qed

end

section \<open>Reading it back\<close>

text \<open>The four digits of a code unit.\<close>

definition unit_digits :: "nat \<Rightarrow> byte list" where
  "unit_digits n = map digit_char [n div 4096, n div 256 mod 16, n div 16 mod 16, n mod 16]"

lemma digits_hex:
  "n < 16 \<Longrightarrow> digits 16 n = [digit_char n]"
  "\<not> n < 16 \<Longrightarrow> digits 16 n = digits 16 (n div 16) @ [digit_char (n mod 16)]"
  by (subst digits.simps, simp del: digit_char.simps)+

lemma fmt_digits:
  assumes "n < 65536"
  shows "pad_zeros 4 (digits 16 n) = unit_digits n"
proof -
  have z: "digit_char 0 = 48" by simp
  have d: "n div 16 div 16 = n div 256" "n div 256 div 16 = n div 4096" by (simp_all add: div_mult2_eq[symmetric])
  consider "n < 16" | "16 \<le> n" "n < 256" | "256 \<le> n" "n < 4096" | "4096 \<le> n" by linarith
  then show ?thesis
  proof cases
    case 1
    then have "n div 4096 = 0" "n div 256 mod 16 = 0" "n div 16 mod 16 = 0" "n mod 16 = n" by simp_all
    then show ?thesis unfolding unit_digits_def digits_hex(1)[OF 1] by (simp add: pad_zeros_def numeral_3_eq_3 z del: digit_char.simps)
  next
    case 2
    then have "\<not> n < 16" "n div 16 < 16" "n div 4096 = 0" "n div 256 mod 16 = 0" "n div 16 mod 16 = n div 16" by simp_all
    then show ?thesis unfolding unit_digits_def using digits_hex[of n] digits_hex(1)[of "n div 16"]
      by (simp add: pad_zeros_def numeral_2_eq_2 z del: digit_char.simps)
  next
    case 3
    then have "\<not> n < 16" "\<not> n div 16 < 16" "n div 256 < 16" "n div 4096 = 0" "n div 256 mod 16 = n div 256" by simp_all
    then show ?thesis unfolding unit_digits_def using digits_hex(2)[of n] digits_hex(2)[of "n div 16"] digits_hex(1)[of "n div 256"] d
      by (simp add: pad_zeros_def z del: digit_char.simps)
  next
    case 4
    then have "\<not> n < 16" "\<not> n div 16 < 16" "\<not> n div 256 < 16" "n div 4096 < 16" using assms by simp_all
    then show ?thesis unfolding unit_digits_def
      using digits_hex(2)[of n] digits_hex(2)[of "n div 16"] digits_hex(2)[of "n div 256"] digits_hex(1)[of "n div 4096"] d
      by (simp add: pad_zeros_def z del: digit_char.simps)
  qed
qed

lemma escape_digit_char: "d < 16 \<Longrightarrow> escape_digit (digit_char d) = Some (int d)"
proof -
  assume "d < 16"
  then have "d = 0 \<or> d = 1 \<or> d = 2 \<or> d = 3 \<or> d = 4 \<or> d = 5 \<or> d = 6 \<or> d = 7 \<or> d = 8 \<or> d = 9 \<or> d = 10 \<or> d = 11 \<or>
      d = 12 \<or> d = 13 \<or> d = 14 \<or> d = 15" by presburger
  then show ?thesis by (elim disjE) (simp_all add: escape_digit_def is_digit_def)
qed

lemma escape_value_unit:
  assumes "n < 65536"
  shows "escape_value (unit_digits n) 0 = Inr (int n)"
proof -
  have d: "n div 4096 < 16" using assms by simp
  have "((n div 4096 * 16 + n div 256 mod 16) * 16 + n div 16 mod 16) * 16 + n mod 16 = n"
  proof -
    have "n div 4096 * 16 + n div 256 mod 16 = n div 256" using div_mult_mod_eq[of "n div 256" 16] by (simp add: div_mult2_eq[symmetric])
    moreover have "n div 256 * 16 + n div 16 mod 16 = n div 16" using div_mult_mod_eq[of "n div 16" 16] by (simp add: div_mult2_eq[symmetric])
    ultimately show ?thesis using div_mult_mod_eq[of n 16] by simp
  qed
  then have "((int (n div 4096) * 16 + int (n div 256 mod 16)) * 16 + int (n div 16 mod 16)) * 16 + int (n mod 16) = int n"
    by (metis of_nat_add of_nat_mult of_nat_numeral)
  with d show ?thesis
    by (simp add: unit_digits_def escape_digit_char del: digit_char.simps)
qed

lemma unit_escape_item:
  assumes "0 \<le> u" "u < 0x10000"
  shows "unit_escape u = render (Unicode (unit_digits (nat u)))" "escape_value (unit_digits (nat u)) 0 = Inr u"
proof -
  have n: "nat u < 65536" using assms by simp
  have "fmt_x u = digits 16 (nat u)" using assms by (simp add: fmt_x_def)
  then show "unit_escape u = render (Unicode (unit_digits (nat u)))"
    using fmt_digits[OF n] by (simp add: unit_escape_def)
  show "escape_value (unit_digits (nat u)) 0 = Inr u" using escape_value_unit[OF n] assms by simp
qed

lemma surrogate_bits:
  fixes c :: int
  assumes "0x10000 \<le> c" "c \<le> 0x10FFFF"
  shows "0xD800 OR drop_bit 10 ((c - 0x10000) AND 0xffc00) = 0xD800 + (c - 0x10000) div 1024"
    and "0xDC00 OR ((c - 0x10000) AND 0x003ff) = 0xDC00 + (c - 0x10000) mod 1024"
proof -
  define x where "x = c - 0x10000"
  have x: "0 \<le> x" "x < 0x100000" using assms by (simp_all add: x_def)
  have m: "(0xffc00 :: int) = push_bit 10 (mask 10)" "(0x3ff :: int) = mask 10" by (simp_all add: mask_eq_exp_minus_1 push_bit_eq_mult)
  have "x div 1024 \<le> 0xFFFFF div 1024" by (rule zdiv_mono1) (use x in simp_all)
  then have hi: "0 \<le> x div 1024" "x div 1024 < 1024" using x by (simp_all add: pos_imp_zdiv_nonneg_iff)
  have "drop_bit 10 (x AND 0xffc00) = drop_bit 10 x AND drop_bit 10 0xffc00" by (rule drop_bit_and)
  also have "\<dots> = take_bit 10 (x div 1024)" by (simp add: take_bit_eq_mask drop_bit_eq_div mask_eq_exp_minus_1)
  also have "\<dots> = x div 1024" using hi by (simp add: take_bit_eq_mod)
  finally have a: "drop_bit 10 (x AND 0xffc00) = x div 1024" .
  have b: "x AND 0x3ff = x mod 1024" unfolding m(2) by (simp add: take_bit_eq_mask[symmetric] take_bit_eq_mod)
  have disj: "y OR z = y + z" if "y = push_bit 10 k" "0 \<le> z" "z < 1024" for y z k :: int
  proof -
    have "take_bit 10 z = z" using that by (simp add: take_bit_eq_mod)
    then have "y AND z = 0" using that(1)
      by (intro bit_eqI) (auto simp: bit_and_iff bit_push_bit_iff, metis bit_take_bit_iff not_less)
    then show ?thesis by (simp add: disjunctive_add_eq_or)
  qed
  show "0xD800 OR drop_bit 10 ((c - 0x10000) AND 0xffc00) = 0xD800 + (c - 0x10000) div 1024"
    unfolding x_def[symmetric] a by (rule disj[of _ 54]) (use hi in \<open>simp_all add: push_bit_eq_mult\<close>)
  show "0xDC00 OR ((c - 0x10000) AND 0x003ff) = 0xDC00 + (c - 0x10000) mod 1024"
    unfolding x_def[symmetric] b by (rule disj[of _ 55]) (simp_all add: push_bit_eq_mult)
qed

text \<open>The items of one character.\<close>

definition char_items :: "size_t \<Rightarrow> int \<Rightarrow> item list" where
  "char_items flags c =
     (if \<not> needs_escape flags c then map Plain (utf8_bytes c)
      else if c = 92 then [Simple 92] else if c = 34 then [Simple 34] else if c = 8 then [Simple 98]
      else if c = 12 then [Simple 102] else if c = 10 then [Simple 110] else if c = 13 then [Simple 114]
      else if c = 9 then [Simple 116] else if c = 47 then [Simple 47]
      else if c < 0x10000 then [Unicode (unit_digits (nat c))]
      else [Unicode (unit_digits (nat (0xD800 + (c - 0x10000) div 1024))),
            Unicode (unit_digits (nat (0xDC00 + (c - 0x10000) mod 1024)))])"

lemma surrogate_halves:
  fixes c :: int
  assumes "0x10000 \<le> c" "c \<le> 0x10FFFF"
  shows "0 \<le> (c - 0x10000) div 1024" "(c - 0x10000) div 1024 < 1024" "0 \<le> (c - 0x10000) mod 1024" "(c - 0x10000) mod 1024 < 1024"
proof -
  have "(c - 0x10000) div 1024 \<le> 0xFFFFF div 1024" by (rule zdiv_mono1) (use assms in simp_all)
  then show "(c - 0x10000) div 1024 < 1024" by simp
  show "0 \<le> (c - 0x10000) div 1024" using assms by (intro div_int_pos_iff[THEN iffD2]) simp
qed simp_all

lemma piece_items:
  assumes "scalar_value c"
  shows "piece flags c = concat (map render (char_items flags c))"
proof -
  have r: "0 \<le> c" "c \<le> 0x10FFFF" using assms by (auto simp: scalar_value_def)
  have plain: "concat (map (render \<circ> Plain) bs) = bs" for bs by (induction bs) auto
  consider "\<not> needs_escape flags c" | "needs_escape flags c" "c \<in> {92, 34, 8, 12, 10, 13, 9, 47}"
    | "needs_escape flags c" "c \<notin> {92, 34, 8, 12, 10, 13, 9, 47}" "c < 0x10000"
    | "needs_escape flags c" "c \<notin> {92, 34, 8, 12, 10, 13, 9, 47}" "0x10000 \<le> c" by force
  then show ?thesis
  proof cases
    case 1
    then show ?thesis by (simp add: piece_def char_items_def plain)
  next
    case 2
    then show ?thesis unfolding piece_def char_items_def escape_text_def by auto
  next
    case 3
    then have "piece flags c = unit_escape c" "char_items flags c = [Unicode (unit_digits (nat c))]"
      unfolding piece_def char_items_def escape_text_def by simp_all
    with unit_escape_item(1)[OF r(1) 3(3)] show ?thesis by simp
  next
    case 4
    note s = surrogate_bits[OF 4(3) r(2)] and h = surrogate_halves[OF 4(3) r(2)]
    from 4 have "piece flags c = unit_escape (0xD800 + (c - 0x10000) div 1024) @ unit_escape (0xDC00 + (c - 0x10000) mod 1024)"
      unfolding piece_def escape_text_def Let_def s by simp
    moreover have "char_items flags c = [Unicode (unit_digits (nat (0xD800 + (c - 0x10000) div 1024))),
            Unicode (unit_digits (nat (0xDC00 + (c - 0x10000) mod 1024)))]"
      unfolding char_items_def using 4 by simp
    ultimately show ?thesis
      using unit_escape_item(1)[of "0xD800 + (c - 0x10000) div 1024"] unit_escape_item(1)[of "0xDC00 + (c - 0x10000) mod 1024"] h
      by simp
  qed
qed

lemma utf8_high_bytes:
  assumes "scalar_value c" "0x80 \<le> c" "b \<in> set (utf8_bytes c)"
  shows "0x80 \<le> uint b"
proof -
  have c: "0 \<le> c" "c \<le> 0x10FFFF" using assms by (auto simp: scalar_value_def)
  have tl: "0x80 \<le> uint b" if "b \<in> set (tl (utf8_bytes c))" for b
  proof -
    from that obtain x where x: "b = word_of_int (0x80 + x mod 64)"
      by (auto simp: utf8_bytes_def simp del: of_int_add of_int_numeral split: if_splits)
    have "0 \<le> x mod 64" by simp
    then show ?thesis using uint_cont_byte[of x] unfolding x by linarith
  qed
  have "0 \<le> c div 64" "0 \<le> c div 4096" "0 \<le> c div 262144" using c by (simp_all add: pos_imp_zdiv_nonneg_iff)
  then have "0x80 \<le> uint (hd (utf8_bytes c))" using uint_hd_utf8_bytes[OF assms(1)] assms(2) by simp
  moreover have "b = hd (utf8_bytes c) \<or> b \<in> set (tl (utf8_bytes c))" using assms(3) by (cases "utf8_bytes c") auto
  ultimately show ?thesis using tl by auto
qed

lemma plain_bytes_ok:
  assumes "scalar_value c" "\<not> needs_escape flags c" "b \<in> set (utf8_bytes c)"
  shows "b \<noteq> 34 \<and> b \<noteq> 92 \<and> 32 \<le> b"
proof -
  have c: "c \<noteq> 92" "c \<noteq> 34" "0x20 \<le> c" using assms(2) by (auto simp: needs_escape_def)
  have "uint b \<noteq> 34 \<and> uint b \<noteq> 92 \<and> 32 \<le> uint b"
  proof (cases "c < 0x80")
    case True
    then have "b = word_of_int c" using assms(3) by (simp add: utf8_bytes_def)
    with True c uint_to_byte[of c] show ?thesis by simp
  next
    case False
    with utf8_high_bytes[OF assms(1) _ assms(3)] show ?thesis by simp
  qed
  then show ?thesis by (auto simp: word_le_def)
qed

lemma char_items_ok:
  assumes "scalar_value c"
  shows "\<forall>i \<in> set (char_items flags c). item_ok i"
  using plain_bytes_ok[OF assms, of flags]
  by (auto simp: char_items_def simple_bytes_def unit_digits_def simp del: digit_char.simps)

lemma decode_plain: "decode_items (map Plain bs @ is) = prepend bs (decode_items is)"
proof (induction bs)
  case (Cons b bs)
  then show ?case using prepend_append[of "[b]" bs "decode_items is"] by simp
qed simp

lemma decode_char:
  assumes "scalar_value c" "c \<noteq> 0"
  shows "decode_items (char_items flags c @ is) = prepend (utf8_bytes c) (decode_items is)"
proof -
  have r: "0 \<le> c" "c \<le> 0x10FFFF" "\<not> (0xD800 \<le> c \<and> c \<le> 0xDFFF)" using assms by (auto simp: scalar_value_def)
  consider "\<not> needs_escape flags c" | "needs_escape flags c" "c \<in> {92, 34, 8, 12, 10, 13, 9, 47}"
    | "needs_escape flags c" "c \<notin> {92, 34, 8, 12, 10, 13, 9, 47}" "c < 0x10000"
    | "needs_escape flags c" "c \<notin> {92, 34, 8, 12, 10, 13, 9, 47}" "0x10000 \<le> c" by force
  then show ?thesis
  proof cases
    case 1
    then show ?thesis by (simp add: char_items_def decode_plain)
  next
    case 2
    from 2(2) have "\<exists>s. char_items flags c = [Simple s] \<and> utf8_bytes c = [escaped_byte s]"
      using 2(1) unfolding char_items_def escaped_byte_def utf8_bytes_def by (elim insertE) simp_all
    then show ?thesis by auto
  next
    case 3
    then have "char_items flags c = [Unicode (unit_digits (nat c))]" unfolding char_items_def by simp
    moreover have "\<not> (0xD800 \<le> c \<and> c \<le> 0xDBFF)" "\<not> (0xDC00 \<le> c \<and> c \<le> 0xDFFF)" using r(3) by auto
    ultimately show ?thesis using unit_escape_item(2)[OF r(1) 3(3)] assms(2) by (simp del: de_Morgan_conj)
  next
    case 4
    note h = surrogate_halves[OF 4(3) r(2)]
    let ?v = "0xD800 + (c - 0x10000) div 1024" let ?w = "0xDC00 + (c - 0x10000) mod 1024"
    have "char_items flags c = [Unicode (unit_digits (nat ?v)), Unicode (unit_digits (nat ?w))]"
      unfolding char_items_def using 4 by simp
    moreover have "escape_value (unit_digits (nat ?v)) 0 = Inr ?v" "escape_value (unit_digits (nat ?w)) 0 = Inr ?w"
      using h by (auto intro!: unit_escape_item(2))
    moreover have "0xD800 \<le> ?v \<and> ?v \<le> 0xDBFF" "0xDC00 \<le> ?w \<and> ?w \<le> 0xDFFF" using h by auto
    moreover have "(?v - 0xD800) * 1024 + (?w - 0xDC00) + 0x10000 = c"
      using div_mult_mod_eq[of "c - 0x10000" 1024] by simp
    ultimately show ?thesis by (simp)
  qed
qed

lemma decode_chars:
  "chars_ok cs \<Longrightarrow> decode_items (concat (map (char_items flags) cs)) = Inr (Inr (encode cs))"
  by (induction cs) (simp_all add: decode_char chars_ok_def)

lemma string_text_items:
  assumes "chars_ok cs"
  shows "items_of (concat (map (piece flags) cs) @ 34 # r) = Some (concat (map (char_items flags) cs), r)"
proof -
  have eq: "concat (map (piece flags) cs) = concat (map render (concat (map (char_items flags) cs)))"
    using assms by (induction cs) (auto simp: piece_items)
  have "\<forall>i \<in> set (concat (map (char_items flags) cs)). item_ok i"
    using assms char_items_ok by (auto simp: chars_ok_def)
  from items_of_render[OF this, of r] show ?thesis unfolding eq .
qed

section \<open>Numbers\<close>

lemma digit_is_digit: "d < 10 \<Longrightarrow> is_digit (digit_char d) \<and> digit_val (digit_char d) = d"
proof -
  assume "d < 10"
  then have "d = 0 \<or> d = 1 \<or> d = 2 \<or> d = 3 \<or> d = 4 \<or> d = 5 \<or> d = 6 \<or> d = 7 \<or> d = 8 \<or> d = 9" by presburger
  then show ?thesis by (elim disjE) (simp_all add: is_digit_def digit_val_def)
qed

lemma digits_val_append: "digits_val (ds @ [d]) = 10 * digits_val ds + digit_val d"
  by (simp add: digits_val_def)

lemma digits_decimal:
  "all_digits (digits 10 n) \<and> digits_val (digits 10 n) = n \<and> (hd (digits 10 n) = 48 \<longleftrightarrow> n = 0)"
proof (induction n rule: less_induct)
  case (less n)
  show ?case
  proof (cases "n < 10")
    case True
    then have "n = 0 \<or> n = 1 \<or> n = 2 \<or> n = 3 \<or> n = 4 \<or> n = 5 \<or> n = 6 \<or> n = 7 \<or> n = 8 \<or> n = 9" by presburger
    then have "digit_char n = 48 \<longleftrightarrow> n = 0" by (elim disjE) simp_all
    with True digit_is_digit[OF True] show ?thesis
      by (subst (1 2 3) digits.simps) (simp add: all_digits_def digits_val_def del: digit_char.simps)
  next
    case False
    then have eq: "digits 10 n = digits 10 (n div 10) @ [digit_char (n mod 10)]" by (subst digits.simps) simp
    from False have "n div 10 < n" "n div 10 \<noteq> 0" by simp_all
    with less.IH[of "n div 10"] digit_is_digit[of "n mod 10"] False show ?thesis
      unfolding eq digits_val_append by (auto simp: all_digits_def simp del: digit_char.simps)
  qed
qed

lemma fmt_d_digits: "fmt_d v = signed_digits (v < 0) (digits 10 (nat \<bar>v\<bar>))"
  by (simp add: fmt_d_def signed_digits_def)

lemma int_part_signed:
  assumes "all_digits ds" "hd ds = 48 \<Longrightarrow> ds = [48]"
  shows "int_part (signed_digits neg ds) = Some (signed_digits neg ds, [])"
proof -
  obtain d r where d: "ds = d # r" "is_digit d" using assms(1) by (cases ds) (auto simp: all_digits_def)
  then have "d \<noteq> 45" by (auto simp: is_digit_def)
  then have "split_sign (signed_digits neg ds) = (if neg then [45] else [], ds)" using d by (simp add: split_sign_def signed_digits_def)
  moreover have "takeWhile is_digit ds = ds" "dropWhile is_digit ds = []" using takeWhile_digits[OF assms(1), of "[]"] by simp_all
  ultimately show ?thesis using assms(2) d
    by (cases "d = 48") (auto simp: int_part_def signed_digits_def simp del: dropWhile_eq_Nil_conv takeWhile_eq_all_conv)
qed

lemma digits_zero: "hd (digits 10 n) = 48 \<Longrightarrow> digits 10 n = [48]"
proof -
  assume "hd (digits 10 n) = 48"
  then have "n = 0" using digits_decimal[of n] by simp
  then show ?thesis by (subst digits.simps) simp
qed

lemma next_token_integer:
  assumes "- (2 ^ 63) \<le> v" "v < 2 ^ 63"
  shows "next_token (fmt_d v) STREAM_STATE_EOF = Inr (TOKEN_INTEGER, Some (VInteger (word_of_int v)), [])"
proof -
  let ?ds = "digits 10 (nat \<bar>v\<bar>)"
  have ds: "all_digits ?ds" "digits_val ?ds = nat \<bar>v\<bar>" using digits_decimal[of "nat \<bar>v\<bar>"] by simp_all
  obtain b r where b: "fmt_d v = b # r" "is_digit b \<or> b = 45"
    using ds(1) unfolding fmt_d_digits signed_digits_def all_digits_def by (cases "v < 0"; cases ?ds) auto
  have nb: "\<not> is_space b" "sint b \<notin> punctuation" "b \<noteq> 34"
    using b(2) by (auto simp: is_space_def is_digit_def punctuation_byte)
  have ip: "int_part (fmt_d v) = Some (fmt_d v, [])"
    unfolding fmt_d_digits by (rule int_part_signed[OF ds(1) digits_zero])
  have val: "(if v < 0 then - int (digits_val ?ds) else int (digits_val ?ds)) = v" unfolding ds(2) by simp
  have "strtoll (fmt_d v) = (v, length (fmt_d v), False)"
    using assms unfolding fmt_d_digits strtoll_digits[OF ds(1)] val Let_def by simp
  then have "number_value False (fmt_d v) = Some (TOKEN_INTEGER, VInteger (word_of_int v))"
    by (simp add: number_value_def)
  moreover have "lex_number (fmt_d v) = Some (False, fmt_d v, [])" using ip by (simp add: lex_number_def)
  moreover have "dropWhile is_space (fmt_d v) = b # r" using b(1) nb(1) by simp
  ultimately show ?thesis using b nb by (simp add: next_token_def)
qed

lemma next_token_word:
  assumes "w \<noteq> []" "\<forall>b \<in> set w. is_alpha b"
  shows "next_token w e = Inr (word_token w, None, [])"
proof -
  obtain b r where w: "w = b # r" using assms(1) by (cases w) auto
  then have b: "is_alpha b" using assms(2) by simp
  have nb: "\<not> is_space b" "sint b \<notin> punctuation" "b \<noteq> 34" "\<not> is_digit b" "b \<noteq> 45"
    using b by (auto simp: is_space_def is_digit_def punctuation_byte is_alpha_def word_le_def)
  have "takeWhile is_alpha r = r" "dropWhile is_alpha r = []" using assms(2) w by simp_all
  then have "takeWhile is_alpha (b # r) = b # r" "ungot (dropWhile is_alpha (b # r)) = []" using b by (simp_all del: dropWhile_eq_Nil_conv takeWhile_eq_all_conv)
  then show ?thesis using w b nb by (simp only: next_token_def dropWhile.simps list.case if_False if_True simp_thms)
qed

lemma next_token_string:
  assumes "chars_ok cs"
  shows "next_token (string_text flags cs) e = Inr (TOKEN_STRING, Some (VString (Some (encode cs))), [])"
proof -
  have "dropWhile is_space (string_text flags cs) = 34 # concat (map (piece flags) cs) @ [34]"
    by (simp add: string_text_def is_space_def)
  moreover have "sint (34 :: byte) \<notin> punctuation" unfolding punctuation_byte by simp
  ultimately show ?thesis using string_text_items[OF assms, of flags "[]"] decode_chars[OF assms, of flags]
    by (simp add: next_token_def)
qed

section \<open>Printed text\<close>

lemma utf8_valid_ascii: "(\<forall>b \<in> set bs. uint b < 128) \<Longrightarrow> utf8_valid bs"
proof (induction bs)
  case (Cons b bs)
  then have b: "scalar_value (uint b)" "utf8_bytes (uint b) = [b]"
    using uint_byte_bounds(1)[of b] by (auto simp: scalar_value_def utf8_bytes_def)
  with Cons have "utf8_valid bs" by simp
  with b show ?case using utf8_valid_append_iff[of "b # bs"] by auto
qed simp

lemma utf8_valid_append: "utf8_valid a \<Longrightarrow> utf8_valid b \<Longrightarrow> utf8_valid (a @ b)"
  unfolding utf8_valid_def by (metis (no_types, opaque_lifting) Un_iff concat_append map_append set_append)

lemma utf8_valid_bytes: "scalar_value c \<Longrightarrow> utf8_valid (utf8_bytes c)"
  unfolding utf8_valid_def by (intro exI[of _ "[c]"]) simp

text \<open>Printable ASCII.\<close>

definition printable :: "byte \<Rightarrow> bool" where
  "printable b \<longleftrightarrow> b \<noteq> 0 \<and> uint b < 128"

lemma printable_digit: "printable (digit_char d)" if "d < 16"
proof -
  from that have "d = 0 \<or> d = 1 \<or> d = 2 \<or> d = 3 \<or> d = 4 \<or> d = 5 \<or> d = 6 \<or> d = 7 \<or> d = 8 \<or> d = 9 \<or> d = 10 \<or> d = 11 \<or>
      d = 12 \<or> d = 13 \<or> d = 14 \<or> d = 15" by presburger
  then show ?thesis by (elim disjE) (simp_all add: printable_def)
qed

lemma printable_unit: "n < 65536 \<Longrightarrow> \<forall>b \<in> set (render (Unicode (unit_digits n))). printable b"
  using printable_digit by (auto simp: unit_digits_def printable_def simp del: digit_char.simps)

lemma piece_text:
  assumes "scalar_value c" "c \<noteq> 0"
  shows "utf8_valid (piece flags c) \<and> 0 \<notin> set (piece flags c)"
proof (cases "needs_escape flags c")
  case False
  then show ?thesis using utf8_valid_bytes[OF assms(1)] utf8_bytes_nonzero[OF assms] by (simp add: piece_def)
next
  case True
  have r: "0 \<le> c" "c \<le> 0x10FFFF" using assms by (auto simp: scalar_value_def)
  have "\<forall>i \<in> set (char_items flags c). \<forall>b \<in> set (render i). printable b"
  proof (cases "c < 0x10000")
    case c: True
    with r have "nat c < 65536" by simp
    from printable_unit[OF this] True c show ?thesis by (auto simp: char_items_def printable_def)
  next
    case False
    then have c: "0x10000 \<le> c" by simp
    note h = surrogate_halves[OF c r(2)]
    have "char_items flags c = [Unicode (unit_digits (nat (0xD800 + (c - 0x10000) div 1024))),
            Unicode (unit_digits (nat (0xDC00 + (c - 0x10000) mod 1024)))]"
      unfolding char_items_def using c True by simp
    moreover have "nat (0xD800 + (c - 0x10000) div 1024) < 65536" "nat (0xDC00 + (c - 0x10000) mod 1024) < 65536"
      using h by (simp_all add: nat_less_iff)
    ultimately show ?thesis using printable_unit by (simp del: render.simps)
  qed
  then have "\<forall>b \<in> set (piece flags c). printable b" unfolding piece_items[OF assms(1)] by auto
  then show ?thesis by (auto simp: printable_def intro: utf8_valid_ascii)
qed

lemma string_text_ok:
  assumes "chars_ok cs"
  shows "utf8_valid (string_text flags cs) \<and> 0 \<notin> set (string_text flags cs)"
proof -
  have q: "utf8_valid [34]" by (rule utf8_valid_ascii) simp
  have "utf8_valid (concat (map (piece flags) cs)) \<and> 0 \<notin> set (concat (map (piece flags) cs))"
    using assms
  proof (induction cs)
    case (Cons c cs)
    with piece_text[of c flags] show ?case by (auto intro: utf8_valid_append)
  qed simp
  with q show ?thesis unfolding string_text_def by (auto intro!: utf8_valid_append simp del: append.simps)
qed

lemma utf8_chars:
  assumes "utf8_valid s" "0 \<notin> set s"
  shows "\<exists>cs. chars_ok cs \<and> s = encode cs"
proof -
  from assms(1) obtain cs where cs: "\<forall>c \<in> set cs. scalar_value c" "s = encode cs" by (auto simp: utf8_valid_def)
  have "utf8_bytes 0 = [0]" by (simp add: utf8_bytes_def)
  then have "0 \<notin> set cs" using cs(2) assms(2) by force
  with cs show ?thesis by (auto simp: chars_ok_def)
qed

section \<open>Properties\<close>

text \<open>The lexer that \<open>lex_init\<close> makes for a source, with memory.\<close>

definition new_lexer :: "('d \<Rightarrow> (int \<times> 'd) outcome) \<Rightarrow> 'd \<Rightarrow> 'd lex_t outcome" where
  "new_lexer get d = obind (lex_init get d None (\<lambda>_. True)) (\<lambda>r. case r of None \<Rightarrow> Inl Null_Deref | Some lx \<Rightarrow> Inr lx)"

definition char_stream :: "nat \<Rightarrow> ('d \<Rightarrow> (int \<times> 'd) outcome) \<Rightarrow> 'd \<Rightarrow> int list outcome" where
  "char_stream n get d = obind (new_lexer get d) (\<lambda>lx. obind (get_all n lx) (\<lambda>(cs, _). Inr cs))"

definition token_stream :: "nat \<Rightarrow> ('d \<Rightarrow> (int \<times> 'd) outcome) \<Rightarrow> 'd \<Rightarrow> (int \<times> lex_value option) list outcome" where
  "token_stream n get d = obind (new_lexer get d) (scan_all n n)"

text \<open>The abstract streams, over the longest well-formed prefix of the bytes.\<close>

definition char_spec :: "nat \<Rightarrow> byte list \<Rightarrow> int list" where
  "char_spec n bs = take n (map sint (fst (text_of bs)) @ replicate n (snd (text_of bs)))"

definition token_spec :: "nat \<Rightarrow> byte list \<Rightarrow> (int \<times> lex_value option) list outcome" where
  "token_spec n bs = tokens_of n (fst (text_of bs)) (snd (text_of bs))"

context byte_source
begin

lemma new_lexer_holds:
  assumes "valid d" "length (left d) < 2 ^ 62"
  shows "\<exists>lx. new_lexer get d = Inr lx \<and> holds lx [] (fst (text_of (left d))) (snd (text_of (left d)))"
  using lex_init_holds[OF assms, of None] by (auto simp: new_lexer_def)

lemma char_stream_spec:
  assumes "valid d" "length (left d) < 2 ^ 62"
  shows "char_stream n get d = Inr (char_spec n (left d))"
proof -
  from new_lexer_holds[OF assms] obtain lx where lx: "new_lexer get d = Inr lx"
    "holds lx [] (fst (text_of (left d))) (snd (text_of (left d)))" by blast
  from get_all_spec[OF lx(2), of n] lx(1) show ?thesis by (auto simp: char_stream_def char_spec_def)
qed

lemma token_stream_spec:
  assumes "valid d" "length (left d) < 2 ^ 62" "length (left d) < n"
  shows "token_stream n get d = token_spec n (left d)" "returns_or_aborts (token_stream n get d)"
proof -
  have n: "length (fst (text_of (left d))) < n" using text_of_length[of "left d"] assms(3) by simp
  from new_lexer_holds[OF assms(1,2)] obtain lx where lx: "new_lexer get d = Inr lx"
    "holds lx [] (fst (text_of (left d))) (snd (text_of (left d)))" by blast
  from scan_all_spec[OF lx(2) n, of n] lx(1) show eq: "token_stream n get d = token_spec n (left d)"
    by (simp add: token_stream_def token_spec_def)
  show "returns_or_aborts (token_stream n get d)" unfolding eq token_spec_def by (rule tokens_of_faults[OF n])
qed

end




lemma token_spec_word:
  "w \<noteq> [] \<Longrightarrow> \<forall>b \<in> set w. is_alpha b \<Longrightarrow> utf8_valid w \<Longrightarrow> word_token w \<noteq> TOKEN_INVALID \<Longrightarrow> 1 < n \<Longrightarrow>
    token_spec n w = Inr [(word_token w, None), (TOKEN_EOF, None)]"
proof -
  assume w: "w \<noteq> []" "\<forall>b \<in> set w. is_alpha b" "utf8_valid w" "word_token w \<noteq> TOKEN_INVALID" "1 < n"
  then obtain m where n: "n = Suc (Suc m)" using that by (metis Suc_lessE One_nat_def less_imp_Suc_add)
  have "word_token w \<noteq> TOKEN_EOF" by (simp add: word_token_def tokens)
  with w n next_token_word[OF w(1,2), of STREAM_STATE_EOF] text_of_valid[OF w(3)] show ?thesis
    by (simp add: token_spec_def next_token_def[of "[]"])
qed



text \<open>The text of a scalar, as \<open>do_dump\<close> writes it, and the token that the lexer makes of it.\<close>

definition scalar_ok :: "json_body \<Rightarrow> bool" where
  "scalar_ok b = (case b of String s \<Rightarrow> utf8_valid s \<and> 0 \<notin> set s | Object _ \<Rightarrow> False | Array _ \<Rightarrow> False
     | Real _ \<Rightarrow> False | _ \<Rightarrow> True)"

definition scalar_token :: "json_body \<Rightarrow> int \<times> lex_value option" where
  "scalar_token b = (case b of
       String s \<Rightarrow> (TOKEN_STRING, Some (VString (Some s)))
     | Integer i \<Rightarrow> (TOKEN_INTEGER, Some (VInteger i))
     | True_body \<Rightarrow> (TOKEN_TRUE, None) | False_body \<Rightarrow> (TOKEN_FALSE, None) | _ \<Rightarrow> (TOKEN_NULL, None))"

lemma token_spec_single:
  assumes "utf8_valid t" "next_token t STREAM_STATE_EOF = Inr (k, v, [])" "k \<notin> {TOKEN_EOF, TOKEN_INVALID}" "2 \<le> n"
  shows "token_spec n t = Inr [(k, v), (TOKEN_EOF, None)]"
proof -
  obtain m where "n = Suc (Suc m)" using assms(4) by (metis Suc_le_D numeral_2_eq_2 Suc_le_mono)
  with assms text_of_valid[OF assms(1)] show ?thesis by (simp add: token_spec_def next_token_def[of "[]"])
qed

lemma fmt_d_printable: "\<forall>b \<in> set (fmt_d v). printable b"
proof -
  have "printable b" if "is_digit b" for b
    using that by (auto simp: is_digit_def printable_def word_le_def)
  moreover have "all_digits (digits 10 (nat \<bar>v\<bar>))" using digits_decimal by blast
  ultimately show ?thesis unfolding fmt_d_digits by (auto simp: signed_digits_def all_digits_def printable_def)
qed

lemma fmt_d_text: "utf8_valid (fmt_d v) \<and> 0 \<notin> set (fmt_d v) \<and> fmt_d v \<noteq> []"
proof -
  have "all_digits (digits 10 (nat \<bar>v\<bar>))" using digits_decimal by blast
  then have "fmt_d v \<noteq> []" unfolding fmt_d_digits by (auto simp: signed_digits_def all_digits_def)
  with fmt_d_printable[of v] show ?thesis by (auto simp: printable_def intro: utf8_valid_ascii)
qed

lemma length_digits: "n < 10 ^ Suc k \<Longrightarrow> length (digits 10 n) \<le> Suc k"
proof (induction k arbitrary: n)
  case (Suc k)
  show ?case
  proof (cases "n < 10")
    case False
    have "n div 10 < 10 ^ Suc k" using Suc.prems by (simp add: less_mult_imp_div_less)
    with Suc.IH False show ?thesis by (subst digits.simps) (simp del: digit_char.simps)
  qed (subst digits.simps, simp)
qed (subst digits.simps, simp)

lemma length_fmt_d:
  assumes "- (2 ^ 63) \<le> v" "v < 2 ^ 63"
  shows "length (fmt_d v) \<le> 20"
proof -
  have "nat \<bar>v\<bar> < 10 ^ Suc 18" using assms by simp
  from length_digits[OF this] show ?thesis unfolding fmt_d_digits by (cases "v < 0") (simp_all add: signed_digits_def)
qed

lemma length_piece:
  assumes "scalar_value c"
  shows "length (piece flags c) \<le> 12"
proof -
  have "length (concat (map render (map Plain bs))) = length bs" for bs by (induction bs) auto
  moreover have "length (utf8_bytes c) \<le> 12" using length_utf8_le(1)[of c] by simp
  ultimately show ?thesis
    unfolding piece_items[OF assms] by (auto simp: char_items_def unit_digits_def simp del: digit_char.simps map_map)
qed

lemma length_string_text:
  assumes "chars_ok cs"
  shows "length (string_text flags cs) \<le> 12 * length cs + 2"
proof -
  from assms have "length (concat (map (piece flags) cs)) \<le> 12 * length cs"
  proof (induction cs)
    case (Cons c cs)
    with length_piece[of c flags] show ?case by simp
  qed simp
  then show ?thesis by (simp add: string_text_def)
qed

text \<open>A value that \<open>do_dump\<close> writes in one piece.\<close>

definition written :: "byte list \<Rightarrow> json_body \<Rightarrow> bool" where
  "written t b \<longleftrightarrow> length t < 2 ^ 62 \<and> utf8_valid t \<and> 0 \<notin> set t \<and>
     next_token t STREAM_STATE_EOF = Inr (fst (scalar_token b), snd (scalar_token b), [])"

lemma written_word:
  assumes "w \<noteq> []" "\<forall>b \<in> set w. is_alpha b" "scalar_token b = (word_token w, None)" "length w < 2 ^ 62"
  shows "written w b"
proof -
  have "\<forall>b \<in> set w. printable b" using assms(2) by (auto simp: is_alpha_def printable_def word_le_def)
  with assms next_token_word[OF assms(1,2)] show ?thesis
    by (auto simp: written_def printable_def intro: utf8_valid_ascii)
qed

lemma scalar_written:
  assumes c: "p \<noteq> 0" "cells h p = Some c" "scalar_ok (body c)"
    and size: "\<And>s. body c = String s \<Longrightarrow> 12 * length s + 2 < 2 ^ 62" and d: "sb_holds d []"
  shows "\<exists>t d'. do_dump (Suc n) flags depth (dump_to_strbuffer (\<lambda>_. True)) p d h = Inr (0, d', h) \<and> sb_holds d' t \<and>
    written t (body c)"
proof -
  let ?dump = "dump_to_strbuffer (\<lambda>_. True)"
  have one: "\<exists>d'. with_heap h (?dump t d) = Inr (0, d', h) \<and> sb_holds d' t" if "t \<noteq> []" "length t < 2 ^ 62" for t
    using strbuffer_sink.dump_law[OF d that(1)] that(2) by (auto simp: with_heap_def)
  have word: "\<exists>t d'. with_heap h (?dump w d) = Inr (0, d', h) \<and> sb_holds d' t \<and> written t (body c)"
    if "w \<noteq> []" "\<forall>b \<in> set w. is_alpha b" "scalar_token (body c) = (word_token w, None)" "length w < 2 ^ 62" for w
    using one[OF that(1,4)] written_word[OF that] by blast
  have cell: "get_cell h p = Inr c" using c by (simp add: get_cell_def)
  show ?thesis
  proof (cases "body c")
    case (String s)
    with c(3) obtain cs where cs: "chars_ok cs" "s = encode cs" using utf8_chars by (auto simp: scalar_ok_def)
    have "length (string_text flags cs) < 2 ^ 62"
      using length_string_text[OF cs(1), of flags] length_encode[of cs] size[OF String] cs(2) by simp
    from strbuffer_sink.dump_string_spec[OF d cs(1), of flags] this obtain d' where
      "dump_string s ?dump flags d = Inr (0, d')" "sb_holds d' (string_text flags cs)" using cs(2) by auto
    moreover have "written (string_text flags cs) (body c)"
      using String \<open>length (string_text flags cs) < 2 ^ 62\<close> string_text_ok[OF cs(1), of flags] next_token_string[OF cs(1), of flags] cs(2)
      by (simp add: written_def scalar_token_def)
    ultimately show ?thesis using cell String by (auto simp: with_heap_def)
  next
    case (Integer i)
    have r: "- (2 ^ 63) \<le> sint i" "sint i < 2 ^ 63" using sint_range_size[of i] by (simp_all add: word_size)
    note len = length_fmt_d[OF r]
    have "length (fmt_d (sint i)) < 2 ^ 62" using len by simp
    from one[OF _ this] fmt_d_text obtain d' where "with_heap h (?dump (fmt_d (sint i)) d) = Inr (0, d', h)"
      "sb_holds d' (fmt_d (sint i))" by blast
    moreover have "written (fmt_d (sint i)) (body c)"
      using Integer len fmt_d_text[of "sint i"] next_token_integer[OF r] by (simp add: written_def scalar_token_def)
    ultimately show ?thesis using cell Integer len by (auto simp: MAX_INTEGER_STR_LENGTH_def Let_def)
  next
    case True_body
    with cell word[of "cstr ''true''"] show ?thesis by (simp add: scalar_token_def word_token_def is_alpha_def)
  next
    case False_body
    with cell word[of "cstr ''false''"] show ?thesis by (simp add: scalar_token_def word_token_def is_alpha_def)
  next
    case Null_body
    with cell word[of "cstr ''null''"] show ?thesis by (simp add: scalar_token_def word_token_def is_alpha_def)
  qed (use c(3) in \<open>simp_all add: scalar_ok_def\<close>)
qed



end
