(* ===== verification/Json_Meaning.thy ===== *)
theory Json_Meaning
  imports Json_Parse Json_Roundtrip
begin

text \<open>
  The entry points of \<open>load.c\<close> as functions from texts to trees, with their properties.
\<close>

section \<open>Loading\<close>

text \<open>What an entry point returns on the heap \<open>h\<close>, against the meaning of its text.\<close>

definition loads_tree :: "jheap \<Rightarrow> (jptr \<times> json_error_t option \<times> jheap) outcome \<Rightarrow> jtree option outcome \<Rightarrow> bool" where
  "loads_tree h res x \<longleftrightarrow> (case x of
       Inl f \<Rightarrow> res = Inl f
     | Inr None \<Rightarrow> \<exists>error h'. res = Inr (0, error, h') \<and> grown h h' {}
     | Inr (Some t) \<Rightarrow> \<exists>p error h' S. res = Inr (p, error, h') \<and> p \<noteq> 0 \<and> owns h' p S \<and> tree_at h' p t \<and> grown h h' S)"

definition json_meaning :: "nat \<Rightarrow> size_t \<Rightarrow> byte list \<Rightarrow> jtree option outcome" where
  "json_meaning n flags bs = text_value n flags (fst (text_of bs)) (snd (text_of bs))"

lemma json_meaning_returns: "length bs + 2 < n \<Longrightarrow> returns_or_aborts (json_meaning n flags bs)"
  unfolding json_meaning_def using text_of_length[of bs] by (intro text_value_returns) simp

text \<open>What \<open>parse_json\<close> does behind the first token.\<close>

context byte_source
begin

definition json_result :: "int \<Rightarrow> jheap \<Rightarrow> (jptr \<times> 'd lex_t \<times> jheap) outcome \<Rightarrow> jtree option outcome \<Rightarrow> bool" where
  "json_result e h0 res x \<longleftrightarrow> (case x of
       Inl f \<Rightarrow> res = Inl f
     | Inr None \<Rightarrow> \<exists>lx h. res = Inr (0, lx, h) \<and> grown h0 h {}
     | Inr (Some t) \<Rightarrow> \<exists>p lx h S. res = Inr (p, lx, h) \<and> p \<noteq> 0 \<and> owns h p S \<and> tree_at h p t \<and> grown h0 h S)"

lemma json_result_none: "parse_result e h0 B L res (Inr None) \<Longrightarrow> json_result e h0 res (Inr None)"
  by (auto simp: parse_result_def json_result_def)

lemma parse_json_result:
  assumes lx: "holds lx tx bs e" "length bs + 2 < n" "length bs < 1610612741" and wf: "jheap_wf h" and st: "statics h"
    and mem: "8 * length bs + 4 \<le> jmem h"
  shows "json_result e h (parse_json n flags lx h) (text_value n flags bs e)"
proof (cases "next_token bs e")
  case (Inl f)
  have "length bs < n" using lx(2) by simp
  from scan_fault[OF lx(1) this Inl] Inl show ?thesis
    by (simp add: parse_json_def text_value_def on_token_def json_result_def)
next
  case (Inr a)
  obtain k v r where a: "a = (k, v, r)" by (cases a)
  have "length bs < n" using lx(2) by simp
  from scan_at[OF lx(1) this Inr[unfolded a]] obtain lx1 where 1: "lex_scan n lx = Inr lx1" "at_token lx1 k v r e" by blast
  have lk: "l_token lx1 = k" using 1(2) by (simp add: at_token_def)
  have len: "length r \<le> length bs" using next_token_facts[OF Inr[unfolded a]] by simp
  let ?done = "\<lambda>(result, lx, h). if result = 0 then Inr (0, lx, h)
       else obind (if flags AND JSON_DISABLE_EOF_CHECK = 0
           then obind (lex_scan n lx) (\<lambda>lx. Inr (l_token lx \<noteq> TOKEN_EOF, lx)) else Inr (False, lx)) (\<lambda>(bad, lx).
         if bad then parse_fail (Some (cstr ''end of file expected'')) result lx h
         else Inr (result, lx\<lparr>l_error := map_option (\<lambda>e. e\<lparr>e_position := s_position (l_stream lx)\<rparr>) (l_error lx)\<rparr>, h))"
  let ?rest = "\<lambda>t r. if flags AND JSON_DISABLE_EOF_CHECK = 0
       then on_token r e (\<lambda>k v r. Inr (if k = TOKEN_EOF then Some t else None)) else Inr (Some t)"
  have run: "parse_json n flags lx h = (if flags AND JSON_DECODE_ANY = 0 \<and> k \<noteq> ch CHR ''['' \<and> k \<noteq> ch CHR ''{''
      then parse_null ([39, 91, 39] @ cstr '' or '' @ [39, 123, 39] @ cstr '' expected'') lx1 h
      else obind (parse_value n n flags lx1 h) ?done)"
    by (simp only: parse_json_def 1(1) obind_Inr lk)
  have spec: "text_value n flags bs e = (if flags AND JSON_DECODE_ANY = 0 \<and> k \<noteq> ch CHR ''['' \<and> k \<noteq> ch CHR ''{'' then Inr None
      else on_value (value_of n n flags e k v r) ?rest)"
    by (simp only: text_value_def on_token_def Inr a obind_Inr case_prod_conv)
  show ?thesis
  proof (cases "flags AND JSON_DECODE_ANY = 0 \<and> k \<noteq> ch CHR ''['' \<and> k \<noteq> ch CHR ''{''")
    case True
    with parse_null_result[OF at_token_alive[OF 1(2)] grown_refl[OF wf]] json_result_none show ?thesis
      unfolding run spec if_P[OF True] by blast
  next
    case False
    have "k \<in> {TOKEN_EOF, TOKEN_INVALID} \<or> 0 + 8 * length r + 4 \<le> jmem h" "length r < n" "length r < 1610612741"
      using len lx(2,3) mem by simp_all
    from parsesD[OF parse_value_result 1(2) wf st this(2,3,1)]
    have val: "parse_result e h 0 (length r) (parse_value n n flags lx1 h) (value_of n n flags e k v r)" .
    have "json_result e h (obind (parse_value n n flags lx1 h) ?done) (on_value (value_of n n flags e k v r) ?rest)"
    proof (cases "value_of n n flags e k v r")
      case (Inl f)
      with val show ?thesis by (simp add: parse_result_def on_value_def json_result_def)
    next
      case y: (Inr y)
      show ?thesis
      proof (cases y)
        case None
        with val y show ?thesis by (auto simp: parse_result_def on_value_def json_result_def)
      next
        case (Some tr)
        obtain t r1 where tr: "tr = (t, r1)" by (cases tr)
        with val y Some obtain p lx2 h2 S tx2 where 2: "parse_value n n flags lx1 h = Inr (p, lx2, h2)" "p \<noteq> 0" "owns h2 p S"
          "tree_at h2 p t" "grown h h2 S" "holds lx2 tx2 r1 e" "length r1 \<le> length r" by (auto simp: parse_result_def)
        show ?thesis
        proof (cases "flags AND JSON_DISABLE_EOF_CHECK = 0")
          case False
          with 2 y Some tr show ?thesis by (auto simp: on_value_def json_result_def)
        next
          case eof: True
          have r1: "length r1 < n" using 2(7) len lx(2) by simp
          show ?thesis
          proof (cases "next_token r1 e")
            case (Inl f)
            with scan_fault[OF 2(6) r1 Inl] eof 2(1,2) y Some tr show ?thesis
              by (simp add: on_value_def on_token_def json_result_def)
          next
            case b: (Inr b)
            obtain k3 v3 r3 where b3: "b = (k3, v3, r3)" by (cases b)
            from scan_at[OF 2(6) r1 b[unfolded b3]] obtain lx3 where 3: "lex_scan n lx2 = Inr lx3" "at_token lx3 k3 v3 r3 e" by blast
            have lk3: "l_token lx3 = k3" using 3(2) by (simp add: at_token_def)
            show ?thesis
            proof (cases "k3 = TOKEN_EOF")
              case True
              with 2 3 eof y Some tr b b3 lk3 show ?thesis by (auto simp: on_value_def on_token_def json_result_def)
            next
              case False
              from json_result_none[OF parse_fail_result[OF at_token_alive[OF 3(2)] 2(5,3) wf]]
              have "json_result e h (parse_fail (Some (cstr ''end of file expected'')) p lx3 h2) (Inr None)" .
              with False 2 3 eof y Some tr b b3 lk3 show ?thesis by (simp add: on_value_def on_token_def del: cstr_Cons)
            qed
          qed
        qed
      qed
    qed
    then show ?thesis unfolding run spec if_not_P[OF False] .
  qed
qed

lemma load_from_result:
  assumes "valid d" "length (left d) + 2 < n" "length (left d) < 1610612741" "jheap_wf h" "statics h" "8 * length (left d) + 4 \<le> jmem h"
  shows "loads_tree h (load_from n get d flags error (\<lambda>_. True) h) (json_meaning n flags (left d))"
proof -
  have "length (left d) < 2 ^ 62" using assms(3) by simp
  from lex_init_holds[OF assms(1) this] obtain lx where lx: "lex_init get d error (\<lambda>_. True) = Inr (Some lx)"
    "holds lx [] (fst (text_of (left d))) (snd (text_of (left d)))" by blast
  have "length (fst (text_of (left d))) \<le> length (left d)" by (rule text_of_length)
  with assms(2,3,6) have "length (fst (text_of (left d))) + 2 < n" "length (fst (text_of (left d))) < 1610612741"
    "8 * length (fst (text_of (left d))) + 4 \<le> jmem h" by simp_all
  from parse_json_result[OF lx(2) this(1,2) assms(4,5) this(3), of flags] lx(1) show ?thesis
    unfolding json_meaning_def
    by (cases "text_value n flags (fst (text_of (left d))) (snd (text_of (left d)))")
      (auto simp: load_from_def json_result_def loads_tree_def split: option.splits)
qed

end

lemma string_loads:
  assumes "length s < 1610612741" "jheap_wf h" "statics h" "8 * length s + 4 \<le> jmem h"
  shows "loads_tree h (json_loads (Some s) flags error (\<lambda>_. True) h) (json_meaning (length s + 3) flags (takeWhile (\<lambda>b. b \<noteq> 0) s))"
proof -
  have "length (takeWhile (\<lambda>b. b \<noteq> 0) s) \<le> length s" by (rule length_takeWhile_le)
  then have "length (takeWhile (\<lambda>b. b \<noteq> 0) s) + 2 < length s + 3" "length (takeWhile (\<lambda>b. b \<noteq> 0) s) < 1610612741"
    "8 * length (takeWhile (\<lambda>b. b \<noteq> 0) s) + 4 \<le> jmem h" using assms(1,4) by simp_all
  with string_src.load_from_result[of "(s, 0)" "length s + 3" h flags "jsonp_error_init error (Some (cstr ''<string>''))"] assms(2,3)
  show ?thesis by (simp add: string_valid_def string_left_def json_loads_def Let_def del: cstr_Cons)
qed

lemma buffer_loads:
  assumes "length s < 1610612741" "jheap_wf h" "statics h" "8 * length s + 4 \<le> jmem h"
  shows "loads_tree h (json_loadb (Some s) (length s) flags error (\<lambda>_. True) h) (json_meaning (length s + 3) flags s)"
  using buffer_src.load_from_result[of "(s, length s, 0)" "length s + 3" h flags "jsonp_error_init error (Some (cstr ''<buffer>''))"] assms
  by (simp add: buffer_valid_def buffer_left_def json_loadb_def Let_def del: cstr_Cons)

lemma file_loads:
  assumes "length s < 1610612741" "jheap_wf h" "statics h" "8 * length s + 4 \<le> jmem h"
  shows "loads_tree h (json_loadf stdin (Some s) flags error (\<lambda>_. True) h) (json_meaning (length s + 3) flags s)"
  using file_src.load_from_result[of s "length s + 3" h flags] assms
  by (simp add: json_loadf_def Let_def del: cstr_Cons)

lemma jheap_init_ok: "jheap_wf (jheap_init n)" "statics (jheap_init n)"
  by (auto simp: jheap_wf_def jheap_init_def statics_def json_true_def json_false_def json_null_def split: if_splits)

lemma text_valid: "\<forall>b \<in> set bs. uint b < 128 \<Longrightarrow> text_of bs = (bs, STREAM_STATE_EOF)"
  by (rule text_of_valid[OF utf8_valid_ascii])

lemma no_nul: "0 \<notin> set bs \<Longrightarrow> takeWhile (\<lambda>b. b \<noteq> (0 :: byte)) bs = bs"
  by (induction bs) auto

lemma next_token_punctuation: "b \<in> {123, 125, 91, 93, 58, 44} \<Longrightarrow> next_token (b # r) e = Inr (uint b, None, r)"
  by (auto simp: next_token_def is_space_def punctuation_byte)

lemma int_part_rest:
  assumes "all_digits ds" "hd ds = 48 \<Longrightarrow> ds = [48]" "r = [] \<or> \<not> is_digit (hd r)"
  shows "int_part (signed_digits neg ds @ r) = Some (signed_digits neg ds, r)"
proof -
  obtain d q where d: "ds = d # q" "is_digit d" using assms(1) by (cases ds) (auto simp: all_digits_def)
  then have "d \<noteq> 45" by (auto simp: is_digit_def)
  then have sp: "split_sign (signed_digits neg ds @ r) = (if neg then [45] else [], ds @ r)"
    using d by (simp add: split_sign_def signed_digits_def)
  note tw = takeWhile_digits[OF assms(1,3)]
  show ?thesis
  proof (cases "d = 48")
    case True
    with assms(2) d have "ds = [48]" by simp
    with sp assms(3) show ?thesis by (cases neg) (auto simp: int_part_def signed_digits_def is_digit_def)
  next
    case False
    with sp tw d show ?thesis
      by (cases neg) (simp_all add: int_part_def signed_digits_def)
  qed
qed

lemma next_token_integer_rest:
  assumes "- (2 ^ 63) \<le> v" "v < 2 ^ 63" "r = [] \<or> \<not> is_digit (hd r) \<and> hd r \<notin> {46, 69, 101}"
  shows "next_token (fmt_d v @ r) e = Inr (TOKEN_INTEGER, Some (VInteger (word_of_int v)), ungot r)"
proof -
  let ?ds = "digits 10 (nat \<bar>v\<bar>)"
  have ds: "all_digits ?ds" "digits_val ?ds = nat \<bar>v\<bar>" using digits_decimal[of "nat \<bar>v\<bar>"] by simp_all
  obtain b q where b: "fmt_d v = b # q" "is_digit b \<or> b = 45"
    using ds(1) unfolding fmt_d_digits signed_digits_def all_digits_def by (cases "v < 0"; cases ?ds) auto
  have nb: "\<not> is_space b" "sint b \<notin> punctuation" "b \<noteq> 34"
    using b(2) by (auto simp: is_space_def is_digit_def punctuation_byte)
  have "r = [] \<or> \<not> is_digit (hd r)" using assms(3) by blast
  from int_part_rest[OF ds(1) digits_zero this, of "v < 0"] have ip: "int_part (fmt_d v @ r) = Some (fmt_d v, r)"
    unfolding fmt_d_digits .
  have val: "(if v < 0 then - int (digits_val ?ds) else int (digits_val ?ds)) = v" unfolding ds(2) by simp
  have "strtoll (fmt_d v) = (v, length (fmt_d v), False)"
    using assms(1,2) unfolding fmt_d_digits strtoll_digits[OF ds(1)] val Let_def by simp
  then have "number_value False (fmt_d v) = Some (TOKEN_INTEGER, VInteger (word_of_int v))"
    by (simp add: number_value_def)
  moreover have "lex_number (fmt_d v @ r) = Some (False, fmt_d v, r)" using ip assms(3) by (auto simp: lex_number_def)
  moreover have "dropWhile is_space (fmt_d v @ r) = b # q @ r" using b(1) nb(1) by simp
  ultimately show ?thesis using b nb by (simp add: next_token_def)
qed

text \<open>The array of one scalar.\<close>

definition scalar_tree :: "lex_value \<Rightarrow> jtree option" where
  "scalar_tree x = (case x of VString s \<Rightarrow> map_option TString s | VInteger i \<Rightarrow> Some (TInteger i)
     | VReal d \<Rightarrow> if isnan d \<or> isinf d then None else Some (TReal d))"

lemma value_of_scalar: "value_of (Suc n) m flags e k (Some x) r = Inr (map_option (\<lambda>t. (t, r)) (scalar_tree x))"
  by (cases x) (simp_all add: scalar_tree_def option.map_comp comp_def)

lemma single_element:
  assumes "next_token bs STREAM_STATE_EOF = Inr (k, Some x, [93])"
  shows "text_value (Suc (Suc n)) flags (91 # bs) STREAM_STATE_EOF = Inr (map_option (\<lambda>t. TArray [t]) (scalar_tree x))"
proof -
  let ?N = "Suc (Suc n)"
  have ok: "token_ok k (Some x)" using next_token_facts[OF assms] by simp
  then have k: "k \<in> {TOKEN_STRING, TOKEN_INTEGER, TOKEN_REAL}" using token_ok_None[OF ok] by simp
  have open1: "next_token (91 # bs) STREAM_STATE_EOF = Inr (91, None, bs)" by (subst next_token_punctuation) simp_all
  have close: "next_token [93] STREAM_STATE_EOF = Inr (93, None, [])" by (subst next_token_punctuation) simp_all
  have eof: "next_token [] STREAM_STATE_EOF = Inr (TOKEN_EOF, None, [])" by (simp add: next_token_def)
  have el: "elements_of ?N (value_of (Suc n) ?N flags STREAM_STATE_EOF) STREAM_STATE_EOF [] k (Some x) [93] =
      Inr (map_option (\<lambda>t. (TArray [t], [])) (scalar_tree x))"
    using k by (cases "scalar_tree x")
      (auto simp: elements_of.simps(2) on_value_def on_separator_def on_token_def close value_of_scalar tokens simp del: value_of.simps)
  have "value_of ?N ?N flags STREAM_STATE_EOF 91 None bs = Inr (map_option (\<lambda>t. (TArray [t], [])) (scalar_tree x))"
    using k el by (subst value_of.simps) (auto simp: on_token_def assms tokens simp del: value_of.simps elements_of.simps)
  then show ?thesis using eof
    by (cases "scalar_tree x") (simp_all add: text_value_def on_token_def open1 on_value_def del: value_of.simps)
qed

lemma escape_value_bad: "\<exists>d \<in> set ds. escape_digit d = None \<Longrightarrow> escape_value ds v = Inl Assert_Failed"
  by (induction ds arbitrary: v) (auto split: option.split)

lemma escape_value_good: "\<forall>d \<in> set ds. escape_digit d \<noteq> None \<Longrightarrow> \<exists>n. escape_value ds v = Inr n"
  by (induction ds arbitrary: v) auto

text \<open>The string of one unicode escape.\<close>

definition escape_text_of :: "byte list \<Rightarrow> byte list" where
  "escape_text_of ds = [91, 34, 92, 117] @ ds @ [34, 93]"

definition escape_meaning :: "byte list \<Rightarrow> jtree option outcome" where
  "escape_meaning ds = obind (escape_value ds 0) (\<lambda>v.
     Inr (if v = 0 \<or> (0xD800 \<le> v \<and> v \<le> 0xDFFF) then None else Some (TArray [TString (utf8_bytes v)])))"

lemma escape_string:
  assumes "length ds = 4"
  shows "next_token (tl (escape_text_of ds)) e = obind (escape_value ds 0) (\<lambda>v.
    Inr (if v = 0 \<or> (0xD800 \<le> v \<and> v \<le> 0xDFFF) then (TOKEN_INVALID, None, [])
      else (TOKEN_STRING, Some (VString (Some (utf8_bytes v))), [93])))"
proof -
  have tk: "take 4 (ds @ [34, 93]) = ds" "drop 4 (ds @ [34, 93]) = [34, 93]" using assms by simp_all
  have it: "items_of (92 # 117 # ds @ [34, 93]) = Some ([Unicode ds], [93])"
    by (simp only: items_of_simps tk) (simp add: add_item_def)
  have sp: "\<not> is_space 34" by (simp add: is_space_def)
  have pu: "sint (34 :: byte) \<notin> punctuation" unfolding punctuation_byte by simp
  have "next_token (34 # 92 # 117 # ds @ [34, 93]) e = obind (decode_items [Unicode ds]) (\<lambda>x. case x of
        Inl msg \<Rightarrow> Inr (TOKEN_INVALID, None, []) | Inr s \<Rightarrow> Inr (TOKEN_STRING, Some (VString (Some s)), [93]))"
    using sp pu by (simp add: next_token_def it del: items_of_simps sint_eq_numeral)
  also have "\<dots> = obind (escape_value ds 0) (\<lambda>v.
    Inr (if v = 0 \<or> (0xD800 \<le> v \<and> v \<le> 0xDFFF) then (TOKEN_INVALID, None, [])
      else (TOKEN_STRING, Some (VString (Some (utf8_bytes v))), [93])))"
    by (cases "escape_value ds 0") (auto simp: prepend_def)
  finally show ?thesis by (simp add: escape_text_of_def)
qed

lemma invalid_element:
  assumes "next_token bs STREAM_STATE_EOF = Inr (TOKEN_INVALID, None, [])"
  shows "text_value (Suc (Suc n)) flags (91 # bs) STREAM_STATE_EOF = Inr None"
proof -
  have open1: "next_token (91 # bs) STREAM_STATE_EOF = Inr (91, None, bs)" by (subst next_token_punctuation) simp_all
  have inv: "value_of (Suc n) m flags e TOKEN_INVALID None r = Inr None" for m e r by (rule value_of_invalid) (simp add: token_ok_def tokens)
  have "value_of (Suc (Suc n)) (Suc (Suc n)) flags STREAM_STATE_EOF 91 None bs = Inr None"
    by (subst value_of.simps) (simp add: on_token_def assms inv[unfolded tokens(1)] on_value_def tokens del: value_of.simps)
  then show ?thesis by (simp add: text_value_def on_token_def open1 on_value_def del: value_of.simps)
qed

lemma escape_means:
  assumes "length ds = 4"
  shows "text_value (Suc (Suc n)) flags (escape_text_of ds) STREAM_STATE_EOF = escape_meaning ds"
proof -
  have tx: "escape_text_of ds = 91 # tl (escape_text_of ds)" by (simp add: escape_text_of_def)
  show ?thesis
  proof (cases "escape_value ds 0")
    case (Inl f)
    have "next_token (91 # tl (escape_text_of ds)) STREAM_STATE_EOF = Inr (91, None, tl (escape_text_of ds))"
      by (subst next_token_punctuation) simp_all
    moreover from Inl have "next_token (tl (escape_text_of ds)) STREAM_STATE_EOF = Inl f" by (simp add: escape_string[OF assms])
    moreover from this have "value_of (Suc (Suc n)) (Suc (Suc n)) flags STREAM_STATE_EOF 91 None (tl (escape_text_of ds)) = Inl f"
      by (subst value_of.simps) (simp add: on_token_def tokens del: value_of.simps)
    ultimately show ?thesis using Inl
      by (subst tx) (simp add: text_value_def on_token_def on_value_def escape_meaning_def del: value_of.simps)
  next
    case (Inr v)
    show ?thesis
    proof (cases "v = 0 \<or> (0xD800 \<le> v \<and> v \<le> 0xDFFF)")
      case True
      with Inr have "next_token (tl (escape_text_of ds)) STREAM_STATE_EOF = Inr (TOKEN_INVALID, None, [])"
        by (simp only: escape_string[OF assms] obind_Inr if_True)
      from invalid_element[OF this] tx True Inr show ?thesis by (simp add: escape_meaning_def)
    next
      case False
      with Inr have "next_token (tl (escape_text_of ds)) STREAM_STATE_EOF = Inr (TOKEN_STRING, Some (VString (Some (utf8_bytes v))), [93])"
        by (simp only: escape_string[OF assms] obind_Inr if_False)
      from single_element[OF this, of n flags] tx show ?thesis
        unfolding escape_meaning_def Inr obind_Inr if_not_P[OF False] by (simp add: scalar_tree_def)
    qed
  qed
qed

section \<open>Properties\<close>

text \<open>C33: the loaders of \<open>load.c\<close> return what their text means.  For every string, buffer and file,
  with enough memory, \<open>json_loads\<close>, \<open>json_loadb\<close> and \<open>json_loadf\<close> end and return either null, with
  every cell they allocated freed again, or a pointer that owns a new tree equal to the value of
  the text, with nothing else in the heap changed.  The one other outcome is the abort on the
  digits of a unicode escape.\<close>

theorem json_load_builds_tree:
  assumes "length s < 1610612741" "jheap_wf h" "statics h" "8 * length s + 4 \<le> jmem h"
  shows "loads_tree h (json_loads (Some s) flags error (\<lambda>_. True) h)
      (json_meaning (length s + 3) flags (takeWhile (\<lambda>b. b \<noteq> 0) s)) \<and>
    loads_tree h (json_loadb (Some s) (length s) flags error (\<lambda>_. True) h) (json_meaning (length s + 3) flags s) \<and>
    loads_tree h (json_loadf stdin (Some s) flags error (\<lambda>_. True) h) (json_meaning (length s + 3) flags s) \<and>
    returns_or_aborts (json_meaning (length s + 3) flags (takeWhile (\<lambda>b. b \<noteq> 0) s)) \<and>
    returns_or_aborts (json_meaning (length s + 3) flags s)"
  using string_loads[OF assms] buffer_loads[OF assms] file_loads[OF assms]
    json_meaning_returns[of "takeWhile (\<lambda>b. b \<noteq> 0) s" "length s + 3" flags] json_meaning_returns[of s "length s + 3" flags]
    length_takeWhile_le[of "\<lambda>b. b \<noteq> 0" s] by simp

theorem json_load_builds_tree_witness:
  "\<exists>p error h' S. json_loads (Some ([91] @ fmt_d (-7) @ [93])) 0 None (\<lambda>_. True) (jheap_init 100) = Inr (p, error, h') \<and>
    owns h' p S \<and> tree_at h' p (TArray [TInteger (-7)]) \<and> grown (jheap_init 100) h' S"
proof -
  let ?s = "[91] @ fmt_d (-7) @ [93]"
  have d: "fmt_d (-7) = [45, 55]" by (simp add: fmt_d_def digits.simps)
  have "next_token (fmt_d (-7) @ [93]) STREAM_STATE_EOF = Inr (TOKEN_INTEGER, Some (VInteger (-7)), [93])"
    using next_token_integer_rest[of "-7" "[93]" STREAM_STATE_EOF] by (simp add: is_digit_def)
  from single_element[OF this, of 5 0] text_valid[of ?s] have "json_meaning (length ?s + 3) 0 ?s = Inr (Some (TArray [TInteger (-7)]))"
    by (simp add: json_meaning_def scalar_tree_def d)
  moreover have "takeWhile (\<lambda>b. b \<noteq> 0) ?s = ?s" by (simp add: d)
  moreover have "jmem (jheap_init 100) = 100" "length ?s = 4" by (simp_all add: jheap_init_def d)
  ultimately have "loads_tree (jheap_init 100) (json_loads (Some ?s) 0 None (\<lambda>_. True) (jheap_init 100)) (Inr (Some (TArray [TInteger (-7)])))"
    using json_load_builds_tree[OF _ jheap_init_ok, of ?s 100 0 None] by simp
  then show ?thesis unfolding loads_tree_def by auto
qed



text \<open>C35: a NUL behind a number is lost.  \<open>stream_unget\<close> puts it back into a buffer that ends with a NUL,
  so \<open>json_loadb\<close> reads the array of an integer followed by a NUL as if the NUL were not there,
  although a NUL is no white space.\<close>

theorem json_loadb_skips_nul:
  assumes "- (2 ^ 63) \<le> v" "v < 2 ^ 63" "jheap_wf h" "statics h" "188 \<le> jmem h"
  shows "loads_tree h (json_loadb (Some ([91] @ fmt_d v @ [0, 93])) (length (fmt_d v) + 3) flags error (\<lambda>_. True) h)
    (Inr (Some (TArray [TInteger (word_of_int v)])))"
proof -
  let ?s = "[91] @ fmt_d v @ [0, 93]"
  have len: "length ?s = length (fmt_d v) + 3" "length ?s \<le> 23" using length_fmt_d[OF assms(1,2)] by simp_all
  have "\<forall>b \<in> set (fmt_d v). uint b < 128" using fmt_d_printable by (auto simp: printable_def)
  then have tx: "text_of ?s = (?s, STREAM_STATE_EOF)" by (intro text_valid) auto
  have "next_token (fmt_d v @ [0, 93]) STREAM_STATE_EOF = Inr (TOKEN_INTEGER, Some (VInteger (word_of_int v)), [93])"
    using next_token_integer_rest[OF assms(1,2), of "[0, 93]" STREAM_STATE_EOF] by (simp add: is_digit_def ungot_def)
  from single_element[OF this, of "length (fmt_d v) + 4" flags] tx
  have m: "json_meaning (length ?s + 3) flags ?s = Inr (Some (TArray [TInteger (word_of_int v)]))"
    by (simp add: json_meaning_def scalar_tree_def)
  have "loads_tree h (json_loadb (Some ?s) (length ?s) flags error (\<lambda>_. True) h) (json_meaning (length ?s + 3) flags ?s)"
    by (rule buffer_loads[OF _ assms(3,4)]) (use len assms(5) in linarith)+
  from this[unfolded m] show ?thesis unfolding len(1) .
qed

theorem json_loadb_skips_nul_witness:
  "loads_tree (jheap_init 200) (json_loadb (Some ([91] @ fmt_d 1 @ [0, 93])) (length (fmt_d 1) + 3) 0 None (\<lambda>_. True) (jheap_init 200))
    (Inr (Some (TArray [TInteger 1])))"
  using json_loadb_skips_nul[OF _ _ jheap_init_ok, of 1 200 0 None] by (simp add: jheap_init_def)

end
