(* ===== verification/Server.thy ===== *)
theory Server
  imports Headcrab Json_Dump Json_Meaning
begin

text \<open>
  \<open>src/src/headcrab_server.c\<close> with \<open>headcrab_init\<close> and \<open>headcrab_shutdown\<close> of \<open>headcrab.c\<close>:
  the websocket server.  libwebsockets calls the two protocol callbacks; what they ask of the
  library is written down in the state: files served, texts written to a connection, requests to
  be called again when it is writable.  Whether a write of the library succeeds, and whether its
  context can be created, are parameters.
\<close>

section \<open>State\<close>

datatype lws_reason =
    LWS_CALLBACK_ESTABLISHED
  | LWS_CALLBACK_RECEIVE
  | LWS_CALLBACK_BROADCAST
  | LWS_CALLBACK_SERVER_WRITEABLE
  | LWS_CALLBACK_HTTP
  | LWS_CALLBACK_FILTER_NETWORK_CONNECTION
  | LWS_CALLBACK_OTHER int

text \<open>
  \<open>sv_context\<close> says whether \<open>context\<close> is set, \<open>sv_thread\<close> whether \<open>tid\<close> names a thread that was
  created.
\<close>

record 'u server =
  sv_world :: "'u hc_world"
  sv_context :: bool
  sv_thread :: bool
  sv_running :: bool
  sv_served :: "(byte list \<times> byte list) list"
  sv_sent :: "byte list list"
  sv_writable_requests :: nat

definition server_init :: "'u hc_world \<Rightarrow> 'u server" where
  "server_init w = \<lparr>sv_world = w, sv_context = False, sv_thread = False, sv_running = True, sv_served = [],
     sv_sent = [], sv_writable_requests = 0\<rparr>"

section \<open>The callbacks\<close>

definition LOCAL_RESOURCE_PATH :: "byte list" where
  "LOCAL_RESOURCE_PATH = cstr ''./src''"

definition callback_http :: "lws_reason \<Rightarrow> byte list option \<Rightarrow> 'u server \<Rightarrow> int \<times> 'u server" where
  "callback_http reason input sv =
     (case reason of
        LWS_CALLBACK_HTTP \<Rightarrow>
          (0, sv\<lparr>sv_served := sv_served sv @
            [if input = Some (cstr ''/favicon.ico'') then (LOCAL_RESOURCE_PATH @ cstr ''/favicon.ico'', cstr ''image/x-icon'')
             else (LOCAL_RESOURCE_PATH @ cstr ''/test.html'', cstr ''text/html'')]\<rparr>)
      | _ \<Rightarrow> (0, sv))"

text \<open>The length of the message is handed to \<open>json_loads\<close> where its flags belong.\<close>

definition receive_message :: "(size_t \<Rightarrow> bool) \<Rightarrow> byte list option \<Rightarrow> size_t \<Rightarrow> 'u hc_world \<Rightarrow> 'u hc_world outcome" where
  "receive_message ok input len w =
     obind (json_loads input len (Some \<lparr>e_line = 0, e_column = 0, e_position = 0, e_source = [], e_text = []\<rparr>) ok (w_json w))
       (\<lambda>(message, error, h).
     obind (mq_push MQ_IN (ptr_msg message) (w_queues w)) (\<lambda>q.
     Inr (w\<lparr>w_json := h, w_queues := q\<rparr>)))"

definition LWS_SEND_BUFFER_PADDING :: nat where
  "LWS_SEND_BUFFER_PADDING = 19"

text \<open>\<open>write\<close> says what \<open>libwebsocket_write\<close> answers; \<open>ok\<close> which allocations succeed.\<close>

definition write_message :: "(size_t \<Rightarrow> bool) \<Rightarrow> (byte list \<Rightarrow> int) \<Rightarrow> 'u server \<Rightarrow> 'u server outcome" where
  "write_message ok write sv =
     (let w = sv_world sv in
      obind (mq_pop MQ_OUT (w_queues w)) (\<lambda>(v, q).
      let message = msg_ptr v; w = w\<lparr>w_queues := q\<rparr> in
      if message = 0 then Inr (sv\<lparr>sv_world := w\<rparr>)
      else obind (json_dumps ok message JSON_COMPACT (w_json w)) (\<lambda>(json_message, h).
        obind (json_decref message h) (\<lambda>h.
        let w = w\<lparr>w_json := h\<rparr> in
        case json_message of None \<Rightarrow> Inl Null_Deref
        | Some text \<Rightarrow>
            if jsonp_malloc ok (of_nat (LWS_SEND_BUFFER_PADDING + length text)) = None then Inl (Process_Exit 1)
            else if write text < 0 then Inl (Process_Exit 1)
            else Inr (sv\<lparr>sv_world := w, sv_sent := sv_sent sv @ [text],
              sv_writable_requests := Suc (sv_writable_requests sv)\<rparr>)))))"

definition callback_command :: "(size_t \<Rightarrow> bool) \<Rightarrow> (byte list \<Rightarrow> int) \<Rightarrow> lws_reason \<Rightarrow> byte list option \<Rightarrow> size_t \<Rightarrow>
    'u server \<Rightarrow> (int \<times> 'u server) outcome" where
  "callback_command ok write reason input len sv =
     (case reason of
        LWS_CALLBACK_RECEIVE \<Rightarrow>
          obind (receive_message ok input len (sv_world sv)) (\<lambda>w. Inr (0, sv\<lparr>sv_world := w\<rparr>))
      | LWS_CALLBACK_BROADCAST \<Rightarrow> obind (write_message ok write sv) (\<lambda>sv. Inr (0, sv))
      | LWS_CALLBACK_SERVER_WRITEABLE \<Rightarrow> obind (write_message ok write sv) (\<lambda>sv. Inr (0, sv))
      | _ \<Rightarrow> Inr (0, sv))"

section \<open>Starting and stopping\<close>

definition websocket_initialize :: "bool \<Rightarrow> 'u server \<Rightarrow> int \<times> 'u server" where
  "websocket_initialize created sv =
     (if \<not> created then (-1, sv\<lparr>sv_context := False\<rparr>)
      else (0, sv\<lparr>sv_context := True, sv_thread := True\<rparr>))"

text \<open>Joining a thread that was never created reads through the null identifier.\<close>

definition websocket_shutdown :: "'u server \<Rightarrow> 'u server outcome" where
  "websocket_shutdown sv =
     (let sv = sv\<lparr>sv_running := False\<rparr> in
      if \<not> sv_thread sv then Inl Null_Deref else Inr sv)"

definition websocket_notify :: "'u server \<Rightarrow> 'u server" where
  "websocket_notify sv = (let w = sv_world sv in sv\<lparr>sv_world := w\<lparr>w_broadcasts := Suc (w_broadcasts w)\<rparr>\<rparr>)"

text \<open>
  The server thread: the calls that the library makes while it services the context, one list
  of them for each round; it stops when \<open>running\<close> is 0 and destroys the context.
\<close>

type_synonym lws_event = "lws_reason \<times> byte list option \<times> size_t"

fun service_events :: "(size_t \<Rightarrow> bool) \<Rightarrow> (byte list \<Rightarrow> int) \<Rightarrow> lws_event list \<Rightarrow> 'u server \<Rightarrow> 'u server outcome" where
  "service_events ok write [] sv = Inr sv"
| "service_events ok write ((reason, input, len) # es) sv =
     obind (callback_command ok write reason input len sv) (\<lambda>(_, sv). service_events ok write es sv)"

fun websocket_thread :: "(size_t \<Rightarrow> bool) \<Rightarrow> (byte list \<Rightarrow> int) \<Rightarrow> lws_event list list \<Rightarrow> 'u server \<Rightarrow> 'u server outcome" where
  "websocket_thread ok write rounds sv =
     (if \<not> sv_running sv then Inr (sv\<lparr>sv_context := False\<rparr>)
      else case rounds of [] \<Rightarrow> Inr sv
        | es # rounds \<Rightarrow> obind (service_events ok write es sv) (websocket_thread ok write rounds))"

datatype headcrab_error = HC_SUCCESS | HC_FAIL

definition headcrab_shutdown :: "'u server \<Rightarrow> 'u server outcome" where
  "headcrab_shutdown sv = websocket_shutdown sv"

definition headcrab_init :: "bool \<Rightarrow> dmem \<Rightarrow> 'u server \<Rightarrow> (headcrab_error \<times> dmem \<times> 'u server) outcome" where
  "headcrab_init created m sv =
     obind (dispatch_table_init m) (\<lambda>m.
     let (r, sv) = websocket_initialize created sv in
     if r = 0 then Inr (HC_SUCCESS, m, sv)
     else obind (headcrab_shutdown sv) (\<lambda>sv. Inr (HC_FAIL, m, sv)))"

section \<open>Properties\<close>

text \<open>The message that a received text becomes.\<close>

definition delivered :: "'u hc_world \<Rightarrow> jtree option \<Rightarrow> 'u hc_world \<Rightarrow> bool" where
  "delivered w t w' \<longleftrightarrow> (\<exists>p S. mqueues_inv (w_queues w') \<and> out_msgs (w_queues w') = out_msgs (w_queues w) \<and>
     in_msgs (w_queues w') = (if length (in_msgs (w_queues w)) < MQ_LEN then in_msgs (w_queues w) @ [ptr_msg p] else in_msgs (w_queues w)) \<and>
     grown (w_json w) (w_json w') S \<and>
     (case t of None \<Rightarrow> p = 0 \<and> S = {} | Some t \<Rightarrow> p \<noteq> 0 \<and> owns (w_json w') p S \<and> tree_at (w_json w') p t))"

lemma receive_message_result:
  assumes "loads_tree (w_json w) (json_loads input len (Some \<lparr>e_line = 0, e_column = 0, e_position = 0, e_source = [], e_text = []\<rparr>) ok (w_json w)) x"
    "mqueues_inv (w_queues w)"
  shows "case x of Inl f \<Rightarrow> receive_message ok input len w = Inl f
    | Inr t \<Rightarrow> \<exists>w'. receive_message ok input len w = Inr w' \<and> delivered w t w' \<and> w_broadcasts w' = w_broadcasts w \<and> w_app w' = w_app w"
proof (cases x)
  case (Inl f)
  with assms(1) show ?thesis by (simp add: loads_tree_def receive_message_def)
next
  case (Inr t)
  with assms(1) obtain p error h S where
    r: "json_loads input len (Some \<lparr>e_line = 0, e_column = 0, e_position = 0, e_source = [], e_text = []\<rparr>) ok (w_json w) = Inr (p, error, h)"
      "grown (w_json w) h S" "case t of None \<Rightarrow> p = 0 \<and> S = {} | Some t \<Rightarrow> p \<noteq> 0 \<and> owns h p S \<and> tree_at h p t"
    by (cases t) (auto simp: loads_tree_def)
  from mq_push_in[OF assms(2)] obtain q where q: "mq_push MQ_IN (ptr_msg p) (w_queues w) = Inr q" "mqueues_inv q"
    "out_msgs q = out_msgs (w_queues w)"
    "in_msgs q = (if length (in_msgs (w_queues w)) < MQ_LEN then in_msgs (w_queues w) @ [ptr_msg p] else in_msgs (w_queues w))" by blast
  have "receive_message ok input len w = Inr (w\<lparr>w_json := h, w_queues := q\<rparr>)" using r(1) q(1) by (simp add: receive_message_def)
  moreover have "delivered w t (w\<lparr>w_json := h, w_queues := q\<rparr>)"
    unfolding delivered_def using r(2,3) q(2-4) by (intro exI[of _ p] exI[of _ S]) (simp split: option.splits)
  ultimately show ?thesis using Inr by simp
qed

text \<open>C36: a text that a client sends arrives in the in-queue.  For every text, with enough memory, the
  callback of the command protocol answers 0 and the in-queue has gained the pointer to a new
  tree that is the meaning of the text, or a null pointer when the text is refused, unless it is
  full; then the value is lost.  The length of the message takes effect as the flags of
  \<open>json_loads\<close>.  Nothing else changes; the one other outcome is the abort on an escape.\<close>

theorem server_receive_delivers:
  assumes "length s < 1610612741" "jheap_wf (w_json (sv_world sv))" "statics (w_json (sv_world sv))"
    "8 * length s + 4 \<le> jmem (w_json (sv_world sv))" "mqueues_inv (w_queues (sv_world sv))"
  shows "case json_meaning (length s + 3) len (takeWhile (\<lambda>b. b \<noteq> 0) s) of
      Inl f \<Rightarrow> f = Assert_Failed \<and> callback_command (\<lambda>_. True) send LWS_CALLBACK_RECEIVE (Some s) len sv = Inl f
    | Inr t \<Rightarrow> \<exists>w'. callback_command (\<lambda>_. True) send LWS_CALLBACK_RECEIVE (Some s) len sv = Inr (0, sv\<lparr>sv_world := w'\<rparr>) \<and>
        delivered (sv_world sv) t w' \<and> w_broadcasts w' = w_broadcasts (sv_world sv) \<and> w_app w' = w_app (sv_world sv)"
proof -
  note r = receive_message_result[OF string_loads[OF assms(1-4)] assms(5), of len]
  have "returns_or_aborts (json_meaning (length s + 3) len (takeWhile (\<lambda>b. b \<noteq> 0) s))"
    using length_takeWhile_le[of "\<lambda>b. b \<noteq> 0" s] by (intro json_meaning_returns) simp
  with r show ?thesis
    by (auto simp: callback_command_def returns_or_aborts_def split: sum.splits)
qed

theorem server_receive_delivers_witness:
  "\<exists>w'. callback_command (\<lambda>_. True) (\<lambda>_. 0) LWS_CALLBACK_RECEIVE (Some ([91] @ fmt_d (-7) @ [93])) 8
      (server_init (demo_world (jheap_init 100))) = Inr (0, (server_init (demo_world (jheap_init 100)))\<lparr>sv_world := w'\<rparr>) \<and>
    delivered (demo_world (jheap_init 100)) (Some (TArray [TInteger (-7)])) w'"
proof -
  let ?s = "[91] @ fmt_d (-7) @ [93]" let ?sv = "server_init (demo_world (jheap_init 100))"
  have d: "fmt_d (-7) = [45, 55]" by (simp add: fmt_d_def digits.simps)
  have "next_token (fmt_d (-7) @ [93]) STREAM_STATE_EOF = Inr (TOKEN_INTEGER, Some (VInteger (-7)), [93])"
    using next_token_integer_rest[of "-7" "[93]" STREAM_STATE_EOF] by (simp add: is_digit_def)
  from single_element[OF this, of 5 8] text_valid[of ?s] have m: "json_meaning (length ?s + 3) 8 ?s = Inr (Some (TArray [TInteger (-7)]))"
    by (simp add: json_meaning_def scalar_tree_def d)
  have tk: "takeWhile (\<lambda>b. b \<noteq> 0) ?s = ?s" by (simp add: d)
  have w: "sv_world ?sv = demo_world (jheap_init 100)" "w_json (demo_world (jheap_init 100)) = jheap_init 100"
    "mqueues_inv (w_queues (demo_world (jheap_init 100)))" "jmem (jheap_init 100) = 100" "length ?s = 4"
    by (simp_all add: server_init_def demo_world_def mqueues_inv_init jheap_init_def d)
  show ?thesis
    using server_receive_delivers[where s = ?s and sv = ?sv and len = 8 and send = "\<lambda>_. 0", unfolded tk m, unfolded w] jheap_init_ok[of 100] w(3)
    by auto
qed

text \<open>C37: a number alone is a message or not by its length.  \<open>json_loads\<close> refuses a text that is not an
  array or an object unless \<open>JSON_DECODE_ANY\<close> is set, and the callback passes the length as the flags:
  so the decimal text of an integer is delivered as that integer when bit 2 of its length is set,
  and otherwise a null pointer is put into the in-queue.\<close>

lemma and_decode_any: "of_nat n AND JSON_DECODE_ANY = 0 \<longleftrightarrow> \<not> bit n 2"
proof -
  have "(4 :: size_t) = 2 ^ 2" by simp
  then have "bit JSON_DECODE_ANY i \<longleftrightarrow> i = 2" for i unfolding JSON_DECODE_ANY_def by (simp only: bit_exp_iff) auto
  moreover have "bit (of_nat n :: size_t) 2 \<longleftrightarrow> bit n 2" by (simp add: bit_of_nat_iff)
  ultimately show ?thesis unfolding bit_eq_iff[where 'a = "64 word"] by (auto simp: bit_and_iff dest: spec[of _ 2])
qed

theorem server_integer_by_length:
  assumes "- (2 ^ 63) \<le> v" "v < 2 ^ 63" "jheap_wf (w_json (sv_world sv))" "statics (w_json (sv_world sv))"
    "164 \<le> jmem (w_json (sv_world sv))" "mqueues_inv (w_queues (sv_world sv))"
  shows "\<exists>w'. callback_command (\<lambda>_. True) send LWS_CALLBACK_RECEIVE (Some (fmt_d v)) (of_nat (length (fmt_d v))) sv =
      Inr (0, sv\<lparr>sv_world := w'\<rparr>) \<and>
    delivered (sv_world sv) (if bit (length (fmt_d v)) 2 then Some (TInteger (word_of_int v)) else None) w'"
proof -
  let ?s = "fmt_d v" let ?len = "of_nat (length ?s) :: size_t"
  have len: "length ?s \<le> 20" using length_fmt_d[OF assms(1,2)] .
  have pr: "\<forall>b \<in> set ?s. uint b < 128 \<and> b \<noteq> 0" using fmt_d_printable by (auto simp: printable_def)
  then have tx: "text_of ?s = (?s, STREAM_STATE_EOF)" "takeWhile (\<lambda>b. b \<noteq> 0) ?s = ?s" using text_valid no_nul by blast+
  have tok: "next_token ?s STREAM_STATE_EOF = Inr (TOKEN_INTEGER, Some (VInteger (word_of_int v)), [])"
    using next_token_integer_rest[OF assms(1,2), of "[]" STREAM_STATE_EOF] by (simp add: ungot_def)
  have eof: "next_token [] STREAM_STATE_EOF = Inr (TOKEN_EOF, None, [])" by (simp add: next_token_def)
  have n: "length ?s + 3 = Suc (length ?s + 2)" by simp
  have "json_meaning (length ?s + 3) ?len ?s = Inr (if bit (length ?s) 2 then Some (TInteger (word_of_int v)) else None)"
    unfolding json_meaning_def tx(1) n fst_conv snd_conv text_value_def on_token_def tok
    by (simp add: and_decode_any value_of_scalar scalar_tree_def on_value_def tokens eof del: value_of.simps)
  with server_receive_delivers[where s = ?s and sv = sv and len = ?len and send = send, OF _ assms(3,4) _ assms(6)] len assms(5)
  show ?thesis unfolding tx(2) by auto
qed

theorem server_integer_by_length_witness:
  "\<exists>w'. callback_command (\<lambda>_. True) (\<lambda>_. 0) LWS_CALLBACK_RECEIVE (Some (fmt_d 1234)) (of_nat (length (fmt_d 1234)))
      (server_init (demo_world (jheap_init 200))) = Inr (0, (server_init (demo_world (jheap_init 200)))\<lparr>sv_world := w'\<rparr>) \<and>
    delivered (demo_world (jheap_init 200)) (Some (TInteger 1234)) w'"
proof -
  let ?sv = "server_init (demo_world (jheap_init 200))"
  have w: "sv_world ?sv = demo_world (jheap_init 200)" "w_json (demo_world (jheap_init 200)) = jheap_init 200"
    "mqueues_inv (w_queues (demo_world (jheap_init 200)))" "jmem (jheap_init 200) = 200" 
    by (simp_all add: server_init_def demo_world_def mqueues_inv_init jheap_init_def)
  have "length (fmt_d 1234) = 4" by (simp add: fmt_d_def digits.simps)
  then have "bit (length (fmt_d 1234)) 2" by (simp add: bit_iff_odd)
  with server_integer_by_length[of 1234 ?sv "\<lambda>_. 0", unfolded w, OF _ _ jheap_init_ok _ w(3)] w(4)
  show ?thesis by auto
qed

end
