(* ===== verification/Boids.thy ===== *)
theory Boids
  imports Headcrab Doubles
begin

text \<open>
  \<open>examples/boids/src\<close>: the flocking demo on top of headcrab.  \<open>boid.c\<close> makes boids,
  \<open>boid_list.c\<close> keeps them in a linked list of its own, \<open>simulate.c\<close> moves them and answers the
  browser.  All the arithmetic is that of \<open>double\<close>; \<open>sqrt\<close>, \<open>atan\<close> and \<open>tan\<close> of the math library,
  whose results depend on the library, and \<open>rand\<close> are parameters.
\<close>

section \<open>Boids (boid.h, boid.c)\<close>

definition MAP_WIDTH :: int where "MAP_WIDTH = 300"
definition MAP_HEIGHT :: int where "MAP_HEIGHT = 300"
definition BOID_COUNT :: nat where "BOID_COUNT = 20"
definition PI_CONSTANT :: double where "PI_CONSTANT = 0x400921fb54442d11"
definition BOID_LENGTH :: double where "BOID_LENGTH = double_of_int 1"
definition MAX_VELOCITY :: double where "MAX_VELOCITY = double_of_int 1"
definition MAX_ACCELERATION :: double where "MAX_ACCELERATION = double_of_int 5"
definition BOID_VIEW_DIST :: double where "BOID_VIEW_DIST = double_of_int 30"

text \<open>The constants 0.5 and 0.1; the macro is \<open>(270.0 / 360.0) * PI_CONSTANT\<close>.\<close>

definition half :: double where "half = 0x3FE0000000000000"
definition tenth :: double where "tenth = 0x3FB999999999999A"

definition BOID_VIEW_ARC :: double where
  "BOID_VIEW_ARC = double_mul (double_div (double_of_int 270) (double_of_int 360)) PI_CONSTANT"

record Dimensions =
  d_length :: double
  d_width :: double

record Position =
  p_x :: double
  p_y :: double

record Velocity =
  v_speed :: double
  v_dir :: double

record Accel =
  a_accel :: double
  a_dir :: double

record Boid =
  boidID :: int
  b_size :: Dimensions
  b_pos :: Position
  b_vel :: Velocity
  b_acc :: Accel

text \<open>\<open>rand\<close> answers with a number and its next state, and its calls are made in the order they are
  written, which C leaves open inside an initialiser; \<open>ok\<close> is whether \<open>malloc\<close> succeeds.\<close>

definition boid_random_init :: "('r \<Rightarrow> int \<times> 'r) \<Rightarrow> bool \<Rightarrow> int \<Rightarrow> 'r \<Rightarrow> Boid option \<times> int \<times> 'r" where
  "boid_random_init rand ok unique_boidID r =
     (if \<not> ok then (None, unique_boidID, r)
      else let (a, r) = rand r; (b, r) = rand r; (c, r) = rand r; (d, r) = rand r
        in (Some \<lparr>boidID = unique_boidID,
              b_size = \<lparr>d_length = BOID_LENGTH, d_width = double_mul BOID_LENGTH half\<rparr>,
              b_pos = \<lparr>p_x = double_of_int (c_rem a MAP_WIDTH), p_y = double_of_int (c_rem b MAP_HEIGHT)\<rparr>,
              b_vel = \<lparr>v_speed = double_of_int (c_rem c 10),
                v_dir = double_div (double_mul PI_CONSTANT (double_of_int (c_rem d 360))) (double_of_int 360)\<rparr>,
              b_acc = \<lparr>a_accel = 0, a_dir = 0\<rparr>\<rparr>, unique_boidID + 1, r))"

section \<open>The linked list (boid_list.c)\<close>

text \<open>The memory of the list: nodes and boids at addresses, 0 being null.\<close>

record BoidList =
  bl_boid :: nat
  bl_next :: nat

record boid_mem =
  bm_nodes :: "nat \<rightharpoonup> BoidList"
  bm_boids :: "nat \<rightharpoonup> Boid"
  bm_next :: nat
  bm_left :: nat

definition read_bl :: "boid_mem \<Rightarrow> nat \<Rightarrow> BoidList outcome" where
  "read_bl m p =
     (if p = 0 then Inl Null_Deref
      else case bm_nodes m p of None \<Rightarrow> Inl Use_After_Free | Some x \<Rightarrow> Inr x)"

definition write_bl :: "nat \<Rightarrow> BoidList \<Rightarrow> boid_mem \<Rightarrow> boid_mem outcome" where
  "write_bl p x m = obind (read_bl m p) (\<lambda>_. Inr (m\<lparr>bm_nodes := (bm_nodes m)(p \<mapsto> x)\<rparr>))"

definition read_boid :: "boid_mem \<Rightarrow> nat \<Rightarrow> Boid outcome" where
  "read_boid m p =
     (if p = 0 then Inl Null_Deref
      else case bm_boids m p of None \<Rightarrow> Inl Use_After_Free | Some x \<Rightarrow> Inr x)"

text \<open>\<open>malloc\<close> of a node: its members are set right after, so they are given here.\<close>

definition new_bl :: "BoidList \<Rightarrow> boid_mem \<Rightarrow> nat \<times> boid_mem" where
  "new_bl x m =
     (if bm_left m = 0 then (0, m)
      else (bm_next m, m\<lparr>bm_nodes := (bm_nodes m)(bm_next m \<mapsto> x), bm_next := Suc (bm_next m),
        bm_left := bm_left m - 1\<rparr>))"

text \<open>\<open>free\<close>: of null it does nothing, of a freed address it is a double free.\<close>

definition free_bl :: "nat \<Rightarrow> boid_mem \<Rightarrow> boid_mem outcome" where
  "free_bl p m =
     (if p = 0 then Inr m
      else if bm_nodes m p = None then Inl Use_After_Free
      else Inr (m\<lparr>bm_nodes := (bm_nodes m)(p := None)\<rparr>))"

definition boid_free :: "nat \<Rightarrow> boid_mem \<Rightarrow> boid_mem outcome" where
  "boid_free p m =
     (if p = 0 then Inr m
      else if bm_boids m p = None then Inl Use_After_Free
      else Inr (m\<lparr>bm_boids := (bm_boids m)(p := None)\<rparr>))"

definition boidlist_init :: "boid_mem \<Rightarrow> (nat \<times> boid_mem) outcome" where
  "boidlist_init m =
     (let (p, m) = new_bl \<lparr>bl_boid = 0, bl_next = 0\<rparr> m in if p = 0 then Inl Null_Deref else Inr (p, m))"

fun last_loop :: "nat \<Rightarrow> nat \<Rightarrow> boid_mem \<Rightarrow> nat outcome" where
  "last_loop 0 p m = Inl Diverges"
| "last_loop (Suc n) p m =
     obind (read_bl m p) (\<lambda>x. if bl_next x = 0 then Inr p else last_loop n (bl_next x) m)"

definition boidlist_get_last_node :: "nat \<Rightarrow> boid_mem \<Rightarrow> nat outcome" where
  "boidlist_get_last_node p m = (if p = 0 then Inr 0 else last_loop (Suc (bm_next m)) p m)"

text \<open>The list pointer is returned with the memory.\<close>

definition boidlist_add :: "nat \<Rightarrow> nat \<Rightarrow> boid_mem \<Rightarrow> (nat \<times> boid_mem) outcome" where
  "boidlist_add p boid m =
     (if p = 0
      then obind (boidlist_init m) (\<lambda>(p, m).
        obind (read_bl m p) (\<lambda>x. obind (write_bl p (x\<lparr>bl_boid := boid\<rparr>) m) (\<lambda>m. Inr (p, m))))
      else obind (boidlist_get_last_node p m) (\<lambda>last_node.
        let (new_node, m) = new_bl \<lparr>bl_boid = boid, bl_next = 0\<rparr> m in
        obind (read_bl m last_node) (\<lambda>x.
        obind (write_bl last_node (x\<lparr>bl_next := new_node\<rparr>) m) (\<lambda>m.
        if new_node = 0 then Inl Null_Deref else Inr (p, m)))))"

text \<open>
  The node behind \<open>last\<close> is unlinked, and then the new \<open>last->next\<close> is freed: the node after
  the one that was unlinked.
\<close>

fun list_remove_loop :: "nat \<Rightarrow> nat \<Rightarrow> nat \<Rightarrow> boid_mem \<Rightarrow> boid_mem outcome" where
  "list_remove_loop 0 lst boid m = Inl Diverges"
| "list_remove_loop (Suc n) lst boid m =
     obind (read_bl m lst) (\<lambda>x.
     if bl_next x = 0 then Inr m
     else obind (read_bl m (bl_next x)) (\<lambda>y.
       obind (read_boid m (bl_boid y)) (\<lambda>b.
       obind (read_boid m boid) (\<lambda>c.
       if boidID b = boidID c
       then obind (boid_free (bl_boid y) m) (\<lambda>m.
         obind (write_bl lst (x\<lparr>bl_next := bl_next y\<rparr>) m) (\<lambda>m.
         free_bl (bl_next y) m))
       else list_remove_loop n (bl_next x) boid m))))"

definition boidlist_remove :: "nat \<Rightarrow> nat \<Rightarrow> boid_mem \<Rightarrow> boid_mem outcome" where
  "boidlist_remove p boid m = (if p = 0 then Inr m else list_remove_loop (Suc (bm_next m)) p boid m)"

fun size_loop :: "nat \<Rightarrow> nat \<Rightarrow> nat \<Rightarrow> boid_mem \<Rightarrow> nat outcome" where
  "size_loop 0 p i m = Inl Diverges"
| "size_loop (Suc n) p i m =
     obind (read_bl m p) (\<lambda>x. if bl_next x = 0 then Inr i else size_loop n (bl_next x) (Suc i) m)"

definition boidlist_size :: "nat \<Rightarrow> boid_mem \<Rightarrow> nat outcome" where
  "boidlist_size p m = (if p = 0 then Inr 0 else size_loop (Suc (bm_next m)) p 0 m)"

section \<open>The simulation (simulate.c)\<close>

record libm =
  m_sqrt :: "double \<Rightarrow> double"
  m_atan :: "double \<Rightarrow> double"
  m_tan :: "double \<Rightarrow> double"

definition distance :: "libm \<Rightarrow> Position \<Rightarrow> Position \<Rightarrow> double" where
  "distance lm a b =
     m_sqrt lm (double_add (double_mul (double_sub (p_x a) (p_x b)) (double_sub (p_x a) (p_x b)))
       (double_mul (double_sub (p_y a) (p_y b)) (double_sub (p_y a) (p_y b))))"

definition angle :: "libm \<Rightarrow> Position \<Rightarrow> double \<Rightarrow> Position \<Rightarrow> double" where
  "angle lm a dir b =
     double_sub (m_atan lm (double_div (double_sub (p_y a) (p_y b)) (double_sub (p_x a) (p_x b)))) dir"

definition bound :: "double \<Rightarrow> double \<Rightarrow> double \<Rightarrow> double" where
  "bound v lower_limit upper_limit =
     (let v = (if double_lt v lower_limit then lower_limit else v)
      in if double_lt upper_limit v then upper_limit else v)"

definition wrap :: "double \<Rightarrow> double \<Rightarrow> double \<Rightarrow> double" where
  "wrap v lower_limit upper_limit =
     (let adjusted_value =
        (if \<not> double_eq upper_limit 0 then double_mul upper_limit (double_floor (double_div v upper_limit)) else 0)
      in double_sub v (double_add adjusted_value lower_limit))"

text \<open>A view's boid is an index into \<open>boid_list\<close>, \<open>None\<close> being null.\<close>

record BoidView =
  view_boid :: "nat option"
  dist_to_boid :: double
  angle_to_boid :: double

text \<open>
  \<open>boid_list\<close> is the array of \<open>BOID_COUNT\<close> boids, \<open>None\<close> being a null pointer; a view list is an
  array of as many views, \<open>None\<close> being one that was never written.
\<close>

type_synonym flock = "Boid option list"

definition flock_at :: "flock \<Rightarrow> nat \<Rightarrow> Boid outcome" where
  "flock_at fl i =
     (if i < length fl then (case fl ! i of None \<Rightarrow> Inl Null_Deref | Some b \<Rightarrow> Inr b) else Inl Out_Of_Bounds)"

definition put_view :: "nat \<Rightarrow> BoidView \<Rightarrow> BoidView option list \<Rightarrow> BoidView option list outcome" where
  "put_view j v vs = (if j < length vs then Inr (vs[j := Some v]) else Inl Out_Of_Bounds)"

fun view_loop :: "libm \<Rightarrow> flock \<Rightarrow> Boid \<Rightarrow> nat \<Rightarrow> nat \<Rightarrow> nat \<Rightarrow> BoidView option list \<Rightarrow> (nat \<times> BoidView option list) outcome" where
  "view_loop lm fl boid i j 0 vs = Inr (j, vs)"
| "view_loop lm fl boid i j (Suc k) vs =
     (if int i = boidID boid then view_loop lm fl boid (Suc i) j k vs
      else obind (flock_at fl i) (\<lambda>oth.
        let dist = distance lm (b_pos boid) (b_pos oth);
            ang = angle lm (b_pos boid) (v_dir (b_vel boid)) (b_pos oth)
        in if double_lt dist BOID_VIEW_DIST \<and> double_lt (double_abs ang) (double_div BOID_VIEW_ARC (double_of_int 2))
           then obind (put_view j \<lparr>view_boid = Some i, dist_to_boid = dist, angle_to_boid = ang\<rparr> vs)
             (view_loop lm fl boid (Suc i) (Suc j) k)
           else view_loop lm fl boid (Suc i) j k vs))"

definition fill_view_list :: "libm \<Rightarrow> flock \<Rightarrow> Boid \<Rightarrow> BoidView option list \<Rightarrow> BoidView option list outcome" where
  "fill_view_list lm fl boid vs =
     obind (view_loop lm fl boid 0 0 BOID_COUNT vs) (\<lambda>(j, vs).
     if j < BOID_COUNT then put_view j \<lparr>view_boid = None, dist_to_boid = 0, angle_to_boid = 0\<rparr> vs else Inr vs)"

definition attraction :: "Boid \<Rightarrow> BoidView \<Rightarrow> Accel" where
  "attraction boid oth =
     \<lparr>a_accel = bound (double_mul tenth (dist_to_boid oth)) (double_neg MAX_ACCELERATION) MAX_ACCELERATION,
      a_dir = double_sub (v_dir (b_vel boid)) (angle_to_boid oth)\<rparr>"

fun influence_loop :: "nat \<Rightarrow> Boid \<Rightarrow> BoidView option list \<Rightarrow> nat \<Rightarrow> Accel \<Rightarrow> Accel outcome" where
  "influence_loop 0 boid vs i upd = Inl Diverges"
| "influence_loop (Suc n) boid vs i upd =
     (if i < length vs
      then (case vs ! i of None \<Rightarrow> Inl Out_Of_Bounds
        | Some v \<Rightarrow>
            if view_boid v = None then Inr upd
            else let attract = attraction boid v
              in influence_loop n boid vs (Suc i)
                (upd\<lparr>a_accel := double_add (a_accel upd) (double_mul tenth (a_accel attract)),
                   a_dir := double_add (a_dir upd) (double_mul tenth (a_dir attract))\<rparr>))
      else Inl Out_Of_Bounds)"

text \<open>\<open>update\<close> is never initialised: \<open>garbage\<close> is what its memory holds.\<close>

definition total_influence :: "libm \<Rightarrow> flock \<Rightarrow> Accel \<Rightarrow> Boid \<Rightarrow> Accel outcome" where
  "total_influence lm fl garbage boid =
     obind (fill_view_list lm fl boid (replicate BOID_COUNT None)) (\<lambda>vs.
     influence_loop (Suc BOID_COUNT) boid vs 0 garbage)"

definition update_boid :: "libm \<Rightarrow> Accel \<Rightarrow> double \<Rightarrow> Boid \<Rightarrow> Boid" where
  "update_boid lm influence dt boid =
     (let accel = bound (double_add (a_accel (b_acc boid)) (a_accel influence)) (double_neg MAX_ACCELERATION) MAX_ACCELERATION;
          two_pi = double_mul (double_of_int 2) PI_CONSTANT;
          adir = wrap (double_add (a_dir (b_acc boid)) (a_dir influence)) 0 two_pi;
          speed = bound (double_add (v_speed (b_vel boid)) (double_mul dt accel)) 0 MAX_VELOCITY;
          vdir = wrap (double_add (v_dir (b_vel boid)) (double_mul dt adir)) 0 two_pi;
          t = m_tan lm vdir;
          dx = double_div speed (m_sqrt lm (double_add (double_of_int 1) (double_mul t t)));
          x = wrap (p_y (b_pos boid)) 0 (double_of_int MAP_WIDTH);
          y = wrap (double_add (p_y (b_pos boid)) (double_mul (double_mul dx t) dt)) 0 (double_of_int MAP_HEIGHT)
      in boid\<lparr>b_acc := \<lparr>a_accel = accel, a_dir = adir\<rparr>, b_vel := \<lparr>v_speed = speed, v_dir = vdir\<rparr>,
           b_pos := \<lparr>p_x = x, p_y = y\<rparr>\<rparr>)"

text \<open>The two loops of \<open>update\<close>: first all the influences, then all the boids.\<close>

fun influences :: "libm \<Rightarrow> flock \<Rightarrow> Accel \<Rightarrow> nat \<Rightarrow> nat \<Rightarrow> Accel list outcome" where
  "influences lm fl garbage i 0 = Inr []"
| "influences lm fl garbage i (Suc k) =
     obind (flock_at fl i) (\<lambda>b.
     obind (total_influence lm fl garbage b) (\<lambda>a.
     obind (influences lm fl garbage (Suc i) k) (\<lambda>as. Inr (a # as))))"

fun update_all :: "libm \<Rightarrow> double \<Rightarrow> nat \<Rightarrow> Accel list \<Rightarrow> flock \<Rightarrow> flock outcome" where
  "update_all lm dt i [] fl = Inr fl"
| "update_all lm dt i (a # as) fl =
     obind (flock_at fl i) (\<lambda>b. update_all lm dt (Suc i) as (fl[i := Some (update_boid lm a dt b)]))"

definition update :: "libm \<Rightarrow> Accel \<Rightarrow> double \<Rightarrow> flock \<Rightarrow> flock outcome" where
  "update lm garbage time_step fl =
     obind (influences lm fl garbage 0 BOID_COUNT) (\<lambda>as. update_all lm time_step 0 as fl)"

section \<open>The answer to the browser\<close>

text \<open>The application: the flock and the two flags.\<close>

record boid_app =
  boid_list :: flock
  app_running :: bool
  shutdownServer :: bool

definition set_real :: "jptr \<Rightarrow> byte list \<Rightarrow> double \<Rightarrow> jheap \<Rightarrow> jheap outcome" where
  "set_real p key v h =
     obind (json_real v h) (\<lambda>(n, h). obind (json_object_set_new p (Some key) n h) (\<lambda>(_, h). Inr h))"

definition json_boid_data :: "Boid \<Rightarrow> jheap \<Rightarrow> (jptr \<times> jheap) outcome" where
  "json_boid_data boid h =
     obind (json_object h) (\<lambda>(boid_data, h).
     obind (set_real boid_data (cstr ''x'') (p_x (b_pos boid)) h) (\<lambda>h.
     obind (set_real boid_data (cstr ''y'') (p_y (b_pos boid)) h) (\<lambda>h.
     obind (set_real boid_data (cstr ''theta'') (v_dir (b_vel boid)) h) (\<lambda>h.
     Inr (boid_data, h)))))"

fun boid_array_loop :: "flock \<Rightarrow> jptr \<Rightarrow> nat \<Rightarrow> nat \<Rightarrow> jheap \<Rightarrow> jheap outcome" where
  "boid_array_loop fl boids i 0 h = Inr h"
| "boid_array_loop fl boids i (Suc k) h =
     obind (flock_at fl i) (\<lambda>b.
     obind (json_boid_data b h) (\<lambda>(data, h).
     obind (json_array_append_new boids data h) (\<lambda>(_, h). boid_array_loop fl boids (Suc i) k h)))"

definition json_boid_array :: "flock \<Rightarrow> jheap \<Rightarrow> (jptr \<times> jheap) outcome" where
  "json_boid_array fl h =
     obind (json_array h) (\<lambda>(boids, h). obind (boid_array_loop fl boids 0 BOID_COUNT h) (\<lambda>h. Inr (boids, h)))"

text \<open>\<open>json_integer_value\<close> is narrowed to \<open>int\<close>.\<close>

definition send_data_to_browser :: "jptr \<Rightarrow> boid_app hc_world \<Rightarrow> boid_app hc_world outcome" where
  "send_data_to_browser args w =
     obind (json_object (w_json w)) (\<lambda>(message, h).
     obind (json_string (Some (cstr ''response'')) h) (\<lambda>(t, h).
     obind (json_object_set_new message (Some (cstr ''type'')) t h) (\<lambda>(_, h).
     obind (json_object h) (\<lambda>(data, h).
     obind (json_boid_array (boid_list (w_app w)) h) (\<lambda>(boids, h).
     obind (json_object_set_new data (Some (cstr ''boids'')) boids h) (\<lambda>(_, h).
     obind (json_object_set_new message (Some (cstr ''data'')) data h) (\<lambda>(_, h).
     obind (json_object_get h args (cstr ''seqID'')) (\<lambda>seq_id.
     obind (json_integer_value h seq_id) (\<lambda>i.
     headcrab_post_message (ucast i) message (w\<lparr>w_json := h\<rparr>))))))))))"

definition pause :: "boid_app hc_world \<Rightarrow> boid_app hc_world" where
  "pause w = w\<lparr>w_app := (w_app w)\<lparr>app_running := False\<rparr>\<rparr>"

definition unpause :: "boid_app hc_world \<Rightarrow> boid_app hc_world" where
  "unpause w = w\<lparr>w_app := (w_app w)\<lparr>app_running := True\<rparr>\<rparr>"

definition quit_simulation :: "boid_app hc_world \<Rightarrow> boid_app hc_world" where
  "quit_simulation w = w\<lparr>w_app := (w_app w)\<lparr>shutdownServer := True\<rparr>\<rparr>"

text \<open>The function pointers: 1 \<open>pause\<close>, 2 \<open>unpause\<close>, 3 \<open>send_data_to_browser\<close>, 4
  \<open>quit_simulation\<close>.\<close>

definition boid_callbacks :: "(jptr, boid_app hc_world) callbacks" where
  "boid_callbacks =
     \<lparr>run_pre = (\<lambda>f a w. Inr (if f = 1 then pause w else if f = 2 then unpause w else w)),
      run_op = (\<lambda>f t a w. if f = 3 then send_data_to_browser a w else if f = 4 then Inr (quit_simulation w) else Inr w),
      run_post = (\<lambda>f a w. Inr (if f = 1 then pause w else if f = 2 then unpause w else w))\<rparr>"

text \<open>The bindings that \<open>main\<close> makes; the array \<open>boid_list\<close> is the opaque target 1.\<close>

definition boid_bindings :: "dmem \<Rightarrow> dmem outcome" where
  "boid_bindings m =
     obind (headcrab_bind_object 1 (Some (cstr ''flock'')) (Some (cstr ''getall'')) (Some 1) 0 (Some 3) (Some 2) 0 m) (\<lambda>m.
     headcrab_bind_object 0 (Some (cstr ''flock'')) (Some (cstr ''pause'')) (Some 1) 0 None None 0 m)"

text \<open>The main loop, \<open>n\<close> rounds of it; what \<open>update\<close> finds on the stack, and the messages that the
  server thread pushes between the rounds, are given for each round.\<close>

fun boid_main_loop :: "libm \<Rightarrow> nat \<Rightarrow> (Accel \<times> (boid_app hc_world \<Rightarrow> boid_app hc_world)) list \<Rightarrow> dmem \<Rightarrow>
    boid_app hc_world \<Rightarrow> boid_app hc_world outcome" where
  "boid_main_loop lm n [] m w = Inr w"
| "boid_main_loop lm n ((garbage, serve) # rounds) m w =
     (if shutdownServer (w_app w) then Inr w
      else obind (if app_running (w_app w)
          then obind (update lm garbage (double_div (double_of_int 1) (double_of_int 100000)) (boid_list (w_app w)))
            (\<lambda>fl. Inr (w\<lparr>w_app := (w_app w)\<lparr>boid_list := fl\<rparr>\<rparr>))
          else Inr w) (\<lambda>w.
        obind (headcrab_handle_commands n boid_callbacks m w) (\<lambda>w.
        boid_main_loop lm n rounds m (serve w))))"

text \<open>The first loop of \<open>main\<close>: \<open>oks i\<close> says whether the allocation of boid \<open>i\<close> succeeds.\<close>

fun init_boids :: "('r \<Rightarrow> int \<times> 'r) \<Rightarrow> (nat \<Rightarrow> bool) \<Rightarrow> nat \<Rightarrow> nat \<Rightarrow> int \<Rightarrow> 'r \<Rightarrow> flock" where
  "init_boids rand oks i 0 unique_boidID r = []"
| "init_boids rand oks i (Suc k) unique_boidID r =
     (let (b, u, r) = boid_random_init rand (oks i) unique_boidID r in b # init_boids rand oks (Suc i) k u r)"

section \<open>The view list stays inside its array\<close>

definition full_flock :: "flock \<Rightarrow> bool" where
  "full_flock fl \<longleftrightarrow> length fl = BOID_COUNT \<and> None \<notin> set fl"

lemma flock_at_full: "full_flock fl \<Longrightarrow> i < BOID_COUNT \<Longrightarrow> \<exists>b. flock_at fl i = Inr b"
  by (auto simp: full_flock_def flock_at_def in_set_conv_nth split: option.split)

definition views_upto :: "nat \<Rightarrow> BoidView option list \<Rightarrow> bool" where
  "views_upto j vs \<longleftrightarrow> (\<forall>x < j. \<exists>v. vs ! x = Some v \<and> view_boid v \<noteq> None)"

lemma views_upto_snoc:
  "views_upto j vs \<Longrightarrow> j < length vs \<Longrightarrow> view_boid v \<noteq> None \<Longrightarrow> views_upto (Suc j) (vs[j := Some v])"
  by (auto simp: views_upto_def nth_list_update less_Suc_eq)

definition in_view :: "libm \<Rightarrow> flock \<Rightarrow> Boid \<Rightarrow> nat \<Rightarrow> bool" where
  "in_view lm fl boid i \<longleftrightarrow> (\<exists>oth. flock_at fl i = Inr oth \<and>
     double_lt (distance lm (b_pos boid) (b_pos oth)) BOID_VIEW_DIST \<and>
     double_lt (double_abs (angle lm (b_pos boid) (v_dir (b_vel boid)) (b_pos oth)))
       (double_div BOID_VIEW_ARC (double_of_int 2)))"

text \<open>The number of views is that of the other boids in view.\<close>

definition seen :: "libm \<Rightarrow> flock \<Rightarrow> Boid \<Rightarrow> nat \<Rightarrow> nat \<Rightarrow> nat list" where
  "seen lm fl boid i k = filter (\<lambda>x. int x \<noteq> boidID boid \<and> in_view lm fl boid x) [i..<i + k]"

lemma seen_Suc:
  "seen lm fl boid i (Suc k) = (if int i \<noteq> boidID boid \<and> in_view lm fl boid i then [i] else []) @ seen lm fl boid (Suc i) k"
proof -
  have "[i..<i + Suc k] = i # [Suc i..<Suc i + k]" by (simp add: upt_conv_Cons)
  then show ?thesis unfolding seen_def by simp
qed

lemma view_loop_spec:
  assumes "full_flock fl"
  shows "i + k \<le> BOID_COUNT \<Longrightarrow> length vs = BOID_COUNT \<Longrightarrow> j + length (seen lm fl boid i k) \<le> BOID_COUNT \<Longrightarrow>
    views_upto j vs \<Longrightarrow>
    \<exists>vs'. view_loop lm fl boid i j k vs = Inr (j + length (seen lm fl boid i k), vs') \<and> length vs' = BOID_COUNT \<and>
      views_upto (j + length (seen lm fl boid i k)) vs'"
proof (induction k arbitrary: i j vs)
  case 0
  then show ?case by (simp add: seen_def)
next
  case (Suc k)
  show ?case
  proof (cases "int i = boidID boid")
    case True
    with Suc.IH[of "Suc i" vs j] Suc.prems show ?thesis by (simp add: seen_Suc)
  next
    case False
    from flock_at_full[OF assms, of i] Suc.prems(1) obtain oth where oth: "flock_at fl i = Inr oth" by auto
    show ?thesis
    proof (cases "in_view lm fl boid i")
      case True
      let ?v = "\<lparr>view_boid = Some i, dist_to_boid = distance lm (b_pos boid) (b_pos oth),
        angle_to_boid = angle lm (b_pos boid) (v_dir (b_vel boid)) (b_pos oth)\<rparr>"
      have sn: "seen lm fl boid i (Suc k) = i # seen lm fl boid (Suc i) k" using True False by (simp add: seen_Suc)
      have "j < length vs" using Suc.prems(2,3) sn by simp
      with Suc.IH[of "Suc i" "vs[j := Some ?v]" "Suc j"] Suc.prems sn views_upto_snoc[of j vs ?v]
        True False oth show ?thesis
        by (simp add: in_view_def put_view_def Let_def)
    next
      case 2: False
      have sn: "seen lm fl boid i (Suc k) = seen lm fl boid (Suc i) k" using 2 by (simp add: seen_Suc)
      with Suc.IH[of "Suc i" vs j] Suc.prems 2 False oth show ?thesis
        by (auto simp: in_view_def Let_def)
    qed
  qed
qed

lemma influence_loop_returns:
  "views_upto j vs \<Longrightarrow> j < length vs \<Longrightarrow> vs ! j = Some v \<Longrightarrow> view_boid v = None \<Longrightarrow> i \<le> j \<Longrightarrow> j < i + n \<Longrightarrow>
     \<exists>r. influence_loop n boid vs i upd = Inr r \<and> (j = i \<longrightarrow> r = upd)"
proof (induction n arbitrary: i upd)
  case (Suc n)
  show ?case
  proof (cases "i = j")
    case True
    with Suc.prems show ?thesis by simp
  next
    case False
    with Suc.prems(5) have "i < j" by simp
    with Suc.prems(1) obtain w where "vs ! i = Some w" "view_boid w \<noteq> None" unfolding views_upto_def by blast
    moreover have "\<exists>r. influence_loop n boid vs (Suc i) u = Inr r" for u
      using Suc.IH[of "Suc i" u] Suc.prems False by auto
    ultimately show ?thesis using Suc.prems(2,5) False by (simp add: Let_def)
  qed
qed simp

lemma total_influence_spec:
  assumes fl: "full_flock fl" and few: "length (seen lm fl boid 0 BOID_COUNT) < BOID_COUNT"
  shows "\<exists>r. total_influence lm fl garbage boid = Inr r \<and> (seen lm fl boid 0 BOID_COUNT = [] \<longrightarrow> r = garbage)"
proof -
  let ?j = "length (seen lm fl boid 0 BOID_COUNT)"
  from view_loop_spec[OF fl, of 0 BOID_COUNT "replicate BOID_COUNT None" 0 lm boid] few obtain vs where
    vs: "view_loop lm fl boid 0 0 BOID_COUNT (replicate BOID_COUNT None) = Inr (?j, vs)"
      "length vs = BOID_COUNT" "views_upto ?j vs" by (auto simp: views_upto_def)
  let ?v = "\<lparr>view_boid = None, dist_to_boid = 0, angle_to_boid = 0\<rparr>"
  have fill: "fill_view_list lm fl boid (replicate BOID_COUNT None) = Inr (vs[?j := Some ?v])"
    using vs few by (simp add: fill_view_list_def put_view_def)
  have "views_upto ?j (vs[?j := Some ?v])" using vs(3) by (simp add: views_upto_def)
  from influence_loop_returns[OF this, of ?v 0 "Suc BOID_COUNT" boid garbage] vs(2) few
  show ?thesis by (auto simp: total_influence_def fill)
qed

text \<open>A boid whose number is an index of the flock never sees itself.\<close>

lemma seen_short:
  assumes "0 \<le> boidID boid" "boidID boid < int BOID_COUNT"
  shows "length (seen lm fl boid 0 BOID_COUNT) < BOID_COUNT"
proof -
  have "nat (boidID boid) \<in> set [0..<0 + BOID_COUNT]" using assms by auto
  from length_filter_less[OF this, of "\<lambda>x. int x \<noteq> boidID boid \<and> in_view lm fl boid x"] assms(1)
  show ?thesis by (simp add: seen_def)
qed

lemma influence_loop_overrun:
  assumes "views_upto (length vs) vs"
  shows "i \<le> length vs \<Longrightarrow> length vs < i + n \<Longrightarrow> influence_loop n boid vs i upd = Inl Out_Of_Bounds"
proof (induction n arbitrary: i upd)
  case (Suc n)
  show ?case
  proof (cases "i < length vs")
    case True
    with assms obtain w where "vs ! i = Some w" "view_boid w \<noteq> None" by (auto simp: views_upto_def)
    with Suc.IH[of "Suc i"] Suc.prems True show ?thesis by (simp add: Let_def)
  qed simp
qed simp

lemma total_influence_overrun:
  assumes fl: "full_flock fl" and all: "length (seen lm fl boid 0 BOID_COUNT) = BOID_COUNT"
  shows "total_influence lm fl garbage boid = Inl Out_Of_Bounds"
proof -
  from view_loop_spec[OF fl, of 0 BOID_COUNT "replicate BOID_COUNT None" 0 lm boid] all obtain vs where
    vs: "view_loop lm fl boid 0 0 BOID_COUNT (replicate BOID_COUNT None) = Inr (BOID_COUNT, vs)"
      "length vs = BOID_COUNT" "views_upto (length vs) vs" by (auto simp: views_upto_def)
  from influence_loop_overrun[OF vs(3), of 0 "Suc BOID_COUNT" boid garbage] vs(1,2) show ?thesis
    by (simp add: total_influence_def fill_view_list_def del: influence_loop.simps)
qed

section \<open>Bounds of the movement\<close>

lemma bound_spec:
  assumes "\<not> double_lt hi lo"
  shows "\<not> double_lt (bound v lo hi) lo \<and> \<not> double_lt hi (bound v lo hi)"
  using assms double_lt_irrefl by (auto simp: bound_def Let_def)

lemma limits_ordered:
  "\<not> double_lt MAX_ACCELERATION (double_neg MAX_ACCELERATION)" "\<not> double_lt MAX_VELOCITY 0"
proof -
  have c: "MAX_ACCELERATION = 0x4014000000000000" "MAX_VELOCITY = 0x3FF0000000000000"
    by (simp_all add: MAX_ACCELERATION_def MAX_VELOCITY_def double_eval)
  show "\<not> double_lt MAX_ACCELERATION (double_neg MAX_ACCELERATION)" "\<not> double_lt MAX_VELOCITY 0"
    unfolding c by (simp_all add: double_eval)
qed

section \<open>Properties\<close>

text \<open>C28: a boid whose number is an index of the flock skips itself when it looks around, so that the
  view list always has room for its terminator and the sum over the visible boids ends inside
  the array, whatever the positions are; a boid with another number that sees the whole flock
  fills the array, and the sum then reads past its end.\<close>

theorem total_influence_bounds:
  assumes "full_flock fl"
  shows "if 0 \<le> boidID boid \<and> boidID boid < int BOID_COUNT then returns (total_influence lm fl garbage boid)
    else (\<forall>i < BOID_COUNT. in_view lm fl boid i) \<longrightarrow> total_influence lm fl garbage boid = Inl Out_Of_Bounds"
proof (cases "0 \<le> boidID boid \<and> boidID boid < int BOID_COUNT")
  case True
  then have "length (seen lm fl boid 0 BOID_COUNT) < BOID_COUNT" by (intro seen_short) auto
  from total_influence_spec[OF assms this] True show ?thesis by (auto simp: returns_iff)
next
  case False
  have "length (seen lm fl boid 0 BOID_COUNT) = BOID_COUNT" if "\<forall>i < BOID_COUNT. in_view lm fl boid i"
  proof -
    have "filter (\<lambda>x. int x \<noteq> boidID boid \<and> in_view lm fl boid x) [0..<0 + BOID_COUNT] = [0..<0 + BOID_COUNT]"
      using False that by (intro filter_True) auto
    then show ?thesis by (simp add: seen_def)
  qed
  with False total_influence_overrun[OF assms] show ?thesis by auto
qed

definition demo_boid :: "int \<Rightarrow> Boid" where
  "demo_boid i = \<lparr>boidID = i, b_size = \<lparr>d_length = 0, d_width = 0\<rparr>, b_pos = \<lparr>p_x = 0, p_y = 0\<rparr>,
     b_vel = \<lparr>v_speed = 0, v_dir = 0\<rparr>, b_acc = \<lparr>a_accel = 0, a_dir = 0\<rparr>\<rparr>"

definition demo_libm :: libm where
  "demo_libm = \<lparr>m_sqrt = (\<lambda>_. 0), m_atan = (\<lambda>_. 0), m_tan = (\<lambda>_. 0)\<rparr>"

definition demo_flock :: flock where
  "demo_flock = replicate BOID_COUNT (Some (demo_boid 0))"

theorem total_influence_bounds_witness:
  "returns (total_influence demo_libm demo_flock \<lparr>a_accel = 0, a_dir = 0\<rparr> (demo_boid 7)) \<and>
   total_influence demo_libm demo_flock \<lparr>a_accel = 0, a_dir = 0\<rparr> (demo_boid 20) = Inl Out_Of_Bounds"
proof -
  have fl: "full_flock demo_flock" by (simp add: full_flock_def demo_flock_def)
  have c: "double_of_int 270 = 0x4070E00000000000" "double_of_int 360 = 0x4076800000000000" "double_of_int 2 = 0x4000000000000000"
    "double_div 0x4070E00000000000 0x4076800000000000 = 0x3FE8000000000000" "BOID_VIEW_DIST = 0x403E000000000000"
    by (simp_all add: BOID_VIEW_DIST_def double_eval)
  have "BOID_VIEW_ARC = 0x4002D97C7F3321CD" unfolding BOID_VIEW_ARC_def c PI_CONSTANT_def by (simp add: double_eval)
  note k = c this
  have "double_lt 0 BOID_VIEW_DIST" "double_lt (double_abs (double_sub 0 0)) (double_div BOID_VIEW_ARC (double_of_int 2))"
    unfolding k by (simp_all add: double_eval)
  then have "in_view demo_libm demo_flock (demo_boid 20) i" if "i < BOID_COUNT" for i
    using that by (auto simp: in_view_def flock_at_def demo_flock_def distance_def angle_def demo_libm_def demo_boid_def)
  with total_influence_bounds[OF fl, of "demo_boid 20" demo_libm "\<lparr>a_accel = 0, a_dir = 0\<rparr>"]
    total_influence_bounds[OF fl, of "demo_boid 7" demo_libm "\<lparr>a_accel = 0, a_dir = 0\<rparr>"]
  show ?thesis by (auto simp: demo_boid_def BOID_COUNT_def)
qed

text \<open>A boid that sees nobody moves by what the uninitialised sum happened to hold.\<close>

lemma total_influence_uninitialised:
  assumes "full_flock fl" "seen lm fl boid 0 BOID_COUNT = []"
  shows "total_influence lm fl garbage boid = Inr garbage"
  using total_influence_spec[OF assms(1), of lm boid garbage] assms(2) by (auto simp: BOID_COUNT_def)

text \<open>C29: after \<open>update_boid\<close> the acceleration and the speed are inside their limits, as far as they
  compare at all, whatever the influence and the time step; and the new \<open>x\<close> is computed from
  the old \<open>y\<close>: the step has the same result whatever the old \<open>x\<close> was.\<close>

theorem update_boid_limits:
  "\<not> double_lt (a_accel (b_acc (update_boid lm infl dt boid))) (double_neg MAX_ACCELERATION) \<and>
   \<not> double_lt MAX_ACCELERATION (a_accel (b_acc (update_boid lm infl dt boid))) \<and>
   \<not> double_lt (v_speed (b_vel (update_boid lm infl dt boid))) 0 \<and>
   \<not> double_lt MAX_VELOCITY (v_speed (b_vel (update_boid lm infl dt boid))) \<and>
   update_boid lm infl dt (boid\<lparr>b_pos := (b_pos boid)\<lparr>p_x := x'\<rparr>\<rparr>) = update_boid lm infl dt boid"
proof -
  have eq: "update_boid lm infl dt (boid\<lparr>b_pos := (b_pos boid)\<lparr>p_x := x'\<rparr>\<rparr>) = update_boid lm infl dt boid"
    by (simp add: update_boid_def Let_def)
  show ?thesis unfolding eq
    using bound_spec[OF limits_ordered(1)] bound_spec[OF limits_ordered(2)]
    by (simp add: update_boid_def Let_def)
qed

text \<open>The second binding of \<open>main\<close> gives the verb \<open>pause\<close> no operation.  Any well-formed command
  for it therefore ends the simulation with a call through a null pointer, after its pre hook
  has run; it does not pause anything.\<close>

theorem boid_pause_command_crashes:
  assumes mem: "9 \<le> mem_left m"
    and obj: "object_at (w_json w) p k M" and live: "members_live (w_json w) M" and cmd: "is_command (w_json w) M"
    and wf: "jheap_wf (w_json w)" and jmem: "2 \<le> jmem (w_json w)"
    and args: "M (cstr ''args'') = Some a" "object_at (w_json w) a ka Ma" "a \<notin> static_ptrs" "ka < 1610612741"
      "Ma (cstr ''seqID'') = None"
    and target: "string_of (w_json w) (M (cstr ''target'')) = Some (cstr ''flock'')"
      "string_of (w_json w) (M (cstr ''command'')) = Some (cstr ''pause'')"
  shows "\<exists>m0 m1. dispatch_table_init m = Inr m0 \<and> boid_bindings m0 = Inr m1 \<and>
    dispatch boid_callbacks p m1 w = Inl Null_Call"
proof -
  from dispatch_table_init_correct[of m] mem obtain m0 where m0: "dispatch_table_init m = Inr m0"
    "mem_left m0 = mem_left m - 1" "table_wf m0 [\<lparr>o_name = [], o_object = 0, o_bindings = []\<rparr>]" by auto
  have "4 \<le> mem_left m0" using m0(2) mem by simp
  from headcrab_bind_object_table[OF m0(3) this, of 1 "cstr ''flock''" "cstr ''getall''" "Some 1" 0 "Some 3" "Some 2" 0]
  obtain ma where ma: "headcrab_bind_object 1 (Some (cstr ''flock'')) (Some (cstr ''getall'')) (Some 1) 0 (Some 3) (Some 2) 0 m0 = Inr ma"
    "table_wf ma (bind_entry 1 (cstr ''flock'') \<lparr>b_verb = cstr ''getall'', b_pre = Some 1, b_preArgs = 0, b_op = Some 3,
       b_post = Some 2, b_postArgs = 0\<rparr> [\<lparr>o_name = [], o_object = 0, o_bindings = []\<rparr>])" "mem_left m0 \<le> mem_left ma + 4" by blast
  have "4 \<le> mem_left ma" using ma(3) m0(2) mem by simp
  from headcrab_bind_object_table[OF ma(2) this, of 0 "cstr ''flock''" "cstr ''pause''" "Some 1" 0 None None 0]
  obtain m1 where m1: "headcrab_bind_object 0 (Some (cstr ''flock'')) (Some (cstr ''pause'')) (Some 1) 0 None None 0 ma = Inr m1"
    "table_wf m1 [\<lparr>o_name = [], o_object = 0, o_bindings = []\<rparr>, \<lparr>o_name = cstr ''flock'', o_object = 1,
       o_bindings = [\<lparr>b_verb = cstr ''getall'', b_pre = Some 1, b_preArgs = 0, b_op = Some 3, b_post = Some 2, b_postArgs = 0\<rparr>,
         \<lparr>b_verb = cstr ''pause'', b_pre = Some 1, b_preArgs = 0, b_op = None, b_post = None, b_postArgs = 0\<rparr>]\<rparr>]"
    by auto
  have "boid_bindings m0 = Inr m1" unfolding boid_bindings_def ma(1) obind_Inr m1(1) ..
  moreover from dispatch_command[OF obj live cmd wf jmem args, of boid_callbacks m1] target obtain h where
    "dispatch boid_callbacks p m1 w =
      obind (dispatch_table_execute boid_callbacks (cstr ''flock'') (cstr ''pause'') a m1 (w\<lparr>w_json := h\<rparr>)) (on_json (json_decref p))"
    by (auto simp del: cstr_Cons)
  then have "dispatch boid_callbacks p m1 w = Inl Null_Call"
    unfolding dtab.exec_law[OF m1(2)] by (simp add: call_hook_def boid_callbacks_def)
  ultimately show ?thesis using m0(1) by blast
qed


definition boid_heap :: "jptr hashtable_t \<Rightarrow> jptr hashtable_t \<Rightarrow> jheap" where
  "boid_heap ht at = (let h = message_heap ht at (cstr ''command'') in
     h\<lparr>cells := (cells h)(6 \<mapsto> \<lparr>refcount = 1, body = String (cstr ''flock'')\<rparr>,
       7 \<mapsto> \<lparr>refcount = 1, body = String (cstr ''pause'')\<rparr>)\<rparr>)"

definition boid_world :: "jheap \<Rightarrow> boid_app hc_world" where
  "boid_world h = \<lparr>w_json = h, w_queues = mqueues_init, w_broadcasts = 0,
     w_app = \<lparr>boid_list = [], app_running = True, shutdownServer = False\<rparr>\<rparr>"

theorem boid_pause_command_crashes_witness:
  "\<exists>ht at m0 m1. dispatch_table_init (demo_mem\<lparr>mem_left := 9\<rparr>) = Inr m0 \<and> boid_bindings m0 = Inr m1 \<and>
     dispatch boid_callbacks 4 m1 (boid_world (boid_heap ht at)) = Inl Null_Call"
proof -
  from message_heap_exists obtain ht at where
    m: "object_at (message_heap ht at (cstr ''command'')) 4 5 (map_of message_members)"
      "object_at (message_heap ht at (cstr ''command'')) 9 0 Map.empty" "jheap_wf (message_heap ht at (cstr ''command''))"
      "members_live (message_heap ht at (cstr ''command'')) (map_of message_members)" by blast
  let ?h = "message_heap ht at (cstr ''command'')"
  let ?w = "boid_world (boid_heap ht at)"
  have cells: "cells (boid_heap ht at) p = (if p = 6 then Some \<lparr>refcount = 1, body = String (cstr ''flock'')\<rparr>
      else if p = 7 then Some \<lparr>refcount = 1, body = String (cstr ''pause'')\<rparr> else cells ?h p)" for p
    by (simp add: boid_heap_def Let_def)
  have w: "w_json ?w = boid_heap ht at" by (simp add: boid_world_def)
  have hn: "jnext (boid_heap ht at) = 10" "jmem (boid_heap ht at) = 9" by (simp_all add: boid_heap_def message_heap_def Let_def)
  have "9 \<le> mem_left (demo_mem\<lparr>mem_left := 9\<rparr>)" by simp
  moreover have "object_at (w_json ?w) 4 5 (map_of message_members)" "object_at (w_json ?w) 9 0 Map.empty"
    using m(1,2) unfolding w by (subst object_at_cong[of _ _ ?h], simp_all add: cells)+
  moreover have "members_live (w_json ?w) (map_of message_members)"
    using m(4) unfolding w members_live_def cells by auto
  moreover have "is_command (w_json ?w) (map_of message_members)"
    unfolding w by (simp add: is_command_def string_of_def is_integer_def cells message_heap_def message_members_def)
  moreover have "jheap_wf (w_json ?w)"
    using m(3) unfolding w jheap_wf_def hn cells by (auto simp: message_heap_def split: if_splits)
  moreover have "2 \<le> jmem (w_json ?w)" "map_of message_members (cstr ''args'') = Some 9"
    "9 \<notin> static_ptrs" "0 < (1610612741 :: nat)" "Map.empty (cstr ''seqID'') = None"
    "string_of (w_json ?w) (map_of message_members (cstr ''target'')) = Some (cstr ''flock'')"
    "string_of (w_json ?w) (map_of message_members (cstr ''command'')) = Some (cstr ''pause'')"
    by (simp_all add: w hn message_members_def static_ptrs_def string_of_def cells)
  ultimately show ?thesis
    using boid_pause_command_crashes[of "demo_mem\<lparr>mem_left := 9\<rparr>" ?w 4 5 "map_of message_members" 9 0 Map.empty] by blast
qed

end
