(* ===== verification/Scientist.thy ===== *)
theory Scientist
  imports Server
begin

text \<open>
  \<open>examples/u_s/unnamed_scientist.c\<close>: one double that the page adds to and reads.  The printing is
  left out; \<open>accum\<close> is the only target that is bound, as the opaque pointer 1.
\<close>

section \<open>The callbacks\<close>

record scientist =
  accum :: double
  shouldShutdown :: bool

text \<open>\<open>incval\<close> of a null argument is null; the target is written through without a check.\<close>

definition opAccum :: "opaque \<Rightarrow> jptr \<Rightarrow> scientist hc_world \<Rightarrow> scientist hc_world outcome" where
  "opAccum target args w =
     obind (json_object_get (w_json w) args (cstr ''incval'')) (\<lambda>incval.
     obind (json_is JSON_INTEGER (w_json w) incval) (\<lambda>i.
     obind (json_is JSON_REAL (w_json w) incval) (\<lambda>r.
     if incval = 0 \<or> \<not> (i \<or> r) then Inr w
     else obind (json_number_value (w_json w) incval) (\<lambda>x.
       if target = 0 then Inl Null_Deref
       else Inr (w\<lparr>w_app := (w_app w)\<lparr>accum := double_add (accum (w_app w)) x\<rparr>\<rparr>)))))"

definition opShutdown :: "scientist hc_world \<Rightarrow> scientist hc_world" where
  "opShutdown w = w\<lparr>w_app := (w_app w)\<lparr>shouldShutdown := True\<rparr>\<rparr>"

definition opGet :: "scientist hc_world \<Rightarrow> scientist hc_world outcome" where
  "opGet w =
     obind (json_object (w_json w)) (\<lambda>(msg, h).
     obind (json_real (accum (w_app w)) h) (\<lambda>(value, h).
     obind (json_object_set_new msg (Some (cstr ''newval'')) value h) (\<lambda>(_, h).
     obind (headcrab_post_message (- 1) msg (w\<lparr>w_json := h\<rparr>)) (\<lambda>w.
     on_json (json_decref msg) w))))"

text \<open>The function pointers: 1 \<open>preHook\<close> and \<open>postHook\<close>, which print, 2 \<open>opShutdown\<close>, 3 \<open>opAccum\<close>,
  4 \<open>opGet\<close>.  The print of \<open>postHook\<close> reads its argument.\<close>

definition scientist_callbacks :: "(jptr, scientist hc_world) callbacks" where
  "scientist_callbacks =
     \<lparr>run_pre = (\<lambda>f a w. Inr w),
      run_op = (\<lambda>f t a w. if f = 2 then Inr (opShutdown w) else if f = 3 then opAccum t a w else if f = 4 then opGet w else Inr w),
      run_post = (\<lambda>f a w. if a = 0 then Inl Null_Deref else Inr w)\<rparr>"

definition scientist_bindings :: "dmem \<Rightarrow> dmem outcome" where
  "scientist_bindings m =
     obind (headcrab_bind_object 0 (Some []) (Some (cstr ''shutdown'')) None 0 (Some 2) None 0 m) (\<lambda>m.
     obind (headcrab_bind_object 1 (Some (cstr ''accum'')) (Some (cstr ''add'')) (Some 1) 0 (Some 3) (Some 1) 1 m) (\<lambda>m.
     headcrab_bind_object 1 (Some (cstr ''accum'')) (Some (cstr ''read'')) None 0 (Some 4) None 0 m))"

text \<open>The loop of \<open>main\<close>; between its rounds the server thread runs.\<close>

fun scientist_loop :: "nat \<Rightarrow> (scientist hc_world \<Rightarrow> scientist hc_world) list \<Rightarrow> dmem \<Rightarrow> scientist hc_world \<Rightarrow>
    scientist hc_world outcome" where
  "scientist_loop n [] m w = Inr w"
| "scientist_loop n (serve # rounds) m w =
     (if shouldShutdown (w_app w) then Inr w
      else obind (headcrab_handle_commands n scientist_callbacks m w) (\<lambda>w. scientist_loop n rounds m (serve w)))"

section \<open>Reading the value\<close>

lemma key_utf8: "utf8_check_string (cstr ''newval'') (- 1) = Inr True"
  by code_simp

text \<open>A new member of one cell.\<close>

lemma member_put_leaf:
  assumes built: "object_built h p k M own T" and gr: "grown h0 h (insert p (\<Union>(range own)))" and wf0: "jheap_wf h0" and st0: "statics h0"
    and leaf: "body_type b \<in> {JSON_STRING, JSON_INTEGER, JSON_REAL}"
      "\<And>h q. cells h q = Some \<lparr>refcount = 1, body = b\<rparr> \<Longrightarrow> q \<noteq> 0 \<Longrightarrow> tree_at h q t"
    and mem: "3 \<le> jmem h" and k: "k < 1610612741"
  defines "h1 \<equiv> snd (json_init b (h\<lparr>jmem := jmem h - 1\<rparr>))"
  shows "\<exists>h2 k'. json_object_set_new_nocheck p (Some key) (jnext h) h1 = Inr (0, h2) \<and>
    object_built h2 p k' (M(key \<mapsto> jnext h)) (own(key := {jnext h})) (T(key \<mapsto> t)) \<and> k' \<le> Suc k \<and>
    grown h0 h2 (insert p (\<Union>(range (own(key := {jnext h}))))) \<and> jmem h \<le> jmem h2 + 3"
proof -
  note wf = grown_wf[OF gr] and st = grown_static(2)[OF gr st0 wf0]
  have pos: "0 < jnext h" using statics_used[OF st wf, of json_true] by (simp add: static_ptrs_def json_true_def)
  have h1: "cells h1 = (cells h)(jnext h \<mapsto> \<lparr>refcount = 1, body = b\<rparr>)" "jnext h1 = Suc (jnext h)" "jmem h1 = jmem h - 1"
    by (simp_all add: h1_def json_init_def)
  note v = new_leaf[OF wf pos st leaf(1) h1(1,2)]
  have tr: "tree_at h1 (jnext h) t" using h1(1) pos by (intro leaf(2)) simp_all
  note sv = object_built_survives[OF built v(2) st wf]
  have st1: "statics h1" by (rule grown_static(2)[OF v(2) st wf])
  have d: "p \<notin> {jnext h}" "\<Union>(range own) \<inter> {jnext h} = {}" using sv(2) by auto
  have m: "2 \<le> jmem h1" using mem h1(3) by simp
  from object_put_spec[OF sv(1) v(1) tr d st1 grown_wf[OF v(2)] m k, of key] obtain h2 k' where
    2: "json_object_set_new_nocheck p (Some key) (jnext h) h1 = Inr (0, h2)"
      "object_built h2 p k' (M(key \<mapsto> jnext h)) (own(key := {jnext h})) (T(key \<mapsto> t))" "k' \<le> Suc k"
      "changes_and_frees p (own key) h1 h2" "jmem h1 \<le> jmem h2 + 2" by blast
  have g1: "grown h0 h1 (insert p (\<Union>(range own)) \<union> {jnext h})" by (rule grown_trans[OF gr v(2)])
  have "cells h1 p \<noteq> None" using owns_cells[OF object_built_owns(1)[OF sv(1)]] by simp
  moreover from built have o: "p \<notin> own key" "\<And>a. a \<noteq> key \<Longrightarrow> own a \<inter> own key = {}" by (auto simp: object_built_def)
  ultimately have "grown h0 h2 ((insert p (\<Union>(range own)) \<union> {jnext h}) - own key)"
    by (intro changes_and_frees_grown[OF g1 2(4) _ _ _ _ wf0]) auto
  moreover have "(insert p (\<Union>(range own)) \<union> {jnext h}) - own key = insert p (\<Union>(range (own(key := {jnext h}))))"
    using o d by (auto split: if_splits) metis+
  ultimately show ?thesis using 2 h1(3) by auto
qed


lemma post_put:
  assumes built: "object_built (w_json w) p k M own T" and gr: "grown hb (w_json w) (insert p (\<Union>(range own)))"
    and wf0: "jheap_wf hb" and st0: "statics hb" and mem: "3 \<le> jmem (w_json w)" and k: "k < 1610612741" and inv: "mqueues_inv (w_queues w)"
  shows "\<exists>w' S. headcrab_post_message seqID p w = Inr w' \<and> owns (w_json w') p S \<and> p \<in> S \<and> grown hb (w_json w') S \<and>
    tree_at (w_json w') p (TObject (T(cstr ''seqID'' \<mapsto> TInteger (word_of_int (sint seqID))))) \<and>
    mqueues_inv (w_queues w') \<and> in_msgs (w_queues w') = in_msgs (w_queues w) \<and>
    out_msgs (w_queues w') = (if length (out_msgs (w_queues w)) < MQ_LEN then out_msgs (w_queues w) @ [Some p]
      else out_msgs (w_queues w)) \<and> w_app w' = w_app w"
proof -
  let ?h = "w_json w" let ?b = "Integer (word_of_int (sint seqID))"
  let ?h1 = "snd (json_init ?b (?h\<lparr>jmem := jmem ?h - 1\<rparr>))"
  have int: "json_integer (word_of_int (sint seqID)) ?h = Inr (jnext ?h, ?h1)"
    using mem by (simp add: json_integer_def json_malloc_def json_init_def)
  have leaf: "body_type ?b \<in> {JSON_STRING, JSON_INTEGER, JSON_REAL}"
    "\<And>h q. cells h q = Some \<lparr>refcount = 1, body = ?b\<rparr> \<Longrightarrow> q \<noteq> 0 \<Longrightarrow> tree_at h q (TInteger (word_of_int (sint seqID)))"
    by (auto intro: tree_integer)
  from member_put_leaf[OF built gr wf0 st0 leaf mem k, of "cstr ''seqID''"] obtain h2 k' where
    h2: "json_object_set_new_nocheck p (Some (cstr ''seqID'')) (jnext ?h) ?h1 = Inr (0, h2)"
      "object_built h2 p k' (M(cstr ''seqID'' \<mapsto> jnext ?h)) (own(cstr ''seqID'' := {jnext ?h})) (T(cstr ''seqID'' \<mapsto> TInteger (word_of_int (sint seqID))))"
      "grown hb h2 (insert p (\<Union>(range (own(cstr ''seqID'' := {jnext ?h})))))" by blast
  note ow = object_built_owns[OF h2(2)]
  from mq_push_out[OF inv, of "Some p"] obtain q where q: "mq_push MQ_OUT (Some p) (w_queues w) = Inr q"
    "mqueues_inv q" "in_msgs q = in_msgs (w_queues w)"
    "out_msgs q = (if length (out_msgs (w_queues w)) < MQ_LEN then out_msgs (w_queues w) @ [Some p]
      else out_msgs (w_queues w))" by blast
  have "json_object_set_new p (Some (cstr ''seqID'')) (jnext ?h) ?h1 = Inr (0, h2)"
    using h2(1) seqID_utf8 by (simp add: json_object_set_new_def del: cstr_Cons)
  then have run: "headcrab_post_message seqID p w = Inr (w\<lparr>w_json := h2, w_queues := q, w_broadcasts := Suc (w_broadcasts w)\<rparr>)"
    using int q(1) ow(3) by (simp add: headcrab_post_message_def ptr_msg_def del: cstr_Cons)
  show ?thesis
    by (rule exI[of _ "w\<lparr>w_json := h2, w_queues := q, w_broadcasts := Suc (w_broadcasts w)\<rparr>"],
        rule exI[of _ "insert p (\<Union>(range (own(cstr ''seqID'' := {jnext ?h}))))"])
      (use run ow(1,2) h2(3) q(2-4) in \<open>simp del: cstr_Cons\<close>)
qed

text \<open>The members of the answer before it is posted: the value, unless it is not finite.\<close>

lemma answer_built:
  assumes wf: "jheap_wf h0" and st: "statics h0" and mem: "8 \<le> jmem h0"
  shows "\<exists>h1 value h2 r h3 k M own T. json_object h0 = Inr (jnext h0, h1) \<and> json_real x h1 = Inr (value, h2) \<and>
    json_object_set_new (jnext h0) (Some (cstr ''newval'')) value h2 = Inr (r, h3) \<and>
    object_built h3 (jnext h0) k M own T \<and> k \<le> Suc 0 \<and> 3 \<le> jmem h3 \<and>
    grown h0 h3 (insert (jnext h0) (\<Union>(range own)))"
proof -
  have "2 \<le> jmem h0" using mem by simp
  from new_object[OF wf st this] obtain h1 where 1: "json_object h0 = Inr (jnext h0, h1)"
    "object_built h1 (jnext h0) 0 Map.empty (\<lambda>_. {}) Map.empty" "grown h0 h1 {jnext h0}" "jmem h1 = jmem h0 - 2" by blast
  then have g: "grown h0 h1 (insert (jnext h0) (\<Union>(range (\<lambda>_ :: byte list. {}))))" by simp
  show ?thesis
  proof (cases "isnan x \<or> isinf x")
    case True
    then have "json_real x h1 = Inr (0, h1)" "json_object_set_new (jnext h0) (Some (cstr ''newval'')) 0 h1 = Inr (-1, h1)"
      using key_utf8 by (simp_all add: json_real_def json_object_set_new_def json_object_set_new_nocheck_def del: cstr_Cons)
    with 1 g mem show ?thesis
      by (intro exI[of _ h1] exI[of _ 0] exI[of _ "-1"] exI[of _ "\<lambda>_. {}"] exI[of _ Map.empty]) simp
  next
    case False
    let ?h2 = "snd (json_init (Real x) (h1\<lparr>jmem := jmem h1 - 1\<rparr>))"
    have m: "3 \<le> jmem h1" using 1(4) mem by simp
    have real: "json_real x h1 = Inr (jnext h1, ?h2)"
      using False m by (simp add: json_real_def json_malloc_def json_init_def)
    have leaf: "body_type (Real x) \<in> {JSON_STRING, JSON_INTEGER, JSON_REAL}"
      "\<And>h q. cells h q = Some \<lparr>refcount = 1, body = Real x\<rparr> \<Longrightarrow> q \<noteq> 0 \<Longrightarrow> tree_at h q (TReal x)"
      by (auto intro: tree_real)
    have "(0 :: nat) < 1610612741" by simp
    from member_put_leaf[OF 1(2) g wf st leaf m this, of "cstr ''newval''"] obtain h3 k' where
      3: "json_object_set_new_nocheck (jnext h0) (Some (cstr ''newval'')) (jnext h1) ?h2 = Inr (0, h3)"
        "object_built h3 (jnext h0) k' (Map.empty(cstr ''newval'' \<mapsto> jnext h1)) ((\<lambda>_. {})(cstr ''newval'' := {jnext h1})) [cstr ''newval'' \<mapsto> TReal x]"
        "k' \<le> Suc 0" "grown h0 h3 (insert (jnext h0) (\<Union>(range ((\<lambda>_. {})(cstr ''newval'' := {jnext h1})))))" "jmem h1 \<le> jmem h3 + 3"
      by blast
    have "json_object_set_new (jnext h0) (Some (cstr ''newval'')) (jnext h1) ?h2 = Inr (0, h3)"
      using 3(1) key_utf8 by (simp add: json_object_set_new_def del: cstr_Cons)
    moreover have "3 \<le> jmem h3" using 3(5) 1(4) mem by simp
    ultimately show ?thesis using 1(1) real 3(2-4) by blast
  qed
qed

text \<open>A pointer to a freed value is neither dropped nor printed.\<close>

lemma dangling_decref: "cells h p = None \<Longrightarrow> p \<noteq> 0 \<Longrightarrow> json_decref p h = Inl Use_After_Free"
  by (simp add: json_decref_def get_cell_def)

lemma dangling_dump:
  assumes "cells h p = None" "p \<noteq> 0"
  shows "json_dumps ok p JSON_COMPACT h = Inl Use_After_Free \<or> json_dumps ok p JSON_COMPACT h = Inr (None, h)"
proof -
  let ?sb = "\<lparr>sb_value = None, sb_length = 0, sb_size = 0\<rparr>"
  have "\<exists>r sb. strbuffer_init ok ?sb = Inr (r, sb)"
    by (simp add: strbuffer_init_def jsonp_malloc_def STRBUFFER_MIN_SIZE_def store_byte_def)
  then obtain r sb where sb: "strbuffer_init ok ?sb = Inr (r, sb)" by blast
  have js: "json_is t h p = Inl Use_After_Free" for t using assms by (simp add: json_is_def get_cell_def)
  have "do_dump (Suc (jnext h)) JSON_COMPACT 0 (dump_to_strbuffer ok) p sb h = Inl Use_After_Free"
    using assms by (simp add: get_cell_def)
  with sb js show ?thesis by (simp add: json_dumps_def json_dump_callback_def)
qed

section \<open>Properties\<close>

text \<open>C38: the answer of \<open>read\<close> is freed before it is sent.  \<open>headcrab_post_message\<close> passes the reference
  on to the out-queue, but \<open>opGet\<close> drops it: the callback returns with the pointer of a freed
  object in the queue, and when it is the server's turn to send it, it reads freed memory.\<close>

theorem scientist_read_sends_freed:
  assumes "jheap_wf (w_json w)" "statics (w_json w)" "8 \<le> jmem (w_json w)" "mqueues_inv (w_queues w)" "out_msgs (w_queues w) = []"
  shows "\<exists>w' p. opGet w = Inr w' \<and> out_msgs (w_queues w') = [Some p] \<and> p \<noteq> 0 \<and> cells (w_json w') p = None \<and>
    grown (w_json w) (w_json w') {} \<and> w_app w' = w_app w \<and>
    (\<forall>ok send sv. callback_command ok send LWS_CALLBACK_SERVER_WRITEABLE input len (sv\<lparr>sv_world := w'\<rparr>) = Inl Use_After_Free)"
proof -
  let ?p = "jnext (w_json w)"
  from answer_built[OF assms(1-3), of "accum (w_app w)"] obtain h1 v h2 r h3 k M own T where
    a: "json_object (w_json w) = Inr (?p, h1)" "json_real (accum (w_app w)) h1 = Inr (v, h2)"
      "json_object_set_new ?p (Some (cstr ''newval'')) v h2 = Inr (r, h3)" "object_built h3 ?p k M own T" "k \<le> Suc 0" "3 \<le> jmem h3"
      "grown (w_json w) h3 (insert ?p (\<Union>(range own)))" by blast
  have "k < 1610612741" using a(5) by simp
  from post_put[where w = "w\<lparr>w_json := h3\<rparr>" and p = ?p and k = k and M = M and own = own and T = T and hb = "w_json w" and seqID = "-1"] a(4,6,7) this assms obtain w1 S where
    p: "headcrab_post_message (-1) ?p (w\<lparr>w_json := h3\<rparr>) = Inr w1" "owns (w_json w1) ?p S" "?p \<in> S" "grown (w_json w) (w_json w1) S"
      "mqueues_inv (w_queues w1)" "out_msgs (w_queues w1) = [Some ?p]" "w_app w1 = w_app w"
    by (auto simp: MQ_LEN_def simp del: cstr_Cons)
  note d = drop_grown[OF p(4,2) assms(1)]
  let ?w = "w1\<lparr>w_json := drop_cells S (w_json w1)\<rparr>"
  have run: "opGet w = Inr ?w" using a(1-3) p(1) d(1) by (simp add: opGet_def on_json_def del: cstr_Cons)
  have freed: "cells (w_json ?w) ?p = None" using p(3) by simp
  have p0: "?p \<noteq> 0" using p(2) by (rule owned_count)
  from mq_pop_out[of "w_queues ?w"] p(5,6) obtain q where q: "mq_pop MQ_OUT (w_queues ?w) = Inr (Some ?p, q)" by auto
  have "callback_command ok send LWS_CALLBACK_SERVER_WRITEABLE input len (sv\<lparr>sv_world := ?w\<rparr>) = Inl Use_After_Free" for ok send sv
    using dangling_dump[of "w_json ?w" ?p ok] dangling_decref[of "w_json ?w" ?p] freed p0 q
    by (auto simp: callback_command_def write_message_def msg_ptr_def)
  with run p freed p0 d(2) show ?thesis by (intro exI[of _ ?w] exI[of _ ?p]) simp
qed


definition scientist_world :: "double \<Rightarrow> scientist hc_world" where
  "scientist_world x = \<lparr>w_json = jheap_init 100, w_queues = mqueues_init, w_broadcasts = 0,
     w_app = \<lparr>accum = x, shouldShutdown = False\<rparr>\<rparr>"

theorem scientist_read_sends_freed_witness:
  "\<exists>w' p. opGet (scientist_world (double_of_int 2)) = Inr w' \<and> out_msgs (w_queues w') = [Some p] \<and> cells (w_json w') p = None \<and>
    callback_command (\<lambda>_. True) (\<lambda>_. 0) LWS_CALLBACK_SERVER_WRITEABLE None 0 ((server_init w')\<lparr>sv_world := w'\<rparr>) = Inl Use_After_Free"
proof -
  let ?w = "scientist_world (double_of_int 2)"
  have "w_json ?w = jheap_init 100" "w_queues ?w = mqueues_init" "jmem (jheap_init 100) = 100" "mqueues_inv (w_queues ?w)"
    by (simp_all add: scientist_world_def jheap_init_def mqueues_inv_init)
  with scientist_read_sends_freed[of ?w None 0] jheap_init_ok[of 100] show ?thesis by auto
qed

end
