(* ===== verification/Base64.thy ===== *)
theory Base64
  imports C_Base
begin

unbundle bit_operations_syntax

text \<open>
  \<open>lib/libwebsockets/lib/base64-decode.c\<close>: the encoder, which the handshake of the server uses,
  and the decoder.  \<open>in\<close> with its length is a list; a C string is the list of its bytes, read up
  to the first NUL.  \<open>out\<close> is the block that the caller passes, and every store is checked against
  its end; \<open>out_size\<close> is what the caller says of it.
\<close>

section \<open>Translation tables\<close>

definition b64_encode :: "byte list" where
  "b64_encode = cstr ''ABCDEFGHIJKLMNOPQRSTUVWXYZabcdefghijklmnopqrstuvwxyz0123456789+/''"

definition b64_decode :: "byte list" where
  "b64_decode = cstr ''|$$$}rstuvwxyz{$$$$$$$>?@ABCDEFGHIJKLMNOPQRSTUVW$$$$$$XYZ['' @ [92] @ cstr '']^_`abcdefghijklmnopq''"

definition put_byte :: "byte list \<Rightarrow> nat \<Rightarrow> byte \<Rightarrow> byte list outcome" where
  "put_byte out i b = (if i < length out then Inr (out[i := b]) else Inl Out_Of_Bounds)"

section \<open>Encoding\<close>

text \<open>One round: \<open>triple\<close> is filled up with zeros, \<open>len\<close> counts the bytes that were there.\<close>

definition encode_quad :: "byte list \<Rightarrow> byte list" where
  "encode_quad triple =
     (let len = length triple; a = triple ! 0;
          b = if 1 < len then triple ! 1 else 0; c = if 2 < len then triple ! 2 else 0 in
      [b64_encode ! unat (drop_bit 2 a),
       b64_encode ! unat (push_bit 4 (a AND 0x03) OR drop_bit 4 (b AND 0xf0)),
       if 1 < len then b64_encode ! unat (push_bit 2 (b AND 0x0f) OR drop_bit 6 (c AND 0xc0)) else 61,
       if 2 < len then b64_encode ! unat (c AND 0x3f) else 61])"

fun put_bytes :: "byte list \<Rightarrow> nat \<Rightarrow> byte list \<Rightarrow> byte list outcome" where
  "put_bytes out i [] = Inr out"
| "put_bytes out i (b # bs) = obind (put_byte out i b) (\<lambda>out. put_bytes out (Suc i) bs)"

function b64_encode_loop :: "byte list \<Rightarrow> int \<Rightarrow> nat \<Rightarrow> byte list \<Rightarrow> (int \<times> byte list) outcome" where
  "b64_encode_loop input out_size n out =
     (if input = []
      then if int n + 1 \<ge> out_size then Inr (-1, out)
        else obind (put_byte out n 0) (\<lambda>out. Inr (int n, out))
      else if int n + 4 \<ge> out_size then Inr (-1, out)
      else obind (put_bytes out n (encode_quad (take 3 input))) (b64_encode_loop (drop 3 input) out_size (n + 4)))"
  by pat_completeness auto
termination by (relation "measure (\<lambda>(input, _). length input)") auto

declare b64_encode_loop.simps [simp del]

definition lws_b64_encode_string :: "byte list \<Rightarrow> byte list \<Rightarrow> int \<Rightarrow> (int \<times> byte list) outcome" where
  "lws_b64_encode_string input out out_size = b64_encode_loop input out_size 0 out"

section \<open>Decoding\<close>

definition more_input :: "byte list \<Rightarrow> bool" where
  "more_input s \<longleftrightarrow> s \<noteq> [] \<and> hd s \<noteq> 0"

text \<open>The value of a character plus one, or zero.\<close>

definition decode_char :: "byte \<Rightarrow> byte" where
  "decode_char c =
     (let v = if c < 43 \<or> c > 122 then 0 else b64_decode ! (unat c - 43)
      in if v \<noteq> 0 then (if v = 36 then 0 else v - 61) else v)"

text \<open>The inner loop, which reads until it has a value.  A character that is the last of the string
  is not counted, and 0 is put in its place.\<close>

fun decode_value :: "byte list \<Rightarrow> byte \<Rightarrow> nat \<Rightarrow> nat \<Rightarrow> byte list \<Rightarrow> byte list \<times> nat \<times> byte list" where
  "decode_value [] v i len quad = ([], len, quad)"
| "decode_value (c # s) v i len quad =
     (if c = 0 \<or> v \<noteq> 0 then (c # s, len, quad)
      else let v = decode_char c in
        if more_input s then decode_value s v i (Suc len) (if v \<noteq> 0 then quad[i := v - 1] else quad)
        else decode_value s v i len (quad[i := 0]))"

fun decode_quad :: "nat \<Rightarrow> nat \<Rightarrow> byte list \<Rightarrow> nat \<Rightarrow> byte list \<Rightarrow> byte list \<times> nat \<times> byte list" where
  "decode_quad 0 i s len quad = (s, len, quad)"
| "decode_quad (Suc k) i s len quad =
     (if \<not> more_input s then (s, len, quad)
      else let (s, len, quad) = decode_value s 0 i len quad in decode_quad k (Suc i) s len quad)"

definition decoded_bytes :: "nat \<Rightarrow> byte list \<Rightarrow> byte list" where
  "decoded_bytes len quad =
     (if 2 \<le> len then [push_bit 2 (quad ! 0) OR drop_bit 4 (quad ! 1)] else []) @
     (if 3 \<le> len then [push_bit 4 (quad ! 1) OR drop_bit 2 (quad ! 2)] else []) @
     (if 4 \<le> len then [(push_bit 6 (quad ! 2) AND 0xc0) OR quad ! 3] else [])"

text \<open>\<open>i\<close> is where \<open>out\<close> points, which need not be \<open>done\<close>; \<open>n\<close> is fuel, a round taking at least a
  character.\<close>

fun b64_decode_loop :: "nat \<Rightarrow> byte list \<Rightarrow> byte list \<Rightarrow> int \<Rightarrow> int \<Rightarrow> nat \<Rightarrow> byte list \<Rightarrow> (int \<times> byte list) outcome" where
  "b64_decode_loop 0 s quad out_size d i out = Inl Diverges"
| "b64_decode_loop (Suc n) s quad out_size d i out =
     (if \<not> more_input s
      then if d + 1 \<ge> out_size then Inr (-1, out) else obind (put_byte out i 0) (\<lambda>out. Inr (d, out))
      else let (s, len, quad) = decode_quad 4 0 s 0 quad in
        if len = 0 then b64_decode_loop n s quad out_size d i out
        else if out_size < d + int len - 1 then Inr (-1, out)
        else obind (put_bytes out i (decoded_bytes len quad)) (\<lambda>out.
          b64_decode_loop n s quad out_size (d + int len - 1) (i + length (decoded_bytes len quad)) out))"

text \<open>\<open>quad\<close> is not initialised.\<close>

definition lws_b64_decode_string :: "byte list \<Rightarrow> byte list \<Rightarrow> byte list \<Rightarrow> int \<Rightarrow> (int \<times> byte list) outcome" where
  "lws_b64_decode_string quad s out out_size = b64_decode_loop (Suc (length s)) s quad out_size 0 0 out"

definition lws_b64_selftest :: "byte list \<Rightarrow> byte list \<Rightarrow> int outcome" where
  "lws_b64_selftest quad buf =
     (let plaintext = cstr ''sanity check base 64''; coded = cstr ''c2FuaXR5IGNoZWNrIGJhc2UgNjQ='' in
      obind (lws_b64_encode_string plaintext (buf[63 := 0]) 64) (\<lambda>(n, buf).
      if n \<noteq> int (length coded) \<or> takeWhile (\<lambda>b. b \<noteq> 0) buf \<noteq> coded then Inr (-1)
      else obind (lws_b64_decode_string quad coded (buf[63 := 0]) 64) (\<lambda>(n, buf).
        if n \<noteq> int (length plaintext) \<or> takeWhile (\<lambda>b. b \<noteq> 0) buf \<noteq> plaintext then Inr (-1) else Inr 0)))"

section \<open>What the encoder writes\<close>

fun b64_text :: "byte list \<Rightarrow> byte list" where
  "b64_text [] = []"
| "b64_text [a] = encode_quad [a]"
| "b64_text [a, b] = encode_quad [a, b]"
| "b64_text (a # b # c # s) = encode_quad [a, b, c] @ b64_text s"

lemma length_encode_quad [simp]: "length (encode_quad t) = 4"
  by (simp add: encode_quad_def Let_def)

lemma put_bytes_spec:
  "i + length bs \<le> length out \<Longrightarrow> put_bytes out i bs = Inr (take i out @ bs @ drop (i + length bs) out)"
proof (induction bs arbitrary: i out)
  case (Cons b bs)
  have "take (Suc i) (out[i := b]) = take i out @ [b]" using Cons.prems by (simp add: take_Suc_conv_app_nth)
  moreover have "drop (Suc i + length bs) (out[i := b]) = drop (i + length (b # bs)) out" by simp
  ultimately show ?case using Cons.prems Cons.IH[of "Suc i" "out[i := b]"] by (simp add: put_byte_def)
qed simp

lemma length_b64_text: "length (b64_text s) = 4 * ((length s + 2) div 3)"
  by (induction s rule: b64_text.induct) (simp_all, presburger)

lemma b64_text_drop: "s \<noteq> [] \<Longrightarrow> b64_text s = encode_quad (take 3 s) @ b64_text (drop 3 s)"
  by (cases s rule: b64_text.cases) simp_all

lemma b64_encode_loop_spec:
  assumes "nat out_size \<le> length out" "n \<le> length out"
  shows "\<exists>out'. b64_encode_loop s out_size n out =
      Inr (if int n + int (length (b64_text s)) + 1 < out_size then int n + int (length (b64_text s)) else - 1, out') \<and>
    length out' = length out \<and>
    (int n + int (length (b64_text s)) + 1 < out_size \<longrightarrow>
      out' = take n out @ b64_text s @ [0] @ drop (n + length (b64_text s) + 1) out)"
  using assms
proof (induction s out_size n out rule: b64_encode_loop.induct)
  case (1 s out_size n out)
  show ?case
  proof (cases "s = []")
    case True
    then show ?thesis using 1(2,3)
      by (auto simp: b64_encode_loop.simps put_byte_def upd_conv_take_nth_drop)
  next
    case False
    let ?q = "encode_quad (take 3 s)"
    have tx: "b64_text s = ?q @ b64_text (drop 3 s)" by (rule b64_text_drop[OF False])
    show ?thesis
    proof (cases "int n + 4 \<ge> out_size")
      case True
      then show ?thesis using False tx by (subst b64_encode_loop.simps) (simp add: del: b64_text.simps)
    next
      case room: False
      let ?out = "take n out @ ?q @ drop (n + 4) out"
      have n: "n + 4 \<le> length out" using room 1(2) by linarith
      then have put: "put_bytes out n ?q = Inr ?out" by (simp add: put_bytes_spec)
      have len: "length ?out = length out" "take (n + 4) ?out = take n out @ ?q" "\<And>k. drop (n + 4 + k) ?out = drop (n + 4 + k) out"
        using n by (simp_all add: add.commute add.left_commute)
      have run: "b64_encode_loop s out_size n out = b64_encode_loop (drop 3 s) out_size (n + 4) ?out"
        using False room put by (subst b64_encode_loop.simps) simp
      have "nat out_size \<le> length ?out" "n + 4 \<le> length ?out" using 1(2) n len(1) by simp_all
      from 1(1)[OF False room put this] len show ?thesis
        unfolding run tx by (auto simp: algebra_simps)
    qed
  qed
qed


section \<open>What the decoder makes of it\<close>

lemma b64_encode_bytes: "b64_encode =
   [65, 66, 67, 68, 69, 70, 71, 72, 73, 74, 75, 76, 77, 78, 79, 80, 81, 82, 83, 84, 85, 86, 87, 88, 89,
    90, 97, 98, 99, 100, 101, 102, 103, 104, 105, 106, 107, 108, 109, 110, 111, 112, 113, 114, 115, 116,
    117, 118, 119, 120, 121, 122, 48, 49, 50, 51, 52, 53, 54, 55, 56, 57, 43, 47]"
  by (simp add: b64_encode_def)

lemma b64_decode_bytes: "b64_decode =
   [124, 36, 36, 36, 125, 114, 115, 116, 117, 118, 119, 120, 121, 122, 123, 36, 36, 36, 36, 36, 36, 36,
    62, 63, 64, 65, 66, 67, 68, 69, 70, 71, 72, 73, 74, 75, 76, 77, 78, 79, 80, 81, 82, 83, 84, 85, 86,
    87, 36, 36, 36, 36, 36, 36, 88, 89, 90, 91, 92, 93, 94, 95, 96, 97, 98, 99, 100, 101, 102, 103, 104,
    105, 106, 107, 108, 109, 110, 111, 112, 113]"
  by (simp add: b64_decode_def)

lemma encode_values: "map decode_char b64_encode = map of_nat [1..<65]" "list_all (\<lambda>c. c \<noteq> 0) b64_encode" "length b64_encode = 64"
proof -
  have "[1..<65] = 1 # [2..<65]" by (subst upt_conv_Cons) (simp_all add: numeral_2_eq_2 del: upt_rec_numeral)
  then show "map decode_char b64_encode = map of_nat [1..<65]"
    by (simp add: decode_char_def b64_encode_bytes b64_decode_bytes)
  show "list_all (\<lambda>c. c \<noteq> 0) b64_encode" "length b64_encode = 64" by (simp_all add: b64_encode_bytes)
qed

lemma sextet:
  assumes "x < 64"
  shows "decode_char (b64_encode ! unat x) = x + 1" "b64_encode ! unat x \<noteq> 0" "x + 1 \<noteq> 0"
proof -
  have x: "unat x < 64" using assms by (simp add: word_less_nat_alt)
  then have "decode_char (b64_encode ! unat x) = map decode_char b64_encode ! unat x" by (simp add: encode_values(3))
  also have "\<dots> = of_nat (Suc (unat x))" unfolding encode_values(1) using x by (simp del: of_nat_Suc)
  finally show "decode_char (b64_encode ! unat x) = x + 1" by simp
  show "b64_encode ! unat x \<noteq> 0" using encode_values(2,3) x by (simp add: list_all_length)
  have "x \<noteq> - 1" using assms by auto
  then show "x + 1 \<noteq> 0" by (simp add: add_eq_0_iff2)
qed

lemma pad_value: "decode_char 61 = 0"
  by (simp add: decode_char_def b64_decode_bytes)

lemma sextets_of:
  fixes a b c :: byte
  defines "w \<equiv> drop_bit 2 a" and "x \<equiv> push_bit 4 (a AND 0x03) OR drop_bit 4 (b AND 0xf0)"
    and "y \<equiv> push_bit 2 (b AND 0x0f) OR drop_bit 6 (c AND 0xc0)" and "z \<equiv> c AND 0x3f"
  shows "w < 64" "x < 64" "y < 64" "z < 64" "push_bit 2 w OR drop_bit 4 x = a" "push_bit 4 x OR drop_bit 2 y = b"
    "(push_bit 6 y AND 0xc0) OR z = c"
proof -
  have m: "(0x3f :: byte) = mask 6" "(0x03 :: byte) = mask 2" "(0x0f :: byte) = mask 4" "(0xf0 :: byte) = push_bit 4 (mask 4)" "(0xc0 :: byte) = push_bit 6 (mask 2)"
    by (simp_all add: mask_eq_exp_minus_1)
  have lt: "v < 64" if "v AND mask 6 = v" for v :: byte
  proof -
    have "v \<le> mask 6" using that by (metis word_and_le1)
    then show ?thesis by (simp add: mask_eq_exp_minus_1 word_le_nat_alt word_less_nat_alt)
  qed
  have n: "n < 8 \<Longrightarrow> n \<in> {0, 1, 2, 3, 4, 5, 6, 7}" for n :: nat by auto
  have top: "bit v 8 = False" "bit v 9 = False" for v :: byte using bit_imp_le_length[of v] by force+
  note b = bit_and_iff bit_or_iff bit_push_bit_iff bit_drop_bit_eq bit_mask_iff
  show "push_bit 2 w OR drop_bit 4 x = a" "push_bit 4 x OR drop_bit 2 y = b" "(push_bit 6 y AND 0xc0) OR z = c"
    unfolding w_def x_def y_def z_def m by (auto intro!: bit_word_eqI dest!: n[simplified] simp: b top numeral_2_eq_2 [symmetric] numeral_3_eq_3 [symmetric])
  show "w < 64" "x < 64" "y < 64" "z < 64"
    unfolding w_def x_def y_def z_def m by (auto intro!: lt bit_word_eqI dest!: n[simplified] simp: b top numeral_2_eq_2 [symmetric] numeral_3_eq_3 [symmetric])
qed


lemma more_simps [simp]: "\<not> more_input []" "more_input (c # s) \<longleftrightarrow> c \<noteq> 0"
  by (simp_all add: more_input_def)

text \<open>The four characters of a whole triple, in front of more text and at the end of it.\<close>

lemma decode_quad_text:
  assumes "w < 64" "x < 64" "y < 64" "z < 64" "length quad = 4"
  defines "ch \<equiv> \<lambda>v. b64_encode ! unat v"
  shows "more_input r \<Longrightarrow> decode_quad 4 0 (ch w # ch x # ch y # ch z # r) 0 quad = (r, 4, [w, x, y, z])"
    "decode_quad 4 0 [ch w, ch x, ch y, ch z] 0 quad = ([], 3, [w, x, y, 0])"
    "decode_quad 4 0 [ch w, ch x, ch y, 61] 0 quad = ([], 3, [w, x, y, 0])"
    "decode_quad 4 0 [ch w, ch x, 61, 61] 0 quad = ([], 3, [w, x, 0, quad ! 3])"
proof -
  obtain a b c d where q: "quad = [a, b, c, d]"
    using assms(5) by (auto simp: length_Suc_conv numeral_eq_Suc)
  have nz: "ch w \<noteq> 0" "ch x \<noteq> 0" "ch y \<noteq> 0" "ch z \<noteq> 0" using sextet(2) assms(1-4) unfolding ch_def by blast+
  note dv = sextet[OF assms(1)] sextet[OF assms(2)] sextet[OF assms(3)] sextet[OF assms(4)]
  have four: "(4 :: nat) = Suc (Suc (Suc (Suc 0)))" by simp
  show "more_input r \<Longrightarrow> decode_quad 4 0 (ch w # ch x # ch y # ch z # r) 0 quad = (r, 4, [w, x, y, z])"
    "decode_quad 4 0 [ch w, ch x, ch y, ch z] 0 quad = ([], 3, [w, x, y, 0])"
    "decode_quad 4 0 [ch w, ch x, ch y, 61] 0 quad = ([], 3, [w, x, y, 0])"
    "decode_quad 4 0 [ch w, ch x, 61, 61] 0 quad = ([], 3, [w, x, 0, quad ! 3])"
    using nz unfolding four q ch_def by (cases r; simp add: dv pad_value Let_def)+
qed


text \<open>What the decoder returns for the text of \<open>s\<close>: the last byte of a whole triple is lost, and behind a
  single byte there is a zero.\<close>

definition b64_decoded :: "byte list \<Rightarrow> byte list" where
  "b64_decoded s = (if length s mod 3 = 0 then butlast s else if length s mod 3 = 1 then s @ [0] else s)"

lemma b64_decoded_step: "s \<noteq> [] \<Longrightarrow> b64_decoded (a # b # c # s) = a # b # c # b64_decoded s"
proof -
  assume "s \<noteq> []"
  moreover have "Suc (Suc (Suc n)) mod 3 = n mod 3" for n :: nat by presburger
  ultimately show ?thesis by (simp add: b64_decoded_def)
qed

lemma encode_quad_text:
  "encode_quad [a, b, c] = map (\<lambda>v. b64_encode ! unat v)
     [drop_bit 2 a, push_bit 4 (a AND 0x03) OR drop_bit 4 (b AND 0xf0), push_bit 2 (b AND 0x0f) OR drop_bit 6 (c AND 0xc0), c AND 0x3f]"
  "encode_quad [a, b] = map (\<lambda>v. b64_encode ! unat v)
     [drop_bit 2 a, push_bit 4 (a AND 0x03) OR drop_bit 4 (b AND 0xf0), push_bit 2 (b AND 0x0f) OR drop_bit 6 (0 AND 0xc0)] @ [61]"
  "encode_quad [a] = map (\<lambda>v. b64_encode ! unat v)
     [drop_bit 2 a, push_bit 4 (a AND 0x03) OR drop_bit 4 (0 AND 0xf0)] @ [61, 61]"
  by (simp_all add: encode_quad_def)

lemma more_b64_text: "s \<noteq> [] \<Longrightarrow> more_input (b64_text s)"
  using sextets_of(1) sextet(2) by (cases s rule: b64_text.cases) (simp_all add: encode_quad_text)

text \<open>One round of the decoder on the characters of a triple.\<close>

lemma decode_round:
  assumes "length quad = 4"
  shows "s \<noteq> [] \<Longrightarrow> \<exists>q. decode_quad 4 0 (encode_quad [a, b, c] @ b64_text s) 0 quad = (b64_text s, 4, q) \<and> length q = 4 \<and> decoded_bytes 4 q = [a, b, c]"
    "\<exists>q. decode_quad 4 0 (encode_quad [a, b, c]) 0 quad = ([], 3, q) \<and> decoded_bytes 3 q = [a, b]"
    "\<exists>q. decode_quad 4 0 (encode_quad [a, b]) 0 quad = ([], 3, q) \<and> decoded_bytes 3 q = [a, b]"
    "\<exists>q. decode_quad 4 0 (encode_quad [a]) 0 quad = ([], 3, q) \<and> decoded_bytes 3 q = [a, 0]"
proof -
  note abc = sextets_of(1)[of a] sextets_of(2)[of a b] sextets_of(3)[of b c] sextets_of(4)[of c]
      sextets_of(5)[of a b] sextets_of(6)[of a b c] sextets_of(7)[of b c]
    and ab = sextets_of(1)[of a] sextets_of(2)[of a b] sextets_of(3)[of b 0] sextets_of(4)[of 0]
      sextets_of(5)[of a b] sextets_of(6)[of a b 0] sextets_of(7)[of b 0]
    and a0 = sextets_of(1)[of a] sextets_of(2)[of a 0] sextets_of(3)[of 0 0] sextets_of(4)[of 0]
      sextets_of(5)[of a 0] sextets_of(6)[of a 0 0] sextets_of(7)[of 0 0]
  show "\<exists>q. decode_quad 4 0 (encode_quad [a, b, c] @ b64_text s) 0 quad = (b64_text s, 4, q) \<and> length q = 4 \<and> decoded_bytes 4 q = [a, b, c]"
    if "s \<noteq> []"
    using decode_quad_text(1)[OF abc(1-4) assms more_b64_text[OF that]] abc(5-7)
    unfolding encode_quad_text by (simp add: decoded_bytes_def del: decode_quad.simps)
  show "\<exists>q. decode_quad 4 0 (encode_quad [a, b, c]) 0 quad = ([], 3, q) \<and> decoded_bytes 3 q = [a, b]"
    using decode_quad_text(2)[OF abc(1-4) assms] abc(5-7)
    unfolding encode_quad_text by (simp add: decoded_bytes_def del: decode_quad.simps)
  show "\<exists>q. decode_quad 4 0 (encode_quad [a, b]) 0 quad = ([], 3, q) \<and> decoded_bytes 3 q = [a, b]"
    using decode_quad_text(3)[OF ab(1-4) assms] ab(5-7)
    unfolding encode_quad_text by (simp add: decoded_bytes_def del: decode_quad.simps)
  show "\<exists>q. decode_quad 4 0 (encode_quad [a]) 0 quad = ([], 3, q) \<and> decoded_bytes 3 q = [a, 0]"
    using decode_quad_text(4)[OF a0(1-4) assms] a0(5-7)
    unfolding encode_quad_text by (simp add: decoded_bytes_def del: decode_quad.simps)
qed


lemma b64_decode_last:
  assumes "more_input t" "decode_quad 4 0 t 0 quad = ([], 3, q)" "decoded_bytes 3 q = d" "length d = 2"
    "int i + int (length d) + 1 < out_size" "nat out_size \<le> length out" "1 < n"
  shows "b64_decode_loop n t quad out_size (int i) i out = Inr (int i + int (length d), take i out @ d @ [0] @ drop (i + length d + 1) out)"
proof -
  obtain m where n: "n = Suc (Suc m)" using less_imp_Suc_add[OF assms(7)] by auto
  obtain a b where d: "d = [a, b]" using assms(4) by (auto simp: numeral_2_eq_2 length_Suc_conv)
  have i: "i + 3 \<le> length out" using assms(5,6) d by simp
  let ?out = "take i out @ d @ drop (i + 2) out"
  have "put_bytes out i d = Inr ?out" using put_bytes_spec[of i d out] i d by simp
  then have "b64_decode_loop n t quad out_size (int i) i out = b64_decode_loop (Suc m) [] q out_size (int i + 2) (i + 2) ?out"
    using assms(1-3,5) d unfolding n
    by (subst b64_decode_loop.simps) (simp add: add.commute del: put_bytes.simps decode_quad.simps b64_decode_loop.simps)
  also have "drop (i + 2) out = out ! (i + 2) # drop (i + 3) out"
    using i Cons_nth_drop_Suc[of "i + 2" out] by (simp add: numeral_3_eq_3)
  then have "put_byte ?out (i + 2) 0 = Inr (take i out @ d @ [0] @ drop (i + 3) out)"
    using i d by (simp add: put_byte_def list_update_append)
  then have "b64_decode_loop (Suc m) [] q out_size (int i + 2) (i + 2) ?out = Inr (int i + 2, take i out @ d @ [0] @ drop (i + 3) out)"
    using assms(5) d by simp
  finally show ?thesis using d by (simp add: numeral_3_eq_3)
qed

lemma b64_decode_loop_spec:
  assumes "length quad = 4" "int i + int (length (b64_decoded s)) + 1 < out_size" "nat out_size \<le> length out" "length (b64_text s) < n"
  shows "b64_decode_loop n (b64_text s) quad out_size (int i) i out =
    Inr (int i + int (length (b64_decoded s)), take i out @ b64_decoded s @ [0] @ drop (i + length (b64_decoded s) + 1) out)"
  using assms
proof (induction s arbitrary: quad i out n rule: b64_text.induct)
  case 1
  then obtain m where "n = Suc m" by (cases n) simp_all
  with 1 show ?case by (simp add: b64_decoded_def put_byte_def upd_conv_take_nth_drop)
next
  case (2 a)
  have d: "b64_decoded [a] = [a, 0]" by (simp add: b64_decoded_def)
  from decode_round(4)[OF 2(1)] obtain q where "decode_quad 4 0 (b64_text [a]) 0 quad = ([], 3, q)" "decoded_bytes 3 q = b64_decoded [a]"
    unfolding d by auto
  from b64_decode_last[OF more_b64_text this _ 2(2,3), of n] 2(4) d show ?case by simp
next
  case (3 a b)
  have d: "b64_decoded [a, b] = [a, b]" by (simp add: b64_decoded_def)
  from decode_round(3)[OF 3(1)] obtain q where "decode_quad 4 0 (b64_text [a, b]) 0 quad = ([], 3, q)" "decoded_bytes 3 q = b64_decoded [a, b]"
    unfolding d by auto
  from b64_decode_last[OF more_b64_text this _ 3(2,3), of n] 3(4) d show ?case by simp
next
  case (4 a b c s)
  show ?case
  proof (cases "s = []")
    case True
    have d: "b64_decoded (a # b # c # s) = [a, b]" using True by (simp add: b64_decoded_def)
    from decode_round(2)[OF 4(2), of a b c] True obtain q where
      "decode_quad 4 0 (b64_text (a # b # c # s)) 0 quad = ([], 3, q)" "decoded_bytes 3 q = b64_decoded (a # b # c # s)"
      unfolding d by auto
    from b64_decode_last[OF more_b64_text this _ 4(3,4), of n] 4(5) d show ?thesis by simp
  next
    case False
    from decode_round(1)[OF 4(2) False, of a b c] obtain q where
      q: "decode_quad 4 0 (b64_text (a # b # c # s)) 0 quad = (b64_text s, 4, q)" "length q = 4" "decoded_bytes 4 q = [a, b, c]" by auto
    obtain m where n: "n = Suc m" using 4(5) by (cases n) simp_all
    have len: "length (b64_decoded (a # b # c # s)) = 3 + length (b64_decoded s)" using b64_decoded_step[OF False] by simp
    have i: "i + 3 \<le> length out" using 4(3,4) len by linarith
    let ?out = "take i out @ [a, b, c] @ drop (i + 3) out"
    have "put_bytes out i [a, b, c] = Inr ?out" using put_bytes_spec[of i "[a, b, c]" out] i by (simp add: numeral_3_eq_3)
    then have "b64_decode_loop n (b64_text (a # b # c # s)) quad out_size (int i) i out =
        b64_decode_loop m (b64_text s) q out_size (int (i + 3)) (i + 3) ?out"
      using more_b64_text[of "a # b # c # s"] q(1,3) 4(3) len unfolding n
      by (subst b64_decode_loop.simps) (simp add: algebra_simps numeral_3_eq_3 del: put_bytes.simps decode_quad.simps b64_text.simps b64_decode_loop.simps)
    also have "\<dots> = Inr (int (i + 3) + int (length (b64_decoded s)), take (i + 3) ?out @ b64_decoded s @ [0] @ drop (i + 3 + length (b64_decoded s) + 1) ?out)"
      using 4(3-5) len i n by (intro 4(1) q(2)) simp_all
    also have "drop (i + 3 + k + 1) ?out = drop (i + (k + 3) + 1) out" for k
      using i by (simp add: eval_nat_numeral add.commute)
    then have "drop (i + 3 + length (b64_decoded s) + 1) ?out = drop (i + (length (b64_decoded s) + 3) + 1) out" .
    finally show ?thesis using i len b64_decoded_step[OF False] by (simp add: eval_nat_numeral add.commute)
  qed
qed


section \<open>Properties\<close>

text \<open>C39: \<open>lws_b64_decode_string\<close> inverts \<open>lws_b64_encode_string\<close> only on texts of two bytes more than
  whole triples, like the one that the self test uses.  For every input and blocks that are large
  enough, the encoder writes its text and a NUL, never past the block; the decoder then returns
  the input when its length is 2 modulo 3, the input and one zero byte when it is 1, and loses
  the last byte when it is 0.\<close>

theorem b64_roundtrip:
  assumes "int (length (b64_text s)) + 1 < size1" "nat size1 \<le> length out1"
    and "int (length s) + 2 < size2" "nat size2 \<le> length out2" "length quad = 4"
  shows "lws_b64_encode_string s out1 size1 =
      Inr (int (length (b64_text s)), b64_text s @ [0] @ drop (length (b64_text s) + 1) out1) \<and>
    lws_b64_decode_string quad (b64_text s) out2 size2 =
      Inr (int (length (b64_decoded s)), b64_decoded s @ [0] @ drop (length (b64_decoded s) + 1) out2) \<and>
    (b64_decoded s = s \<longleftrightarrow> s = [] \<or> length s mod 3 = 2)"
proof (intro conjI)
  from b64_encode_loop_spec[OF assms(2), of 0 s] assms(1) show "lws_b64_encode_string s out1 size1 =
      Inr (int (length (b64_text s)), b64_text s @ [0] @ drop (length (b64_text s) + 1) out1)"
    by (auto simp: lws_b64_encode_string_def)
  have len: "length (b64_decoded s) \<le> length s + 1" by (auto simp: b64_decoded_def)
  then have "int 0 + int (length (b64_decoded s)) + 1 < size2" using assms(3) by simp
  from b64_decode_loop_spec[OF assms(5) this assms(4), of "Suc (length (b64_text s))"]
  show "lws_b64_decode_string quad (b64_text s) out2 size2 =
      Inr (int (length (b64_decoded s)), b64_decoded s @ [0] @ drop (length (b64_decoded s) + 1) out2)"
    by (simp add: lws_b64_decode_string_def)
  have "length s mod 3 = 0 \<or> length s mod 3 = 1 \<or> length s mod 3 = 2" by presburger
  moreover have "s \<noteq> [] \<Longrightarrow> butlast s \<noteq> s" by (metis append_butlast_last_id self_append_conv not_Cons_self2)
  ultimately show "b64_decoded s = s \<longleftrightarrow> s = [] \<or> length s mod 3 = 2"
    by (cases "s = []") (auto simp: b64_decoded_def)
qed

theorem b64_roundtrip_witness:
  "lws_b64_encode_string [1, 2, 3] (replicate 6 7) 6 = Inr (4, cstr ''AQID'' @ [0, 7]) \<and>
   lws_b64_decode_string [9, 9, 9, 9] (cstr ''AQID'') (replicate 6 7) 6 = Inr (2, [1, 2, 0, 7, 7, 7])"
proof -
  have "b64_text [1, 2, 3] = cstr ''AQID''" by (simp add: encode_quad_def b64_encode_bytes)
  moreover have "b64_decoded [1, 2, 3] = [1, 2]" by (simp add: b64_decoded_def)
  moreover have "(replicate 6 7 :: byte list) = [7, 7, 7, 7, 7, 7]" by (simp add: numeral_eq_Suc)
  ultimately show ?thesis
    using b64_roundtrip[of "[1, 2, 3]" 6 "replicate 6 7" 6 "replicate 6 7" "[9, 9, 9, 9]"] by (simp add: del: cstr_Cons)
qed

end
