(* ===== verification/Sha1.thy ===== *)
theory Sha1
  imports C_Base
begin

unbundle bit_operations_syntax

text \<open>
  \<open>lib/libwebsockets/lib/sha-1.c\<close>: the hash of the websocket handshake, as a context that is fed
  with pieces of the message, and FIPS 180-1 as its specification.
\<close>

section \<open>The context\<close>

text \<open>The unions \<open>h\<close>, \<open>c\<close> and \<open>m\<close> are kept in the view that the code works with.\<close>

record sha1_ctxt =
  s_h :: "32 word list"
  s_c :: "64 word"
  s_m :: "byte list"
  s_count :: byte

definition K :: "nat \<Rightarrow> 32 word" where
  "K t = [0x5a827999, 0x6ed9eba1, 0x8f1bbcdc, 0xca62c1d6] ! (t div 20)"

definition F0 :: "32 word \<Rightarrow> 32 word \<Rightarrow> 32 word \<Rightarrow> 32 word" where "F0 b c d = (b AND c) OR (NOT b AND d)"
definition F1 :: "32 word \<Rightarrow> 32 word \<Rightarrow> 32 word \<Rightarrow> 32 word" where "F1 b c d = (b XOR c) XOR d"
definition F2 :: "32 word \<Rightarrow> 32 word \<Rightarrow> 32 word \<Rightarrow> 32 word" where "F2 b c d = (b AND c) OR (b AND d) OR (c AND d)"
definition F3 :: "32 word \<Rightarrow> 32 word \<Rightarrow> 32 word \<Rightarrow> 32 word" where "F3 b c d = (b XOR c) XOR d"

definition S :: "nat \<Rightarrow> 32 word \<Rightarrow> 32 word" where
  "S n x = push_bit n x OR drop_bit (32 - n) x"

text \<open>The bytes of \<open>m\<close> are put in the order of the machine, which makes each group of four a number
  with its first byte on top.\<close>

definition be_word :: "byte list \<Rightarrow> nat \<Rightarrow> 32 word" where
  "be_word m i = push_bit 24 (ucast (m ! (4 * i))) OR push_bit 16 (ucast (m ! (4 * i + 1))) OR
     push_bit 8 (ucast (m ! (4 * i + 2))) OR ucast (m ! (4 * i + 3))"

definition sha1_words :: "byte list \<Rightarrow> 32 word list" where
  "sha1_words m = map (be_word m) [0..<16]"

type_synonym sha1_vars = "32 word \<times> 32 word \<times> 32 word \<times> 32 word \<times> 32 word"

text \<open>A round of the loops; only the first has the test on \<open>t\<close>, which always holds in the others.\<close>

definition sha1_round :: "(32 word \<Rightarrow> 32 word \<Rightarrow> 32 word \<Rightarrow> 32 word) \<Rightarrow> nat \<Rightarrow>
    sha1_vars \<times> 32 word list \<Rightarrow> sha1_vars \<times> 32 word list" where
  "sha1_round f t = (\<lambda>((a, b, c, d, e), W).
     let s = t mod 16;
         W = (if t \<ge> 16 then W[s := S 1 (W ! ((s + 13) mod 16) XOR W ! ((s + 8) mod 16) XOR W ! ((s + 2) mod 16) XOR W ! s)] else W);
         tmp = S 5 a + f b c d + e + W ! s + K t
     in ((tmp, a, S 30 b, c, d), W))"

definition sha1_rounds :: "sha1_vars \<times> 32 word list \<Rightarrow> sha1_vars \<times> 32 word list" where
  "sha1_rounds x = fold (sha1_round F3) [60..<80] (fold (sha1_round F2) [40..<60]
     (fold (sha1_round F1) [20..<40] (fold (sha1_round F0) [0..<20] x)))"

definition sha1_step :: "sha1_ctxt \<Rightarrow> sha1_ctxt" where
  "sha1_step ctxt =
     (let h = s_h ctxt;
          ((a, b, c, d, e), W) = sha1_rounds ((h ! 0, h ! 1, h ! 2, h ! 3, h ! 4), sha1_words (s_m ctxt))
      in ctxt\<lparr>s_h := [h ! 0 + a, h ! 1 + b, h ! 2 + c, h ! 3 + d, h ! 4 + e], s_m := replicate 64 0\<rparr>)"

definition sha1_init :: sha1_ctxt where
  "sha1_init = \<lparr>s_h = [0x67452301, 0xefcdab89, 0x98badcfe, 0x10325476, 0xc3d2e1f0], s_c = 0, s_m = replicate 64 0, s_count = 0\<rparr>"

text \<open>\<open>COUNT += n; COUNT %= 64\<close>, and the step when it has come round.\<close>

definition sha1_advance :: "nat \<Rightarrow> sha1_ctxt \<Rightarrow> sha1_ctxt" where
  "sha1_advance n ctxt = (let ctxt = ctxt\<lparr>s_count := (s_count ctxt + of_nat n) mod 64\<rparr>
     in if s_count ctxt mod 64 = 0 then sha1_step ctxt else ctxt)"

definition PUTPAD :: "byte \<Rightarrow> sha1_ctxt \<Rightarrow> sha1_ctxt" where
  "PUTPAD x ctxt = sha1_advance 1 (ctxt\<lparr>s_m := (s_m ctxt)[unat (s_count ctxt mod 64) := x]\<rparr>)"

text \<open>\<open>memcpy\<close> and \<open>bzero\<close> into \<open>m\<close>.\<close>

definition fill :: "nat \<Rightarrow> byte list \<Rightarrow> sha1_ctxt \<Rightarrow> sha1_ctxt" where
  "fill start bs ctxt = ctxt\<lparr>s_m := take start (s_m ctxt) @ bs @ drop (start + length bs) (s_m ctxt)\<rparr>"

definition length_byte :: "sha1_ctxt \<Rightarrow> nat \<Rightarrow> byte" where
  "length_byte ctxt i = ucast (drop_bit (8 * i) (s_c ctxt))"

definition sha1_put_length :: "sha1_ctxt \<Rightarrow> sha1_ctxt" where
  "sha1_put_length ctxt = fold (\<lambda>i ctxt. PUTPAD (length_byte ctxt i) ctxt) [7, 6, 5, 4, 3, 2, 1, 0] ctxt"

definition sha1_pad :: "sha1_ctxt \<Rightarrow> sha1_ctxt" where
  "sha1_pad ctxt =
     (let ctxt = PUTPAD 0x80 ctxt;
          padstart = unat (s_count ctxt mod 64); padlen = 64 - padstart;
          (ctxt, padstart, padlen) = (if padlen < 8
            then let ctxt = sha1_step ((fill padstart (replicate padlen 0) ctxt)\<lparr>s_count := (s_count ctxt + of_nat padlen) mod 64\<rparr>);
                     padstart = unat (s_count ctxt mod 64)
                 in (ctxt, padstart, 64 - padstart)
            else (ctxt, padstart, padlen));
          ctxt = (fill padstart (replicate (padlen - 8) 0) ctxt)\<lparr>s_count := (s_count ctxt + of_nat (padlen - 8)) mod 64\<rparr>
      in sha1_put_length ctxt)"

function sha1_loop :: "sha1_ctxt \<Rightarrow> byte list \<Rightarrow> sha1_ctxt" where
  "sha1_loop ctxt input =
     (if input = [] then ctxt
      else let gapstart = unat (s_count ctxt mod 64); gaplen = 64 - gapstart; copysiz = min gaplen (length input);
             ctxt = sha1_advance copysiz ((fill gapstart (take copysiz input) ctxt)\<lparr>s_c := s_c ctxt + of_nat (copysiz * 8)\<rparr>)
        in sha1_loop ctxt (drop copysiz input))"
  by pat_completeness auto
termination
proof (relation "measure (\<lambda>(_, input). length input)", goal_cases)
  case (2 ctxt input x xa xb xc)
  have "unat (s_count ctxt mod 64) < 64" by (simp add: unat_mod)
  with 2 show ?case by simp
qed simp

declare sha1_loop.simps [simp del]

definition sha1_result :: "sha1_ctxt \<Rightarrow> byte list" where
  "sha1_result ctxt = concat (map (\<lambda>w. [ucast (drop_bit 24 w), ucast (drop_bit 16 w), ucast (drop_bit 8 w), ucast w]) (s_h (sha1_pad ctxt)))"

definition SHA1 :: "byte list \<Rightarrow> byte list" where
  "SHA1 d = sha1_result (sha1_loop sha1_init d)"

section \<open>FIPS 180-1\<close>

text \<open>The message schedule of a block, all 80 words of it, and the function of round \<open>t\<close>.\<close>

fun fips_word :: "byte list \<Rightarrow> nat \<Rightarrow> 32 word" where
  "fips_word m t =
     (if t < 16 then be_word m t
      else S 1 (fips_word m (t - 3) XOR fips_word m (t - 8) XOR fips_word m (t - 14) XOR fips_word m (t - 16)))"

declare fips_word.simps [simp del]

definition fips_f :: "nat \<Rightarrow> 32 word \<Rightarrow> 32 word \<Rightarrow> 32 word \<Rightarrow> 32 word" where
  "fips_f t = (if t < 20 then F0 else if t < 40 then F1 else if t < 60 then F2 else F3)"

definition fips_round :: "byte list \<Rightarrow> nat \<Rightarrow> sha1_vars \<Rightarrow> sha1_vars" where
  "fips_round m t = (\<lambda>(a, b, c, d, e). (S 5 a + fips_f t b c d + e + fips_word m t + K t, a, S 30 b, c, d))"

definition fips_block :: "byte list \<Rightarrow> 32 word list \<Rightarrow> 32 word list" where
  "fips_block m h =
     (let (a, b, c, d, e) = fold (fips_round m) [0..<80] (h ! 0, h ! 1, h ! 2, h ! 3, h ! 4)
      in [h ! 0 + a, h ! 1 + b, h ! 2 + c, h ! 3 + d, h ! 4 + e])"

text \<open>All whole blocks of a message.\<close>

function fips_blocks :: "byte list \<Rightarrow> 32 word list \<Rightarrow> 32 word list" where
  "fips_blocks ms h = (if length ms < 64 then h else fips_blocks (drop 64 ms) (fips_block (take 64 ms) h))"
  by pat_completeness auto
termination by (relation "measure (\<lambda>(ms, _). length ms)") auto

declare fips_blocks.simps [simp del]

definition fips_padded :: "byte list \<Rightarrow> byte list" where
  "fips_padded ms = ms @ [0x80] @ replicate ((119 - length ms mod 64) mod 64) 0 @
     map (\<lambda>i. of_nat (8 * length ms div 256 ^ i)) [7, 6, 5, 4, 3, 2, 1, 0]"

definition fips_digest :: "byte list \<Rightarrow> byte list" where
  "fips_digest ms = concat (map (\<lambda>w. [ucast (drop_bit 24 w), ucast (drop_bit 16 w), ucast (drop_bit 8 w), ucast w])
     (fips_blocks (fips_padded ms) (s_h sha1_init)))"

section \<open>A block\<close>

text \<open>The sixteen words of the context hold the last sixteen words of the schedule.\<close>

definition holds_words :: "byte list \<Rightarrow> nat \<Rightarrow> 32 word list \<Rightarrow> bool" where
  "holds_words m t W \<longleftrightarrow> length W = 16 \<and> (\<forall>j. j < max 16 t \<longrightarrow> max 16 t \<le> j + 16 \<longrightarrow> W ! (j mod 16) = fips_word m j)"

lemma holds_words_init: "holds_words m 0 (sha1_words m)"
  by (simp add: holds_words_def sha1_words_def fips_word.simps[of m])

lemma round_step:
  assumes "holds_words m t W" "f = fips_f t"
  shows "\<exists>W'. sha1_round f t (v, W) = (fips_round m t v, W') \<and> holds_words m (Suc t) W'"
proof -
  obtain a b c d e where v: "v = (a, b, c, d, e)" by (metis prod_cases5)
  from assms(1) have W: "length W = 16" "\<And>j. j < max 16 t \<Longrightarrow> max 16 t \<le> j + 16 \<Longrightarrow> W ! (j mod 16) = fips_word m j"
    by (simp_all add: holds_words_def)
  show ?thesis
  proof (cases "t \<ge> 16")
    case False
    have "W ! t = fips_word m t" using W(2)[of t] False by simp
    moreover have "holds_words m (Suc t) W" using assms(1) False by (simp add: holds_words_def)
    ultimately show ?thesis using False assms(2) v by (simp add: sha1_round_def fips_round_def Let_def)
  next
    case True
    let ?s = "t mod 16"
    let ?W = "W[?s := fips_word m t]"
    obtain u where u: "t = u + 16" using True by (metis add.commute le_Suc_ex)
    have m: "(?s + 13) mod 16 = (t - 3) mod 16" "(?s + 8) mod 16 = (t - 8) mod 16" "(?s + 2) mod 16 = (t - 14) mod 16"
        "?s = (t - 16) mod 16"
      unfolding u by (simp_all add: mod_add_left_eq mod_add_right_eq add.commute mod_Suc_eq mod_Suc_Suc_eq)
    have r: "W ! ((?s + 13) mod 16) = fips_word m (t - 3)" "W ! ((?s + 8) mod 16) = fips_word m (t - 8)"
        "W ! ((?s + 2) mod 16) = fips_word m (t - 14)" "W ! ?s = fips_word m (t - 16)"
      unfolding m(1-3) using True W(2)[of "t - 3"] W(2)[of "t - 8"] W(2)[of "t - 14"] W(2)[of "t - 16"] m(4) by simp_all
    have w: "S 1 (W ! ((?s + 13) mod 16) XOR W ! ((?s + 8) mod 16) XOR W ! ((?s + 2) mod 16) XOR W ! ?s) = fips_word m t"
      unfolding r using True by (simp add: fips_word.simps[of m t])
    have new: "holds_words m (Suc t) ?W"
      unfolding holds_words_def
    proof (intro conjI allI impI)
      fix j assume j: "j < max 16 (Suc t)" "max 16 (Suc t) \<le> j + 16"
      show "?W ! (j mod 16) = fips_word m j"
      proof (cases "j = t")
        case True
        then show ?thesis using W(1) by simp
      next
        case False
        then have "j < t" "t < j + 16" using j \<open>t \<ge> 16\<close> by simp_all
        then have "\<not> 16 dvd t - j" by (intro nat_dvd_not_less) simp_all
        then have "j mod 16 \<noteq> ?s" using \<open>j < t\<close> mod_eq_dvd_iff_nat[of j t 16] by simp
        moreover have "W ! (j mod 16) = fips_word m j" using j \<open>j < t\<close> \<open>t \<ge> 16\<close> by (intro W(2)) simp_all
        ultimately show ?thesis by simp
      qed
    qed (use W(1) in simp)
    have "?W ! ?s = fips_word m t" using W(1) by simp
    then show ?thesis using new True assms(2) v w by (simp add: sha1_round_def fips_round_def Let_def)
  qed
qed

lemma rounds_step:
  "holds_words m i W \<Longrightarrow> i \<le> k \<Longrightarrow> \<forall>t. i \<le> t \<longrightarrow> t < k \<longrightarrow> f = fips_f t \<Longrightarrow>
     \<exists>W'. fold (sha1_round f) [i..<k] (v, W) = (fold (fips_round m) [i..<k] v, W') \<and> holds_words m k W'"
proof (induction "k - i" arbitrary: i v W)
  case 0
  then show ?case by simp
next
  case (Suc n)
  then have ik: "i < k" "[i..<k] = i # [Suc i..<k]" by (simp_all add: upt_conv_Cons)
  have "f = fips_f i" using Suc.prems(3) ik(1) by blast
  from round_step[OF Suc.prems(1) this, of v] obtain W' where
    "sha1_round f i (v, W) = (fips_round m i v, W')" "holds_words m (Suc i) W'" by blast
  moreover have "n = k - Suc i" "Suc i \<le> k" "\<forall>t. Suc i \<le> t \<longrightarrow> t < k \<longrightarrow> f = fips_f t" using Suc.hyps(2) ik(1) Suc.prems(3) by simp_all
  ultimately show ?case using Suc.hyps(1)[of "Suc i" W' "fips_round m i v"] unfolding ik(2) by simp
qed

lemma sha1_rounds_spec: "\<exists>W'. sha1_rounds (v, sha1_words m) = (fold (fips_round m) [0..<80] v, W')"
proof -
  have f: "\<forall>t. 0 \<le> t \<longrightarrow> t < 20 \<longrightarrow> F0 = fips_f t" "\<forall>t. 20 \<le> t \<longrightarrow> t < 40 \<longrightarrow> F1 = fips_f t"
    "\<forall>t. 40 \<le> t \<longrightarrow> t < 60 \<longrightarrow> F2 = fips_f t" "\<forall>t. 60 \<le> t \<longrightarrow> t < 80 \<longrightarrow> F3 = fips_f t"
    by (simp_all add: fips_f_def)
  from rounds_step[OF holds_words_init _ f(1), of v m] obtain W1 where
    1: "fold (sha1_round F0) [0..<20] (v, sha1_words m) = (fold (fips_round m) [0..<20] v, W1)" "holds_words m 20 W1" by auto
  from rounds_step[OF 1(2) _ f(2), of "fold (fips_round m) [0..<20] v"] obtain W2 where
    2: "fold (sha1_round F1) [20..<40] (fold (fips_round m) [0..<20] v, W1) = (fold (fips_round m) [20..<40] (fold (fips_round m) [0..<20] v), W2)"
      "holds_words m 40 W2" by (auto simp del: upt_rec_numeral)
  from rounds_step[OF 2(2) _ f(3), of "fold (fips_round m) [20..<40] (fold (fips_round m) [0..<20] v)"] obtain W3 where
    3: "fold (sha1_round F2) [40..<60] (fold (fips_round m) [20..<40] (fold (fips_round m) [0..<20] v), W2) =
        (fold (fips_round m) [40..<60] (fold (fips_round m) [20..<40] (fold (fips_round m) [0..<20] v)), W3)"
      "holds_words m 60 W3" by (auto simp del: upt_rec_numeral)
  from rounds_step[OF 3(2) _ f(4), of "fold (fips_round m) [40..<60] (fold (fips_round m) [20..<40] (fold (fips_round m) [0..<20] v))"] obtain W4 where
    4: "fold (sha1_round F3) [60..<80] (fold (fips_round m) [40..<60] (fold (fips_round m) [20..<40] (fold (fips_round m) [0..<20] v)), W3) =
        (fold (fips_round m) [60..<80] (fold (fips_round m) [40..<60] (fold (fips_round m) [20..<40] (fold (fips_round m) [0..<20] v))), W4)"
    by (auto simp del: upt_rec_numeral)
  have "[0..<80] = [0..<20] @ [20..<40] @ [40..<60] @ [60..<80]"
    using upt_add_eq_append[of 0 20 60] upt_add_eq_append[of 20 40 40] upt_add_eq_append[of 40 60 20] by (simp del: upt_rec_numeral)
  then have "fold (fips_round m) [0..<80] v = fold (fips_round m) [60..<80] (fold (fips_round m) [40..<60] (fold (fips_round m) [20..<40] (fold (fips_round m) [0..<20] v)))"
    by (simp only: fold_append comp_apply)
  then show ?thesis unfolding sha1_rounds_def 1(1) 2(1) 3(1) 4 by (intro exI[of _ W4]) simp
qed

lemma sha1_step_spec: "sha1_step ctxt = ctxt\<lparr>s_h := fips_block (s_m ctxt) (s_h ctxt), s_m := replicate 64 0\<rparr>"
proof -
  let ?h = "s_h ctxt"
  from sha1_rounds_spec[of "(?h ! 0, ?h ! 1, ?h ! 2, ?h ! 3, ?h ! 4)" "s_m ctxt"] obtain W where
    "sha1_rounds ((?h ! 0, ?h ! 1, ?h ! 2, ?h ! 3, ?h ! 4), sha1_words (s_m ctxt)) =
      (fold (fips_round (s_m ctxt)) [0..<80] (?h ! 0, ?h ! 1, ?h ! 2, ?h ! 3, ?h ! 4), W)" by blast
  then show ?thesis by (simp add: sha1_step_def fips_block_def Let_def split: prod.splits)
qed


section \<open>A context and the message that it has taken in\<close>

lemma fips_blocks_append: "length xs mod 64 = 0 \<Longrightarrow> fips_blocks (xs @ ys) h = fips_blocks ys (fips_blocks xs h)"
proof (induction xs h rule: fips_blocks.induct)
  case (1 xs h)
  show ?case
  proof (cases "xs = []")
    case True
    then show ?thesis by (simp add: fips_blocks.simps[of "[]"])
  next
    case False
    with 1(2) have len: "64 \<le> length xs" by (metis length_0_conv mod_less not_less)
    with 1(2) have "length (drop 64 xs) mod 64 = 0" by (simp add: le_mod_geq)
    with 1(1) len show ?thesis by (simp add: fips_blocks.simps[of "xs @ ys"] fips_blocks.simps[of xs])
  qed
qed

text \<open>The context has hashed the whole blocks of \<open>ms\<close> and keeps the rest of it in \<open>m\<close>.\<close>

definition taken :: "byte list \<Rightarrow> sha1_ctxt \<Rightarrow> bool" where
  "taken ms ctxt \<longleftrightarrow> length (s_m ctxt) = 64 \<and> unat (s_count ctxt) = length ms mod 64 \<and>
     s_h ctxt = fips_blocks (take (length ms - length ms mod 64) ms) (s_h sha1_init) \<and>
     take (length ms mod 64) (s_m ctxt) = drop (length ms - length ms mod 64) ms"

lemma taken_init: "taken [] sha1_init"
  by (simp add: taken_def sha1_init_def fips_blocks.simps)

lemma count_mod:
  assumes "unat (c :: byte) < 64"
  shows "c mod 64 = c" "n \<le> 64 \<Longrightarrow> unat ((c + of_nat n) mod 64) = (unat c + n) mod 64"
proof -
  show "c mod 64 = c" using assms by (simp add: word_less_nat_alt mod_word_less)
  show "unat ((c + of_nat n) mod 64) = (unat c + n) mod 64" if "n \<le> 64"
  proof -
    have "unat (of_nat n :: byte) = n" using that by (simp add: unat_of_nat)
    then have "unat (c + of_nat n) = unat c + n" using assms that by (subst unat_plus_if') simp
    then show ?thesis by (simp add: unat_mod)
  qed
qed

text \<open>Bytes that fill \<open>m\<close> at most to its end.\<close>

lemma taken_fill:
  assumes "taken ms ctxt" "length ms mod 64 + length bs \<le> 64" "bs \<noteq> []"
  shows "taken (ms @ bs) (sha1_advance (length bs) (fill (length ms mod 64) bs ctxt))"
    "length ms mod 64 + length bs < 64 \<Longrightarrow>
      sha1_advance (length bs) (fill (length ms mod 64) bs ctxt) =
      (fill (length ms mod 64) bs ctxt)\<lparr>s_count := (s_count ctxt + of_nat (length bs)) mod 64\<rparr>"
    "length ms mod 64 + length bs = 64 \<Longrightarrow>
      sha1_advance (length bs) (fill (length ms mod 64) bs ctxt) =
      sha1_step ((fill (length ms mod 64) bs ctxt)\<lparr>s_count := (s_count ctxt + of_nat (length bs)) mod 64\<rparr>)"
proof -
  let ?k = "length ms mod 64" let ?w = "length ms - ?k" let ?c = "(s_count ctxt + of_nat (length bs)) mod 64 :: byte"
  let ?f = "(fill ?k bs ctxt)\<lparr>s_count := ?c\<rparr>"
  from assms(1) have t: "length (s_m ctxt) = 64" "unat (s_count ctxt) = ?k" "s_h ctxt = fips_blocks (take ?w ms) (s_h sha1_init)"
    "take ?k (s_m ctxt) = drop ?w ms" by (simp_all add: taken_def)
  have lt: "unat (s_count ctxt) < 64" unfolding t(2) by simp
  have c: "unat ?c = (?k + length bs) mod 64" using count_mod(2)[OF lt, of "length bs"] assms(2) t(2) by simp
  have c64: "?c mod 64 = ?c" using c by (intro count_mod(1)) simp
  have adv: "sha1_advance (length bs) (fill ?k bs ctxt) = (if unat ?c = 0 then sha1_step ?f else ?f)"
    using c64 by (simp add: sha1_advance_def fill_def Let_def unat_eq_0)
  have pos: "0 < length bs" using assms(3) by simp
  show lt64: "sha1_advance (length bs) (fill ?k bs ctxt) = ?f" if "?k + length bs < 64"
    unfolding adv c using that pos by simp
  show eq64: "sha1_advance (length bs) (fill ?k bs ctxt) = sha1_step ?f" if "?k + length bs = 64"
    unfolding adv c using that by simp
  have m: "s_m ?f = take ?k (s_m ctxt) @ bs @ drop (?k + length bs) (s_m ctxt)" "length (s_m ?f) = 64" "s_h ?f = s_h ctxt"
    using t(1) assms(2) by (simp_all add: fill_def)
  have w: "?w mod 64 = 0" "?w \<le> length ms" by (simp_all add: minus_mod_eq_div_mult)
  show "taken (ms @ bs) (sha1_advance (length bs) (fill ?k bs ctxt))"
  proof (cases "?k + length bs < 64")
    case True
    have len: "length (ms @ bs) mod 64 = ?k + length bs"
      using True by (metis length_append mod_add_left_eq mod_less)
    have w': "length (ms @ bs) - length (ms @ bs) mod 64 = ?w" unfolding len by simp
    show ?thesis unfolding lt64[OF True] taken_def w' unfolding len
      using c True m t w by (simp add: fill_def)
  next
    case False
    with assms(2) have e: "?k + length bs = 64" by simp
    have len: "length (ms @ bs) mod 64 = 0" using e by (metis length_append mod_add_left_eq mod_self)
    have sm: "s_m ?f = drop ?w ms @ bs" using m(1) t(1,4) e by simp
    have "length (take ?w ms) mod 64 = 0" using w by (simp add: min_absorb2)
    from fips_blocks_append[OF this, of "drop ?w ms @ bs"]
    have "fips_blocks (ms @ bs) h = fips_blocks (drop ?w ms @ bs) (fips_blocks (take ?w ms) h)" for h
      by (simp flip: append_assoc)
    also have "fips_blocks (drop ?w ms @ bs) h = fips_block (drop ?w ms @ bs) h" for h
      using m(2) unfolding sm by (simp add: fips_blocks.simps)
    finally have "s_h (sha1_step ?f) = fips_blocks (ms @ bs) (s_h sha1_init)"
      unfolding sha1_step_spec sm using m(3) t(3) by simp
    moreover have "unat (s_count (sha1_step ?f)) = 0" unfolding sha1_step_spec using c e by simp
    ultimately show ?thesis unfolding eq64[OF e] taken_def len by (simp add: sha1_step_spec)
  qed
qed

lemma taken_c [simp]: "taken ms (ctxt\<lparr>s_c := x\<rparr>) = taken ms ctxt"
  by (simp add: taken_def)

lemma taken_count: "taken ms ctxt \<Longrightarrow> unat (s_count ctxt mod 64) = length ms mod 64"
  by (simp add: taken_def unat_mod)

lemma s_c_step [simp]: "s_c (sha1_step ctxt) = s_c ctxt" "s_c (sha1_advance n ctxt) = s_c ctxt" "s_c (fill k bs ctxt) = s_c ctxt"
  by (simp_all add: sha1_step_spec sha1_advance_def fill_def Let_def)

lemma taken_PUTPAD:
  assumes "taken ms ctxt"
  shows "taken (ms @ [x]) (PUTPAD x ctxt)" "s_c (PUTPAD x ctxt) = s_c ctxt"
proof -
  let ?k = "length ms mod 64"
  have "?k < length (s_m ctxt)" using assms by (simp add: taken_def)
  then have "(s_m ctxt)[?k := x] = take ?k (s_m ctxt) @ [x] @ drop (?k + length [x]) (s_m ctxt)"
    by (simp add: upd_conv_take_nth_drop)
  then have "PUTPAD x ctxt = sha1_advance (length [x]) (fill ?k [x] ctxt)"
    unfolding PUTPAD_def fill_def taken_count[OF assms] by simp
  moreover have "?k + length [x] \<le> 64" by (simp add: Suc_leI)
  ultimately show "taken (ms @ [x]) (PUTPAD x ctxt)" using taken_fill(1)[OF assms, of "[x]"] by simp
  show "s_c (PUTPAD x ctxt) = s_c ctxt" by (simp add: PUTPAD_def)
qed

lemma taken_loop:
  "taken ms ctxt \<Longrightarrow> taken (ms @ input) (sha1_loop ctxt input) \<and> s_c (sha1_loop ctxt input) = s_c ctxt + of_nat (8 * length input)"
proof (induction ctxt input arbitrary: ms rule: sha1_loop.induct)
  case (1 ctxt input)
  show ?case
  proof (cases "input = []")
    case True
    with 1(2) show ?thesis by (simp add: sha1_loop.simps)
  next
    case False
    let ?k = "length ms mod 64" let ?n = "min (64 - ?k) (length input)"
    let ?c = "ctxt\<lparr>s_c := s_c ctxt + of_nat (?n * 8)\<rparr>"
    let ?ctxt = "sha1_advance ?n ((fill ?k (take ?n input) ctxt)\<lparr>s_c := s_c ctxt + of_nat (?n * 8)\<rparr>)"
    have run: "sha1_loop ctxt input = sha1_loop ?ctxt (drop ?n input)"
      using False by (subst sha1_loop.simps) (simp only: if_False Let_def taken_count[OF 1(2)])
    have n: "length (take ?n input) = ?n" by simp
    have k: "?k < 64" by simp
    moreover have "?n \<le> 64 - ?k" by simp
    ultimately have "?k + ?n \<le> 64" by linarith
    then have bs: "?k + length (take ?n input) \<le> 64" unfolding n .
    have ne: "take ?n input \<noteq> []" using False k by simp
    have "(fill ?k (take ?n input) ctxt)\<lparr>s_c := s_c ctxt + of_nat (?n * 8)\<rparr> = fill ?k (take ?n input) ?c"
      by (simp add: fill_def)
    then have taken: "taken (ms @ take ?n input) ?ctxt"
      using taken_fill(1)[of ms ?c, OF _ bs ne] 1(2) unfolding n by simp
    from 1(1)[OF False refl refl refl refl, unfolded taken_count[OF 1(2)], OF taken]
    have "taken ((ms @ take ?n input) @ drop ?n input) (sha1_loop ?ctxt (drop ?n input)) \<and>
      s_c (sha1_loop ?ctxt (drop ?n input)) = s_c ?ctxt + of_nat (8 * length (drop ?n input))" .
    moreover have "s_c ?ctxt + of_nat (8 * length (drop ?n input)) = s_c ctxt + of_nat (8 * length input)"
    proof -
      have "?n * 8 + 8 * length (drop ?n input) = 8 * length input" by simp
      then have "(of_nat (?n * 8) :: 64 word) + of_nat (8 * length (drop ?n input)) = of_nat (8 * length input)"
        by (metis of_nat_add)
      moreover have "s_c ?ctxt = s_c ctxt + of_nat (?n * 8)" by simp
      ultimately show ?thesis by (simp only: add.assoc)
    qed
    ultimately show ?thesis unfolding run by simp
  qed
qed


lemma taken_pads:
  "taken ms ctxt \<Longrightarrow> taken (ms @ map f is) (fold (\<lambda>i. PUTPAD (f i)) is ctxt) \<and> s_c (fold (\<lambda>i. PUTPAD (f i)) is ctxt) = s_c ctxt"
proof (induction "is" arbitrary: ms ctxt)
  case (Cons i "is")
  from Cons.IH[OF taken_PUTPAD(1)[OF Cons.prems]] taken_PUTPAD(2)[OF Cons.prems] show ?case by simp
qed simp

text \<open>The eight bytes of the length are read from the context, which does not change meanwhile.\<close>

lemma length_pads:
  "taken ms ctxt \<Longrightarrow> fold (\<lambda>i ctxt. PUTPAD (length_byte ctxt i) ctxt) is ctxt = fold (\<lambda>i. PUTPAD (length_byte ctxt0 i)) is ctxt"
  if "s_c ctxt = s_c ctxt0" for ctxt0
  using that
proof (induction "is" arbitrary: ms ctxt)
  case (Cons i "is")
  have "length_byte ctxt i = length_byte ctxt0 i" using Cons.prems(2) by (simp add: length_byte_def)
  with Cons.IH[OF taken_PUTPAD(1)[OF Cons.prems(1)]] taken_PUTPAD(2)[OF Cons.prems(1)] Cons.prems(2) show ?case by simp
qed simp

lemma length_byte_value:
  assumes "s_c ctxt = of_nat n" "n < 2 ^ 64"
  shows "length_byte ctxt i = of_nat (n div 256 ^ i)"
proof -
  have "unat (s_c ctxt) = n" using assms by (simp add: unat_of_nat)
  then have "unat (drop_bit (8 * i) (s_c ctxt)) = drop_bit (8 * i) n" by (simp only: unat_drop_bit_eq)
  also have "\<dots> = n div 256 ^ i" by (simp add: drop_bit_eq_div power_mult)
  finally have v: "unat (drop_bit (8 * i) (s_c ctxt)) = n div 256 ^ i" .
  have "length_byte ctxt i = of_nat (unat (drop_bit (8 * i) (s_c ctxt)))"
    unfolding length_byte_def by (simp only: of_nat_unat)
  then show ?thesis unfolding v .
qed

lemma taken_zeros:
  assumes "taken ms ctxt" "length ms mod 64 + n < 64"
  shows "taken (ms @ replicate n 0) ((fill (length ms mod 64) (replicate n 0) ctxt)\<lparr>s_count := (s_count ctxt + of_nat n) mod 64\<rparr>)"
proof (cases "n = 0")
  case True
  have "unat (s_count ctxt) < 64" using assms(1) by (simp add: taken_def)
  with True assms(1) count_mod(1) show ?thesis by (simp add: fill_def)
next
  case False
  with taken_fill(1,2)[OF assms(1), of "replicate n 0"] assms(2) show ?thesis by simp
qed

lemma taken_zeros_full:
  assumes "taken ms ctxt" "length ms mod 64 + n = 64" "0 < n"
  shows "taken (ms @ replicate n 0) (sha1_step ((fill (length ms mod 64) (replicate n 0) ctxt)\<lparr>s_count := (s_count ctxt + of_nat n) mod 64\<rparr>))"
  using taken_fill(1,3)[OF assms(1), of "replicate n 0"] assms(2,3) by simp


section \<open>The digest\<close>

lemma pad_arith:
  fixes l :: nat
  assumes "l < 64"
  shows "(l + 1) mod 64 \<le> 56 \<Longrightarrow> (119 - l) mod 64 = 56 - (l + 1) mod 64"
    "\<not> (l + 1) mod 64 \<le> 56 \<Longrightarrow> (119 - l) mod 64 = (64 - (l + 1) mod 64) + 56"
    "(l + 1 + (119 - l) mod 64) mod 64 = 56"
proof -
  have z: "(119 - l) mod 64 = (if l \<le> 55 then 55 - l else 119 - l)"
  proof (cases "l \<le> 55")
    case True
    then have "119 - l = 64 + (55 - l)" by simp
    then show ?thesis using True by (simp only: mod_add_self1) simp
  qed (use assms in simp)
  have k: "(l + 1) mod 64 = (if l = 63 then 0 else l + 1)" using assms by simp
  show "(l + 1) mod 64 \<le> 56 \<Longrightarrow> (119 - l) mod 64 = 56 - (l + 1) mod 64"
    "\<not> (l + 1) mod 64 \<le> 56 \<Longrightarrow> (119 - l) mod 64 = (64 - (l + 1) mod 64) + 56"
    unfolding z k using assms by (auto split: if_splits)
  show "(l + 1 + (119 - l) mod 64) mod 64 = 56"
  proof (cases "l \<le> 55")
    case False
    then have "l + 1 + (119 - l) = 64 + 56" using assms by simp
    then show ?thesis unfolding z using False by (simp only: if_False mod_add_self1) simp
  qed (simp add: z)
qed

lemma taken_pad:
  assumes "taken ms ctxt" "s_c ctxt = of_nat (8 * length ms)" "8 * length ms < 2 ^ 64"
  shows "taken (fips_padded ms) (sha1_pad ctxt)" "length (fips_padded ms) mod 64 = 0"
proof -
  let ?len = "length ms mod 64" let ?c1 = "PUTPAD 0x80 ctxt" let ?m1 = "ms @ [0x80 :: byte]"
  let ?k = "length ?m1 mod 64" let ?z = "(119 - ?len) mod 64"
  let ?tail = "\<lambda>k n ctxt. sha1_put_length ((fill k (replicate n 0) ctxt)\<lparr>s_count := (s_count ctxt + of_nat n) mod 64\<rparr>)"
  have t1: "taken ?m1 ?c1" "s_c ?c1 = of_nat (8 * length ms)" using taken_PUTPAD[OF assms(1), of "0x80"] assms(2) by simp_all
  have k: "?k < 64" by simp
  have l: "?k = (?len + 1) mod 64" by (simp add: mod_Suc_eq)
  have tail: "taken (ms' @ replicate (56 - k) 0 @ map (\<lambda>i. of_nat (8 * length ms div 256 ^ i)) [7, 6, 5, 4, 3, 2, 1, 0]) (?tail k (56 - k) c)"
    if "taken ms' c" "s_c c = of_nat (8 * length ms)" "k = length ms' mod 64" "k \<le> 56" for ms' c k
  proof -
    let ?c = "(fill k (replicate (56 - k) 0) c)\<lparr>s_count := (s_count c + of_nat (56 - k)) mod 64\<rparr>"
    have t: "taken (ms' @ replicate (56 - k) 0) ?c" using taken_zeros[OF that(1), of "56 - k"] that(3,4) by simp
    have c: "s_c ?c = of_nat (8 * length ms)" using that(2) by simp
    have "?tail k (56 - k) c = fold (\<lambda>i. PUTPAD (of_nat (8 * length ms div 256 ^ i))) [7, 6, 5, 4, 3, 2, 1, 0] ?c"
      unfolding sha1_put_length_def length_pads[OF refl t] length_byte_value[OF c assms(3)] ..
    with taken_pads[OF t, of "\<lambda>i. of_nat (8 * length ms div 256 ^ i)" "[7, 6, 5, 4, 3, 2, 1, 0]"] show ?thesis by (simp only: append_assoc)
  qed
  show "taken (fips_padded ms) (sha1_pad ctxt)"
  proof (cases "64 - ?k < 8")
    case False
    have z: "?z = 56 - ?k" unfolding l using False l by (intro pad_arith(1)) simp_all
    have "sha1_pad ctxt = ?tail ?k (64 - ?k - 8) ?c1"
      unfolding sha1_pad_def Let_def taken_count[OF t1(1)] using False by simp
    with tail[OF t1 refl] False show ?thesis by (simp add: fips_padded_def z)
  next
    case True
    let ?c2 = "sha1_step ((fill ?k (replicate (64 - ?k) 0) ?c1)\<lparr>s_count := (s_count ?c1 + of_nat (64 - ?k)) mod 64\<rparr>)"
    let ?m2 = "?m1 @ replicate (64 - ?k) 0"
    have t2: "taken ?m2 ?c2" "s_c ?c2 = of_nat (8 * length ms)" using taken_zeros_full[OF t1(1), of "64 - ?k"] k t1(2) by simp_all
    have k2: "length ?m2 mod 64 = 0"
    proof -
      have "length ?m2 mod 64 = (?k + (64 - ?k)) mod 64" 
        using mod_add_left_eq[of "length ?m1" 64 "64 - ?k"] by (simp only: length_append length_replicate)
      then show ?thesis using k by simp
    qed
    have z: "?z = (64 - ?k) + 56" unfolding l using True l by (intro pad_arith(2)) simp_all
    have "sha1_pad ctxt = ?tail 0 56 ?c2"
      unfolding sha1_pad_def Let_def taken_count[OF t1(1)] taken_count[OF t2(1), unfolded k2] using True by simp
    moreover have "fips_padded ms = ?m2 @ replicate (56 - 0) 0 @ map (\<lambda>i. of_nat (8 * length ms div 256 ^ i)) [7, 6, 5, 4, 3, 2, 1, 0]"
      unfolding fips_padded_def z replicate_add by (simp only: append_assoc diff_zero)
    ultimately show ?thesis using tail[OF t2 k2[symmetric]] by (simp only: diff_zero)
  qed
  have "(?len + 1 + ?z) mod 64 = 56" by (rule pad_arith(3)) simp
  then have "(length ms + (1 + ?z)) mod 64 = 56"
    using mod_add_left_eq[of "length ms" 64 "1 + ?z"] by (simp only: add.assoc)
  then have "(length ms + (1 + ?z) + 8) mod 64 = 0"
    using mod_add_left_eq[of "length ms + (1 + ?z)" 64 8] by simp
  then show "length (fips_padded ms) mod 64 = 0" by (simp add: fips_padded_def)
qed

lemma sha1_result_spec:
  assumes "taken ms ctxt" "s_c ctxt = of_nat (8 * length ms)" "8 * length ms < 2 ^ 64"
  shows "sha1_result ctxt = fips_digest ms"
  using taken_pad[OF assms] by (simp add: sha1_result_def fips_digest_def taken_def)

section \<open>Properties\<close>



end
